(* ===== verification/Prelude.thy ===== *)
theory Prelude
  imports Main "HOL-Library.Word" "HOL-Library.AList" "HOL-Library.Sublist"
begin

text \<open>
  Shared vocabulary of the development: the machine types of the Rust sources, the
  three-way outcome of a Rust function (a value, an error, a panic), message texts as the
  fragments of a \<^verbatim>\<open>format!\<close> call, big- and little-endian codecs with their round trips,
  the cursor reads of the \<^verbatim>\<open>Buf\<close> trait, and the list lemmas that the components share.
\<close>

unbundle bit_operations_syntax

section \<open>Machine types\<close>

text \<open>
  A \<^verbatim>\<open>Bytes\<close>, \<^verbatim>\<open>Vec<u8>\<close> or \<^verbatim>\<open>&[u8]\<close> is a list of 8-bit words. An \<^verbatim>\<open>i64\<close> is a 64-bit word read
  with \<^term>\<open>sint\<close>; its additions wrap. A \<^verbatim>\<open>Duration\<close> and an \<^verbatim>\<open>Instant\<close> are counted in
  nanoseconds: \<^verbatim>\<open>Instant::elapsed\<close> saturates at zero, as subtraction on \<^typ>\<open>nat\<close> does.
\<close>

type_synonym byte = "8 word"
type_synonym bytes = "byte list"
type_synonym u16 = "16 word"
type_synonym u32 = "32 word"
type_synonym u64 = "64 word"
type_synonym i64 = "64 word"
type_synonym duration = nat
type_synonym instant = nat

abbreviation millis :: "nat \<Rightarrow> duration" where "millis n \<equiv> n * 1000000"
abbreviation secs :: "nat \<Rightarrow> duration" where "secs n \<equiv> n * 1000000000"

text \<open>\<^verbatim>\<open>Duration::MAX\<close>: seconds are a \<^verbatim>\<open>u64\<close>, nanoseconds below a second.\<close>

definition DURATION_MAX :: duration where
  "DURATION_MAX = secs (2 ^ 64) - 1"

definition elapsed :: "instant \<Rightarrow> instant \<Rightarrow> duration" where
  "elapsed now since = now - since"

section \<open>Outcomes\<close>

text \<open>
  \<^verbatim>\<open>Result<T, E>\<close> extended by the third way a Rust function can end: a panic (a slice out of
  range, a failed assertion, a cursor read past the end). The question-mark operator is
  \<open>bind_result\<close>.
\<close>

datatype ('a, 'e) result = Ok 'a | Err 'e | Panic

definition bind_result ::
    "('a, 'e) result \<Rightarrow> ('a \<Rightarrow> ('b, 'e) result) \<Rightarrow> ('b, 'e) result" where
  "bind_result r f = (case r of Ok a \<Rightarrow> f a | Err e \<Rightarrow> Err e | Panic \<Rightarrow> Panic)"

lemma bind_result_simps [simp]:
  "bind_result (Ok a) f = f a"
  "bind_result (Err e) f = Err e"
  "bind_result Panic f = Panic"
  by (simp_all add: bind_result_def)

lemma bind_result_eq_Ok [simp]:
  "bind_result r f = Ok b \<longleftrightarrow> (\<exists>a. r = Ok a \<and> f a = Ok b)"
  by (cases r) auto

lemma bind_result_eq_Panic:
  "bind_result r f = Panic \<longleftrightarrow> r = Panic \<or> (\<exists>a. r = Ok a \<and> f a = Panic)"
  by (cases r) auto

fun is_ok :: "('a, 'e) result \<Rightarrow> bool" where
  "is_ok (Ok _) = True"
| "is_ok (Err _) = False"
| "is_ok Panic = False"

section \<open>Message texts\<close>

text \<open>
  A \<^verbatim>\<open>format!\<close> call is the list of its fragments: literal text, an interpolated integer, an
  interpolated string, a debug-quoted string, a duration, or the text of an error value of
  another library (\<open>Foreign\<close>). The program never looks at the rendered characters, it only
  passes them on.
\<close>

datatype fragment = Txt string | Num int | Str string | Quoted string | Dur duration | Foreign

type_synonym msg = "fragment list"

section \<open>Little- and big-endian integers\<close>

fun le_encode :: "nat \<Rightarrow> 'a::len word \<Rightarrow> bytes" where
  "le_encode 0 w = []"
| "le_encode (Suc n) w = ucast w # le_encode n (drop_bit 8 w)"

fun le_decode :: "bytes \<Rightarrow> 'a::len word" where
  "le_decode [] = 0"
| "le_decode (b # bs) = ucast b OR push_bit 8 (le_decode bs)"

definition be_encode :: "nat \<Rightarrow> 'a::len word \<Rightarrow> bytes" where
  "be_encode n w = rev (le_encode n w)"

definition be_decode :: "bytes \<Rightarrow> 'a::len word" where
  "be_decode bs = le_decode (rev bs)"

lemma length_le_encode [simp]: "length (le_encode n w) = n"
  by (induction n arbitrary: w) auto

lemma length_be_encode [simp]: "length (be_encode n w) = n"
  by (simp add: be_encode_def)

lemma take_bit_byte_step:
  "take_bit (8 + n) (w :: 'a::len word) =
     ucast (ucast w :: byte) OR push_bit 8 (take_bit n (drop_bit 8 w))"
  by (rule bit_eqI) (auto simp: bit_simps)

lemma le_decode_encode: "le_decode (le_encode n w) = take_bit (8 * n) (w :: 'a::len word)"
proof (induction n arbitrary: w)
  case (Suc n)
  then show ?case using take_bit_byte_step [of "8 * n" w] by simp
qed simp

lemma bit_le_decode_bound: "bit (le_decode bs :: 'a::len word) k \<Longrightarrow> k < 8 * length bs"
proof (induction bs arbitrary: k)
  case (Cons b bs)
  from Cons.prems consider "k < 8" | "8 \<le> k" "bit (le_decode bs :: 'a word) (k - 8)"
    by (auto simp: bit_simps dest: bit_imp_le_length)
  then show ?case by cases (use Cons.IH [of "k - 8"] in auto)
qed simp

lemma le_encode_decode:
  "8 * length bs \<le> LENGTH('a) \<Longrightarrow> le_encode (length bs) (le_decode bs :: 'a::len word) = bs"
proof (induction bs)
  case (Cons b bs)
  have "ucast (ucast b OR push_bit 8 (le_decode bs :: 'a word)) = b"
    by (rule bit_eqI) (use Cons.prems in \<open>auto simp: bit_simps\<close>)
  moreover have "drop_bit 8 (ucast b OR push_bit 8 (le_decode bs :: 'a word)) = le_decode bs"
    by (rule bit_eqI)
      (use Cons.prems in \<open>auto simp: bit_simps dest: bit_le_decode_bound bit_imp_le_length\<close>)
  ultimately show ?case using Cons by simp
qed simp

lemma le_decode_encode_full [simp]:
  "LENGTH('a) \<le> 8 * n \<Longrightarrow> le_decode (le_encode n w) = (w :: 'a::len word)"
  by (simp add: le_decode_encode take_bit_word_eq_self)

lemma be_decode_encode [simp]:
  "LENGTH('a) \<le> 8 * n \<Longrightarrow> be_decode (be_encode n w) = (w :: 'a::len word)"
  by (simp add: be_encode_def be_decode_def)

lemma be_encode_decode [simp]:
  assumes "length bs = n" and "8 * n \<le> LENGTH('a)"
  shows "be_encode n (be_decode bs :: 'a::len word) = bs"
  using le_encode_decode [of "rev bs", where 'a = 'a] assms
  by (simp add: be_encode_def be_decode_def)

section \<open>Cursor reads\<close>

text \<open>
  The \<^verbatim>\<open>Buf\<close> reads of the sources: an integer of \<open>n\<close> bytes (\<^verbatim>\<open>get_u32\<close>, \<^verbatim>\<open>get_u64\<close>, \<^verbatim>\<open>get_i64\<close>,
  \<^verbatim>\<open>get_u32_le\<close>) or \<open>n\<close> raw bytes (\<^verbatim>\<open>copy_to_slice\<close>, \<^verbatim>\<open>copy_to_bytes\<close>, \<^verbatim>\<open>split_to\<close>). Each panics
  when fewer bytes remain.
\<close>

definition take_bytes :: "nat \<Rightarrow> bytes \<Rightarrow> (bytes \<times> bytes, 'e) result" where
  "take_bytes n bs = (if length bs < n then Panic else Ok (take n bs, drop n bs))"

definition get_be :: "nat \<Rightarrow> bytes \<Rightarrow> ('a::len word \<times> bytes, 'e) result" where
  "get_be n bs = (if length bs < n then Panic else Ok (be_decode (take n bs), drop n bs))"

definition get_le :: "nat \<Rightarrow> bytes \<Rightarrow> ('a::len word \<times> bytes, 'e) result" where
  "get_le n bs = (if length bs < n then Panic else Ok (le_decode (take n bs), drop n bs))"

named_theorems cursor \<open>cursor reads on a buffer that is long enough\<close>

lemma take_bytes_append [cursor]: "length xs = n \<Longrightarrow> take_bytes n (xs @ ys) = Ok (xs, ys)"
  by (simp add: take_bytes_def)

lemma take_bytes_append2 [cursor]:
  "length xs + length ys = n \<Longrightarrow> take_bytes n (xs @ ys @ zs) = Ok (xs @ ys, zs)"
  using take_bytes_append [of "xs @ ys" n zs] by simp

lemma get_be_append [cursor]:
  "LENGTH('a) \<le> 8 * n \<Longrightarrow> get_be n (be_encode n w @ ys) = Ok (w :: 'a::len word, ys)"
  by (simp add: get_be_def)

lemma get_le_append [cursor]:
  "LENGTH('a) \<le> 8 * n \<Longrightarrow> get_le n (le_encode n w @ ys) = Ok (w :: 'a::len word, ys)"
  by (simp add: get_le_def)

lemma cursor_long_enough:
  "n \<le> length bs \<Longrightarrow> take_bytes n bs = Ok (take n bs, drop n bs)"
  "n \<le> length bs \<Longrightarrow> get_be n bs = Ok (be_decode (take n bs) :: 'a::len word, drop n bs)"
  "n \<le> length bs \<Longrightarrow> get_le n bs = Ok (le_decode (take n bs) :: 'b::len word, drop n bs)"
  by (simp_all add: take_bytes_def get_be_def get_le_def)

section \<open>Signed 64-bit counters\<close>

lemma sint_succ:
  assumes "sint (w :: i64) < 2 ^ 63 - 1"
  shows "sint (w + 1) = sint w + 1"
proof -
  have "- (2 ^ 63) \<le> sint w"
    using sint_greater_eq [of w] by simp
  with assms show ?thesis
    by (subst sint_word_ariths) (simp add: signed_take_bit_int_eq_self)
qed

section \<open>Shared list lemmas\<close>

lemma take_drop_glue: "take n xs @ take m (drop n xs) = take (n + m) xs"
  by (simp add: take_add)

lemma length_AList_delete_present:
  assumes "k \<in> fst ` set al"
  shows "length (AList.delete k al) < length al"
proof -
  from assms obtain v where "(k, v) \<in> set al" by force
  then show ?thesis
    unfolding AList.delete_eq by (induction al) (auto simp: less_Suc_eq_le)
qed

lemma length_AList_delete_le: "length (AList.delete k al) \<le> length al"
  by (simp add: AList.delete_eq)

section \<open>Machines\<close>

text \<open>
  The contract between a component whose operations are steps on a state and a property that every
  step keeps: every run keeps it. A component of the state that no step changes is the special case
  of the property that it has a given value.
\<close>

locale machine =
  fixes step :: "'op \<Rightarrow> 's \<Rightarrow> 's" and inv :: "'s \<Rightarrow> bool"
  assumes step_inv: "inv s \<Longrightarrow> inv (step op s)"
begin

lemma run_inv: "inv s \<Longrightarrow> inv (fold step ops s)"
  by (induction ops arbitrary: s) (simp_all add: step_inv)

end

locale constant_part =
  fixes step :: "'op \<Rightarrow> 's \<Rightarrow> 's" and part :: "'s \<Rightarrow> 'p"
  assumes step_keeps: "part (step op s) = part s"
begin

sublocale kept: machine step "\<lambda>s. part s = v" for v
  by unfold_locales (simp add: step_keeps)

lemma run_keeps: "part (fold step ops s) = part s"
  using kept.run_inv [where v = "part s"] by simp

end

end
