(* ===== verification/Mpsc.thy ===== *)
theory Mpsc
  imports Prelude
begin

text \<open>
  Bounded queues. The crate passes all data between its tasks through bounded channels of the
  \<^verbatim>\<open>tokio\<close> runtime. What it relies on is their documented contract, stated as the locale
  \<open>bounded_fifo\<close>: a send is accepted at the back or leaves the queue alone and says why, a
  receive takes from the front. The record \<open>channel\<close> is the state that contract talks about:
  the queued items, the depth, and whether either side has gone.
\<close>

datatype send_outcome = Sent | QueueFull | ReceiverGone
datatype 'a recv_outcome = Got 'a | Ended | Waiting

record 'a channel =
  queued :: "'a list"
  depth :: nat
  rx_gone :: bool
  tx_gone :: bool

definition new_channel :: "nat \<Rightarrow> 'a channel" where
  "new_channel n = \<lparr>queued = [], depth = n, rx_gone = False, tx_gone = False\<rparr>"

definition try_send :: "'a \<Rightarrow> 'a channel \<Rightarrow> send_outcome \<times> 'a channel" where
  "try_send x c =
    (if rx_gone c then (ReceiverGone, c)
     else if depth c \<le> length (queued c) then (QueueFull, c)
     else (Sent, c\<lparr>queued := queued c @ [x]\<rparr>))"

definition recv :: "'a channel \<Rightarrow> 'a recv_outcome \<times> 'a channel" where
  "recv c =
    (case queued c of
       x # xs \<Rightarrow> (Got x, c\<lparr>queued := xs\<rparr>)
     | [] \<Rightarrow> (if tx_gone c then Ended else Waiting, c))"

definition drop_tx :: "'a channel \<Rightarrow> 'a channel" where
  "drop_tx c = c\<lparr>tx_gone := True\<rparr>"

definition drop_rx :: "'a channel \<Rightarrow> 'a channel" where
  "drop_rx c = c\<lparr>rx_gone := True\<rparr>"

section \<open>The contract\<close>

datatype 'a chan_op = Put 'a | Get

text \<open>Run sends and receives in any order; collect what was accepted and what was received.\<close>

fun chan_run ::
    "('a \<Rightarrow> 'c \<Rightarrow> send_outcome \<times> 'c) \<Rightarrow> ('c \<Rightarrow> 'a recv_outcome \<times> 'c) \<Rightarrow> 'a chan_op list \<Rightarrow> 'c
      \<Rightarrow> 'a list \<times> 'a list \<times> 'c" where
  "chan_run snd_op rcv_op [] c = ([], [], c)"
| "chan_run snd_op rcv_op (Put x # ops) c =
    (let (r, c1) = snd_op x c; (acc, rec, c2) = chan_run snd_op rcv_op ops c1
     in (if r = Sent then x # acc else acc, rec, c2))"
| "chan_run snd_op rcv_op (Get # ops) c =
    (let (r, c1) = rcv_op c; (acc, rec, c2) = chan_run snd_op rcv_op ops c1
     in (acc, (case r of Got x \<Rightarrow> x # rec | _ \<Rightarrow> rec), c2))"

locale bounded_fifo =
  fixes snd_op :: "'a \<Rightarrow> 'c \<Rightarrow> send_outcome \<times> 'c"
    and rcv_op :: "'c \<Rightarrow> 'a recv_outcome \<times> 'c"
    and contents :: "'c \<Rightarrow> 'a list"
    and bound :: "'c \<Rightarrow> nat"
  assumes send_accepted: "fst (snd_op x c) = Sent \<Longrightarrow>
        contents (snd (snd_op x c)) = contents c @ [x] \<and> length (contents c) < bound c"
    and send_refused: "fst (snd_op x c) \<noteq> Sent \<Longrightarrow> snd (snd_op x c) = c"
    and recv_got: "fst (rcv_op c) = Got x \<Longrightarrow> contents c = x # contents (snd (rcv_op c))"
    and recv_none: "fst (rcv_op c) = Ended \<or> fst (rcv_op c) = Waiting \<Longrightarrow>
        contents c = [] \<and> snd (rcv_op c) = c"
    and bound_send: "bound (snd (snd_op x c)) = bound c"
    and bound_recv: "bound (snd (rcv_op c)) = bound c"
begin

text \<open>Nothing is lost, duplicated or reordered between the two ends.\<close>

lemma received_then_queued:
  "chan_run snd_op rcv_op ops c = (acc, rec, c') \<Longrightarrow> rec @ contents c' = contents c @ acc"
proof (induction ops arbitrary: c acc rec c')
  case (Cons op ops)
  show ?case
  proof (cases op)
    case (Put x)
    obtain r c1 where r: "snd_op x c = (r, c1)" by (cases "snd_op x c")
    obtain acc1 rec1 c2 where run: "chan_run snd_op rcv_op ops c1 = (acc1, rec1, c2)"
      by (cases "chan_run snd_op rcv_op ops c1")
    have IH: "rec1 @ contents c2 = contents c1 @ acc1" by (rule Cons.IH [OF run])
    from Cons.prems Put r run show ?thesis
      using IH send_accepted [of x c] send_refused [of x c]
      by (cases "r = Sent") auto
  next
    case Get
    obtain r c1 where r: "rcv_op c = (r, c1)" by (cases "rcv_op c")
    obtain acc1 rec1 c2 where run: "chan_run snd_op rcv_op ops c1 = (acc1, rec1, c2)"
      by (cases "chan_run snd_op rcv_op ops c1")
    have IH: "rec1 @ contents c2 = contents c1 @ acc1" by (rule Cons.IH [OF run])
    from Cons.prems Get r run show ?thesis
      using IH recv_got [of c] recv_none [of c]
      by (cases r) auto
  qed
qed simp

lemma never_over_bound:
  assumes "length (contents c) \<le> bound c"
  shows "length (contents (snd (snd_op x c))) \<le> bound (snd (snd_op x c))"
    and "length (contents (snd (rcv_op c))) \<le> bound (snd (rcv_op c))"
proof -
  show "length (contents (snd (snd_op x c))) \<le> bound (snd (snd_op x c))"
    using assms send_accepted [of x c] send_refused [of x c]
    by (cases "fst (snd_op x c) = Sent") (auto simp: bound_send)
  show "length (contents (snd (rcv_op c))) \<le> bound (snd (rcv_op c))"
    using assms recv_got [of c] recv_none [of c]
    by (cases "fst (rcv_op c)") (auto simp: bound_recv)
qed

end

interpretation ch: bounded_fifo try_send recv queued depth
  by unfold_locales
    (auto simp: try_send_def recv_def split: if_splits list.splits)

lemma try_send_simps [simp]:
  "depth (snd (try_send x c)) = depth c"
  "rx_gone (snd (try_send x c)) = rx_gone c"
  "tx_gone (snd (try_send x c)) = tx_gone c"
  by (auto simp: try_send_def)

lemma recv_simps [simp]:
  "depth (snd (recv c)) = depth c"
  "rx_gone (snd (recv c)) = rx_gone c"
  "tx_gone (snd (recv c)) = tx_gone c"
  by (auto simp: recv_def split: list.splits)

lemma drop_simps [simp]:
  "queued (drop_tx c) = queued c" "depth (drop_tx c) = depth c"
  "rx_gone (drop_tx c) = rx_gone c" "tx_gone (drop_tx c)"
  "queued (drop_rx c) = queued c" "depth (drop_rx c) = depth c"
  "rx_gone (drop_rx c)" "tx_gone (drop_rx c) = tx_gone c"
  by (simp_all add: drop_tx_def drop_rx_def)

lemma new_channel_simps [simp]:
  "queued (new_channel n) = []" "depth (new_channel n) = n"
  "\<not> rx_gone (new_channel n)" "\<not> tx_gone (new_channel n)"
  by (simp_all add: new_channel_def)

end
