(* ===== verification/Channels.thy ===== *)
theory Channels
  imports Mpsc
begin

text \<open>
  \<^verbatim>\<open>src/channels.rs\<close>: the fan-out of agent output to the session's consumers. A subscription is
  shared between the fan-out, which holds the sending end, and the consumer's \<^verbatim>\<open>OutputStream\<close>,
  which holds the receiving end and the lag flag; the shared objects live in a store and are
  known by their index.
\<close>

definition DEFAULT_SUBSCRIBER_CAPACITY :: nat where "DEFAULT_SUBSCRIBER_CAPACITY = 8192"

record subscription =
  sub_chan :: "bytes channel"
  sub_lagged :: bool

record output_fanout =
  store :: "subscription list"
  subscribers :: "nat list"
  fan_closed :: bool

definition fanout_new :: output_fanout where
  "fanout_new = \<lparr>store = [], subscribers = [], fan_closed = False\<rparr>"

text \<open>An already-ended stream: its sending end is gone.\<close>

definition ended_stream :: subscription where
  "ended_stream = \<lparr>sub_chan = drop_tx (new_channel 1), sub_lagged = False\<rparr>"

definition subscribe :: "nat \<Rightarrow> output_fanout \<Rightarrow> nat \<times> output_fanout" where
  "subscribe capacity f =
    (let i = length (store f) in
     if fan_closed f then (i, f\<lparr>store := store f @ [ended_stream]\<rparr>)
     else (i, f\<lparr>store := store f @ [\<lparr>sub_chan = new_channel (max capacity 1), sub_lagged = False\<rparr>],
                subscribers := subscribers f @ [i]\<rparr>))"

text \<open>One step of the \<^verbatim>\<open>retain\<close> closure: whether to keep the subscriber, and its new state.
  Leaving the list drops the sending end.\<close>

definition deliver_to :: "bytes \<Rightarrow> subscription \<Rightarrow> bool \<times> subscription" where
  "deliver_to data sub =
    (case try_send data (sub_chan sub) of
       (Sent, c) \<Rightarrow> (True, sub\<lparr>sub_chan := c\<rparr>)
     | (QueueFull, c) \<Rightarrow> (False, sub\<lparr>sub_chan := drop_tx c, sub_lagged := True\<rparr>)
     | (ReceiverGone, c) \<Rightarrow> (False, sub\<lparr>sub_chan := drop_tx c\<rparr>))"

fun retain_subscribers ::
    "bytes \<Rightarrow> nat list \<Rightarrow> subscription list \<Rightarrow> nat list \<times> subscription list" where
  "retain_subscribers data [] st = ([], st)"
| "retain_subscribers data (i # is) st =
    (let (keep, sub) = deliver_to data (st ! i);
         (kept, st') = retain_subscribers data is (st[i := sub])
     in (if keep then i # kept else kept, st'))"

definition fanout_send :: "bytes \<Rightarrow> output_fanout \<Rightarrow> output_fanout" where
  "fanout_send data f =
    (let (kept, st) = retain_subscribers data (subscribers f) (store f)
     in f\<lparr>subscribers := kept, store := st\<rparr>)"

definition fanout_close :: "output_fanout \<Rightarrow> output_fanout" where
  "fanout_close f =
    (if fan_closed f then f
     else f\<lparr>fan_closed := True, subscribers := [],
        store := fold (\<lambda>i st. st[i := (st ! i)\<lparr>sub_chan := drop_tx (sub_chan (st ! i))\<rparr>])
          (subscribers f) (store f)\<rparr>)"

text \<open>The consumer's side: receive the next chunk, ask for the lag flag, drop the stream.\<close>

definition stream_recv :: "nat \<Rightarrow> output_fanout \<Rightarrow> bytes recv_outcome \<times> output_fanout" where
  "stream_recv i f =
    (let (r, c) = recv (sub_chan (store f ! i))
     in (r, f\<lparr>store := (store f)[i := (store f ! i)\<lparr>sub_chan := c\<rparr>]\<rparr>))"

definition stream_lagged :: "nat \<Rightarrow> output_fanout \<Rightarrow> bool" where
  "stream_lagged i f = sub_lagged (store f ! i)"

definition stream_drop :: "nat \<Rightarrow> output_fanout \<Rightarrow> output_fanout" where
  "stream_drop i f =
    f\<lparr>store := (store f)[i := (store f ! i)\<lparr>sub_chan := drop_rx (sub_chan (store f ! i))\<rparr>]\<rparr>"

section \<open>Runs of the fan-out\<close>

text \<open>
  The calls made on a fan-out and its streams, from any task, in the order the lock serialises
  them. A run watched from stream \<open>i\<close> collects the chunks handed to \<^term>\<open>fanout_send\<close> while the
  fan-out was open and the chunks that stream \<open>i\<close> received.
\<close>

datatype fan_op = Subscribe nat | Send bytes | Close | Recv nat | DropStream nat

fun fan_step :: "nat \<Rightarrow> fan_op \<Rightarrow> output_fanout \<Rightarrow> bytes list \<times> bytes list \<times> output_fanout" where
  "fan_step i (Subscribe c) f = ([], [], snd (subscribe c f))"
| "fan_step i (Send d) f = (if fan_closed f then [] else [d], [], fanout_send d f)"
| "fan_step i Close f = ([], [], fanout_close f)"
| "fan_step i (Recv j) f =
    (let (r, f') = stream_recv j f
     in ([], (case r of Got d \<Rightarrow> if j = i then [d] else [] | _ \<Rightarrow> []), f'))"
| "fan_step i (DropStream j) f = ([], [], stream_drop j f)"

fun fan_run :: "nat \<Rightarrow> fan_op list \<Rightarrow> output_fanout \<Rightarrow> bytes list \<times> bytes list \<times> output_fanout" where
  "fan_run i [] f = ([], [], f)"
| "fan_run i (op # ops) f =
    (let (s, g, f1) = fan_step i op f; (ss, gs, f2) = fan_run i ops f1
     in (s @ ss, g @ gs, f2))"

abbreviation fan_state :: "fan_op list \<Rightarrow> output_fanout" where
  "fan_state ops \<equiv> snd (snd (fan_run 0 ops fanout_new))"

definition fan_inv :: "output_fanout \<Rightarrow> bool" where
  "fan_inv f \<longleftrightarrow> distinct (subscribers f) \<and> (\<forall>i \<in> set (subscribers f). i < length (store f))
     \<and> (\<forall>i < length (store f). tx_gone (sub_chan (store f ! i)) \<longleftrightarrow> i \<notin> set (subscribers f))
     \<and> (\<forall>i < length (store f). length (queued (sub_chan (store f ! i))) \<le> depth (sub_chan (store f ! i)))
     \<and> (fan_closed f \<longrightarrow> subscribers f = [])"

lemma nth_update_at: "k < length xs \<Longrightarrow> xs[j := x] ! k = (if j = k then x else xs ! k)"
  by (cases "j = k") simp_all

lemma length_retain [simp]: "length (snd (retain_subscribers d is st)) = length st"
  by (induction "is" arbitrary: st) (auto simp: split_beta)

text \<open>The loop over the subscribers treats each one alone.\<close>

lemma retain_pointwise:
  assumes "distinct is" and "\<forall>i \<in> set is. i < length st"
  shows "retain_subscribers d is st =
    (filter (\<lambda>i. fst (deliver_to d (st ! i))) is,
     map (\<lambda>i. if i \<in> set is then snd (deliver_to d (st ! i)) else st ! i) [0..<length st])"
  using assms
proof (induction "is" arbitrary: st)
  case Nil
  then show ?case by (simp add: map_nth)
next
  case (Cons a "is")
  let ?st = "st[a := snd (deliver_to d (st ! a))]"
  have "retain_subscribers d is ?st =
    (filter (\<lambda>i. fst (deliver_to d (?st ! i))) is,
     map (\<lambda>i. if i \<in> set is then snd (deliver_to d (?st ! i)) else ?st ! i) [0..<length ?st])"
    using Cons.prems by (intro Cons.IH) auto
  moreover have "filter (\<lambda>i. fst (deliver_to d (?st ! i))) is = filter (\<lambda>i. fst (deliver_to d (st ! i))) is"
    using Cons.prems by (intro filter_cong) (auto simp: nth_update_at)
  ultimately show ?case
    using Cons.prems by (auto simp: split_beta nth_update_at)
qed

lemma fold_close_pointwise:
  "j < length st \<Longrightarrow> distinct is \<Longrightarrow>
   fold (\<lambda>i st. st[i := (st ! i)\<lparr>sub_chan := drop_tx (sub_chan (st ! i))\<rparr>]) is st ! j =
    (if j \<in> set is then (st ! j)\<lparr>sub_chan := drop_tx (sub_chan (st ! j))\<rparr> else st ! j)"
  by (induction "is" arbitrary: st) (auto simp: nth_update_at)

lemma length_fold_close [simp]:
  "length (fold (\<lambda>i st. st[i := (st ! i)\<lparr>sub_chan := drop_tx (sub_chan (st ! i))\<rparr>]) is st) = length st"
  by (induction "is" arbitrary: st) auto

lemma fan_inv_new: "fan_inv fanout_new"
  by (simp add: fan_inv_def fanout_new_def)

lemma fan_inv_subscribe: "fan_inv f \<Longrightarrow> fan_inv (snd (subscribe c f))"
  by (auto simp: fan_inv_def subscribe_def Let_def nth_append ended_stream_def less_Suc_eq)

lemma fanout_send_eq:
  assumes "fan_inv f"
  shows "fanout_send d f = f\<lparr>
    subscribers := filter (\<lambda>i. fst (deliver_to d (store f ! i))) (subscribers f),
    store := map (\<lambda>i. if i \<in> set (subscribers f) then snd (deliver_to d (store f ! i))
                      else store f ! i) [0..<length (store f)]\<rparr>"
  using assms by (simp add: fanout_send_def fan_inv_def retain_pointwise)

lemma deliver_to_keep: "fst (deliver_to d s) \<longleftrightarrow> fst (try_send d (sub_chan s)) = Sent"
  by (auto simp: deliver_to_def split: prod.splits send_outcome.splits)

lemma deliver_to_chan:
  "queued (sub_chan (snd (deliver_to d s))) = queued (snd (try_send d (sub_chan s)))"
  "depth (sub_chan (snd (deliver_to d s))) = depth (sub_chan s)"
  "rx_gone (sub_chan (snd (deliver_to d s))) = rx_gone (sub_chan s)"
  "tx_gone (sub_chan (snd (deliver_to d s))) \<longleftrightarrow> tx_gone (sub_chan s) \<or> \<not> fst (deliver_to d s)"
  "sub_lagged (snd (deliver_to d s)) \<longleftrightarrow> sub_lagged s \<or> fst (try_send d (sub_chan s)) = QueueFull"
  by (auto simp: deliver_to_def try_send_def)

lemma fan_inv_send: "fan_inv f \<Longrightarrow> fan_inv (fanout_send d f)"
proof -
  assume inv: "fan_inv f"
  have "length (queued (snd (try_send d c))) \<le> depth c" if "length (queued c) \<le> depth c" for c :: "bytes channel"
    using ch.never_over_bound(1) [OF that] by simp
  with inv show ?thesis
    by (auto simp: fanout_send_eq [OF inv]) (auto simp: fan_inv_def deliver_to_chan)
qed

lemma fan_inv_close: "fan_inv f \<Longrightarrow> fan_inv (fanout_close f)"
  by (auto simp: fan_inv_def fanout_close_def fold_close_pointwise)

lemma fan_inv_recv: "fan_inv f \<Longrightarrow> fan_inv (snd (stream_recv j f))"
  using ch.never_over_bound(2) [of "sub_chan (store f ! j)"]
  by (auto simp: fan_inv_def stream_recv_def split_beta nth_update_at)

lemma fan_inv_drop: "fan_inv f \<Longrightarrow> fan_inv (stream_drop j f)"
  by (auto simp: fan_inv_def stream_drop_def nth_update_at)

lemma fan_inv_step: "fan_inv f \<Longrightarrow> fan_inv (snd (snd (fan_step i op f)))"
  by (cases op)
    (auto simp: split_beta fan_inv_subscribe fan_inv_send fan_inv_close fan_inv_recv fan_inv_drop)

lemma fan_inv_run: "fan_inv f \<Longrightarrow> fan_inv (snd (snd (fan_run i ops f)))"
  by (induction ops arbitrary: f) (auto simp: split_beta fan_inv_step)

section \<open>What one stream sees\<close>

text \<open>
  \<open>seen_by\<close> relates the chunks sent so far while the fan-out was open, the chunks stream \<open>i\<close> has
  received, and the stream's state: an attached stream has missed nothing, a closed one neither,
  an evicted one is missing a non-empty tail.
\<close>

definition stream_ok ::
    "bool \<Rightarrow> bool \<Rightarrow> subscription \<Rightarrow> bytes list \<Rightarrow> bytes list \<Rightarrow> bool" where
  "stream_ok attached closed s sent got =
    (let seen = got @ queued (sub_chan s) in
     if attached then \<not> sub_lagged s \<and> seen = sent
     else if sub_lagged s then strict_prefix seen sent
     else if rx_gone (sub_chan s) then prefix seen sent
     else closed \<and> seen = sent)"

definition seen_by :: "nat \<Rightarrow> bytes list \<Rightarrow> bytes list \<Rightarrow> output_fanout \<Rightarrow> bool" where
  "seen_by i sent got f \<longleftrightarrow> i < length (store f)
     \<and> stream_ok (i \<in> set (subscribers f)) (fan_closed f) (store f ! i) sent got"

lemma strict_prefix_snoc: "strict_prefix xs (xs @ [x])"
  by (simp add: strict_prefix_def)

lemma stream_ok_deliver:
  assumes "stream_ok True c s sent got"
  shows "stream_ok (fst (deliver_to d s)) c (snd (deliver_to d s)) (sent @ [d]) got"
  using assms strict_prefix_snoc [of "got @ queued (sub_chan s)" d]
  by (auto simp: stream_ok_def Let_def deliver_to_def try_send_def)

lemma stream_ok_missed: "stream_ok False False s sent got \<Longrightarrow> stream_ok False False s (sent @ [d]) got"
  by (auto simp: stream_ok_def Let_def strict_prefix_def prefix_def split: if_splits)

lemma stream_ok_close:
  "stream_ok a c s sent got \<Longrightarrow> s' = s \<or> s' = s\<lparr>sub_chan := drop_tx (sub_chan s)\<rparr> \<Longrightarrow>
   stream_ok False True s' sent got"
  by (auto simp: stream_ok_def Let_def split: if_splits)

lemma stream_ok_recv:
  assumes "stream_ok a c s sent got" and "recv (sub_chan s) = (r, ch)"
  shows "stream_ok a c (s\<lparr>sub_chan := ch\<rparr>) sent (got @ (case r of Got d \<Rightarrow> [d] | _ \<Rightarrow> []))"
  using assms by (cases "queued (sub_chan s)") (auto simp: stream_ok_def recv_def Let_def)

lemma stream_ok_drop:
  "stream_ok a c s sent got \<Longrightarrow> stream_ok a c (s\<lparr>sub_chan := drop_rx (sub_chan s)\<rparr>) sent got"
  by (auto simp: stream_ok_def Let_def split: if_splits)

lemma seen_by_subscribed:
  "fan_inv f \<Longrightarrow> \<not> fan_closed f \<Longrightarrow>
   seen_by (fst (subscribe c f)) [] [] (snd (subscribe c f))"
  by (simp add: seen_by_def stream_ok_def subscribe_def Let_def)

lemma seen_by_send:
  assumes inv: "fan_inv f" and seen: "seen_by i sent got f"
  shows "seen_by i (if fan_closed f then sent else sent @ [d]) got (fanout_send d f)"
proof (cases "i \<in> set (subscribers f)")
  case True
  then have "\<not> fan_closed f" using inv by (auto simp: fan_inv_def)
  with True seen stream_ok_deliver [of "fan_closed f" "store f ! i" sent got d] show ?thesis
    unfolding fanout_send_eq [OF inv] by (simp add: seen_by_def)
next
  case False
  with seen stream_ok_missed [of "store f ! i" sent got d] show ?thesis
    unfolding fanout_send_eq [OF inv] by (auto simp: seen_by_def)
qed

lemma seen_by_close:
  assumes "fan_inv f" and "seen_by i sent got f"
  shows "seen_by i sent got (fanout_close f)"
proof (cases "fan_closed f")
  case False
  with assms stream_ok_close [of "i \<in> set (subscribers f)" "fan_closed f" "store f ! i" sent got]
  show ?thesis
    by (simp add: seen_by_def fanout_close_def fold_close_pointwise fan_inv_def)
qed (use assms in \<open>simp add: fanout_close_def\<close>)

lemma seen_by_recv:
  assumes "seen_by i sent got f"
  shows "seen_by i sent (got @ (case fst (stream_recv j f) of
      Got d \<Rightarrow> if j = i then [d] else [] | _ \<Rightarrow> [])) (snd (stream_recv j f))"
proof (cases "j = i")
  case True
  with assms show ?thesis
    using stream_ok_recv [of _ _ "store f ! i" sent got]
    by (cases "recv (sub_chan (store f ! i))")
      (fastforce simp: seen_by_def stream_recv_def split: recv_outcome.split)
next
  case False
  with assms show ?thesis
    by (auto simp: seen_by_def stream_recv_def split_beta split: recv_outcome.split)
qed

lemma seen_by_other:
  assumes "seen_by i sent got f"
  shows "seen_by i sent got (snd (subscribe c f))" and "seen_by i sent got (stream_drop j f)"
proof -
  show "seen_by i sent got (snd (subscribe c f))"
    using assms by (auto simp: seen_by_def subscribe_def Let_def nth_append)
  show "seen_by i sent got (stream_drop j f)"
    using assms stream_ok_drop [of _ _ "store f ! i" sent got]
    by (auto simp: seen_by_def stream_drop_def nth_update_at)
qed

lemma seen_by_step:
  assumes "fan_inv f" and "seen_by i sent got f" and "fan_step i op f = (s, g, f')"
  shows "seen_by i (sent @ s) (got @ g) f'"
  using assms seen_by_send [OF assms(1,2)] seen_by_close [OF assms(1,2)] seen_by_recv [OF assms(2)]
    seen_by_other [OF assms(2)]
  by (cases op) (auto simp: split_beta split: if_splits)

lemma seen_by_run:
  assumes "fan_inv f" and "seen_by i sent got f" and "fan_run i ops f = (ss, gs, f')"
  shows "seen_by i (sent @ ss) (got @ gs) f'"
  using assms
proof (induction ops arbitrary: f sent got ss gs f')
  case (Cons op ops)
  obtain s g f1 where step: "fan_step i op f = (s, g, f1)" by (cases "fan_step i op f")
  obtain ss1 gs1 f2 where run: "fan_run i ops f1 = (ss1, gs1, f2)" by (cases "fan_run i ops f1")
  have "fan_inv f1" using fan_inv_step [OF Cons.prems(1), of i op] step by simp
  from Cons.IH [OF this seen_by_step [OF Cons.prems(1,2) step] run]
  have "seen_by i ((sent @ s) @ ss1) ((got @ g) @ gs1) f2" .
  with Cons.prems(3) step run show ?case by simp
qed simp

lemma rx_kept_step:
  assumes "i < length (store f)" and "op \<noteq> DropStream i" and "fan_inv f"
  shows "i < length (store (snd (snd (fan_step j op f))))
     \<and> rx_gone (sub_chan (store (snd (snd (fan_step j op f))) ! i)) = rx_gone (sub_chan (store f ! i))"
  using assms
  by (cases op)
    (auto simp: split_beta subscribe_def Let_def nth_append fanout_send_eq deliver_to_chan
      fanout_close_def fold_close_pointwise stream_recv_def stream_drop_def nth_update_at fan_inv_def
      intro!: recv_simps)

lemma rx_kept_run:
  assumes "i < length (store f)" and "DropStream i \<notin> set ops" and "fan_inv f"
  shows "rx_gone (sub_chan (store (snd (snd (fan_run j ops f))) ! i)) = rx_gone (sub_chan (store f ! i))"
  using assms
proof (induction ops arbitrary: f)
  case (Cons op ops)
  then show ?case
    using rx_kept_step [of i f op j] fan_inv_step [of f j op] by (auto simp: split_beta)
qed simp

section \<open>Properties\<close>

text \<open>
  (C5) A subscriber is lossless or says so. Whatever the other tasks do with the fan-out and its
  other streams, what a stream has received followed by what still waits in its queue is exactly
  what was sent since it subscribed, in order; unless it was evicted, and then its lag flag is
  set and the difference is a non-empty lost tail, never a gap.
\<close>

theorem subscriber_lossless_or_lagged:
  assumes "\<not> fan_closed (fan_state before)"
    and "subscribe cap (fan_state before) = (i, f)"
    and "fan_run i ops f = (sent, got, f')"
    and "DropStream i \<notin> set ops"
  shows "let seen = got @ queued (sub_chan (store f' ! i)) in
    if stream_lagged i f' then strict_prefix seen sent else seen = sent"
proof -
  have inv: "fan_inv (fan_state before)" by (intro fan_inv_run fan_inv_new)
  have inv': "fan_inv f" using fan_inv_subscribe [OF inv, of cap] assms(2) by simp
  have start: "seen_by i [] [] f" using seen_by_subscribed [OF inv assms(1), of cap] assms(2) by simp
  have "seen_by i sent got f'" using seen_by_run [OF inv' start assms(3)] by simp
  moreover have "\<not> rx_gone (sub_chan (store f ! i))" and "i < length (store f)"
    using assms(1,2) by (auto simp: subscribe_def Let_def)
  ultimately show ?thesis
    using rx_kept_run [of i f ops i] assms(3,4) inv'
    by (auto simp: seen_by_def stream_ok_def stream_lagged_def Let_def split: if_splits)
qed

theorem subscriber_lossless_or_lagged_witness:
  "let f = snd (subscribe 2 fanout_new);
       (sent, got, f') = fan_run 0 [Send [1], Subscribe 1, Send [2], Recv 0, Send [3], Send [4]] f
   in sent = [[1], [2], [3], [4]] \<and> got = [[1]] \<and> stream_lagged 0 f'
      \<and> strict_prefix (got @ queued (sub_chan (store f' ! 0))) sent"
proof -
  let ?ops = "[Send [1], Subscribe 1, Send [2], Recv 0, Send [3], Send [4]]"
  let ?f = "snd (subscribe 2 fanout_new)"
  obtain sent got f' where run: "fan_run 0 ?ops ?f = (sent, got, f')" by (cases "fan_run 0 ?ops ?f")
  have "sent = [[1], [2], [3], [4]] \<and> got = [[1]] \<and> stream_lagged 0 f'"
    using run
    by (auto simp: subscribe_def fanout_new_def fanout_send_def deliver_to_def try_send_def
        new_channel_def stream_recv_def recv_def drop_tx_def stream_lagged_def numeral_2_eq_2)
  then show ?thesis
    using subscriber_lossless_or_lagged [of "[]" 2 0 ?f ?ops sent got f'] run
    by (simp add: Let_def fanout_new_def subscribe_def)
qed

text \<open>
  In every reachable state no queue holds more than its capacity, and once the fan-out is
  closed no stream waits any more, those subscribed after the close included: a receive
  returns a queued chunk or the end of the stream.
\<close>

theorem closed_streams_end:
  "(\<forall>i < length (store (fan_state ops)).
      length (queued (sub_chan (store (fan_state ops) ! i))) \<le> depth (sub_chan (store (fan_state ops) ! i))
      \<and> (fan_closed (fan_state ops) \<longrightarrow> fst (stream_recv i (fan_state ops)) \<noteq> Waiting))"
proof -
  have "fan_inv (fan_state ops)" by (intro fan_inv_run fan_inv_new)
  then show ?thesis
    by (auto simp: fan_inv_def stream_recv_def recv_def split_beta split: list.splits)
qed

theorem closed_streams_end_witness:
  "fst (stream_recv 1 (fan_state [Subscribe 4, Send [7], Close, Subscribe 4])) = Ended
   \<and> fst (stream_recv 1 (fan_state [Subscribe 4, Send [7], Close, Subscribe 4])) \<noteq> Waiting"
proof -
  let ?f = "fan_state [Subscribe 4, Send [7], Close, Subscribe 4]"
  have "fan_closed ?f \<and> 1 < length (store ?f) \<and> fst (stream_recv 1 ?f) = Ended"
    by (simp add: subscribe_def fanout_new_def fanout_send_def deliver_to_def try_send_def
        new_channel_def stream_recv_def recv_def drop_tx_def fanout_close_def ended_stream_def)
  then show ?thesis
    using closed_streams_end [of "[Subscribe 4, Send [7], Close, Subscribe 4]"] by blast
qed

end
