(* ===== verification/Rust_Strings.thy ===== *)
theory Rust_Strings
  imports Prelude
begin

text \<open>
  The parts of the standard library's string type that the sources use. A Rust \<^verbatim>\<open>String\<close> is
  its UTF-8 encoding, one \<^typ>\<open>char\<close> of HOL per byte, so that equality, prefixes, suffixes and
  splitting at an ASCII separator are the same operations as in the program; counting and
  truncating in characters and trimming of white space look at whole encoded characters.
\<close>

section \<open>UTF-8 validity\<close>

definition as_bytes :: "string \<Rightarrow> bytes" where
  "as_bytes s = map of_char s"

definition of_bytes :: "bytes \<Rightarrow> string" where
  "of_bytes bs = map (\<lambda>b. char_of (unat b)) bs"

lemma length_as_bytes [simp]: "length (as_bytes s) = length s"
  by (simp add: as_bytes_def)

lemma unat_of_char_byte: "unat (of_char c :: byte) = of_char c"
proof -
  have "unat (of_nat (of_char c) :: byte) = of_char c"
    by (simp add: unat_of_nat)
  then show ?thesis by (simp add: of_nat_of_char)
qed

lemma of_char_byte: "of_char (char_of (unat b)) = (b :: byte)"
proof -
  have "unat b < 256" using unsigned_less [of b] by simp
  then have "unat (of_char (char_of (unat b)) :: byte) = unat b" by (simp add: unat_of_char_byte)
  then show ?thesis by (simp only: word_unat_eq_iff)
qed

lemma as_bytes_of_bytes: "as_bytes (of_bytes bs) = bs"
  by (induction bs) (simp_all add: as_bytes_def of_bytes_def of_char_byte)

lemma of_bytes_as_bytes [simp]: "of_bytes (as_bytes s) = s"
  by (induction s) (simp_all add: of_bytes_def as_bytes_def unat_of_char_byte)

lemma char_of_space: "char_of (32 :: nat) = CHR 0x20"
  by code_simp

lemma of_bytes_append: "of_bytes (xs @ ys) = of_bytes xs @ of_bytes ys"
  by (simp add: of_bytes_def)

definition utf8_cont :: "byte \<Rightarrow> bool" where
  "utf8_cont b \<longleftrightarrow> 0x80 \<le> b \<and> b \<le> 0xBF"

text \<open>
  The length of the well-formed character at the front of a byte sequence, by the table of
  well-formed UTF-8 sequences: no overlong forms, no surrogates, nothing above U+10FFFF.
\<close>

fun utf8_char_len :: "bytes \<Rightarrow> nat option" where
  "utf8_char_len [] = None"
| "utf8_char_len (b0 # bs) =
    (if b0 < 0x80 then Some 1
     else if 0xC2 \<le> b0 \<and> b0 \<le> 0xDF then
       (case bs of b1 # _ \<Rightarrow> if utf8_cont b1 then Some 2 else None | _ \<Rightarrow> None)
     else if 0xE0 \<le> b0 \<and> b0 \<le> 0xEF then
       (case bs of b1 # b2 # _ \<Rightarrow>
          if (if b0 = 0xE0 then 0xA0 \<le> b1 \<and> b1 \<le> 0xBF
              else if b0 = 0xED then 0x80 \<le> b1 \<and> b1 \<le> 0x9F
              else utf8_cont b1) \<and> utf8_cont b2
          then Some 3 else None
        | _ \<Rightarrow> None)
     else if 0xF0 \<le> b0 \<and> b0 \<le> 0xF4 then
       (case bs of b1 # b2 # b3 # _ \<Rightarrow>
          if (if b0 = 0xF0 then 0x90 \<le> b1 \<and> b1 \<le> 0xBF
              else if b0 = 0xF4 then 0x80 \<le> b1 \<and> b1 \<le> 0x8F
              else utf8_cont b1) \<and> utf8_cont b2 \<and> utf8_cont b3
          then Some 4 else None
        | _ \<Rightarrow> None)
     else None)"

lemma utf8_char_len_bounds:
  "utf8_char_len bs = Some n \<Longrightarrow> 0 < n \<and> n \<le> length bs"
  by (cases bs) (auto split: if_splits list.splits)

function utf8_valid :: "bytes \<Rightarrow> bool" where
  "utf8_valid bs =
    (bs = [] \<or> (case utf8_char_len bs of None \<Rightarrow> False | Some n \<Rightarrow> utf8_valid (drop n bs)))"
  by pat_completeness auto
termination
  by (relation "measure length") (auto dest: utf8_char_len_bounds)

declare utf8_valid.simps [simp del]

text \<open>\<^verbatim>\<open>std::str::from_utf8\<close>: \<^const>\<open>None\<close> is its error.\<close>

definition from_utf8 :: "bytes \<Rightarrow> string option" where
  "from_utf8 bs = (if utf8_valid bs then Some (of_bytes bs) else None)"

lemma utf8_valid_ascii:
  "\<forall>b \<in> set bs. b < 0x80 \<Longrightarrow> utf8_valid bs"
proof (induction bs)
  case (Cons b bs)
  then show ?case by (simp add: utf8_valid.simps [of "b # bs"])
qed (simp add: utf8_valid.simps)

section \<open>Counting and truncating in characters\<close>

text \<open>A byte of a well-formed string starts a character unless it is a continuation byte.\<close>

definition starts_char :: "char \<Rightarrow> bool" where
  "starts_char c \<longleftrightarrow> \<not> (0x80 \<le> (of_char c :: nat) \<and> (of_char c :: nat) \<le> 0xBF)"

definition char_count :: "string \<Rightarrow> nat" where
  "char_count s = length (filter starts_char s)"

text \<open>\<^verbatim>\<open>&text[..idx]\<close> with \<open>idx\<close> the byte offset of the character number \<open>n\<close>, the whole text
  when there is no such character.\<close>

fun take_chars :: "nat \<Rightarrow> string \<Rightarrow> string" where
  "take_chars n [] = []"
| "take_chars n (c # cs) =
    (if starts_char c then (case n of 0 \<Rightarrow> [] | Suc m \<Rightarrow> c # take_chars m cs)
     else c # take_chars n cs)"

lemma char_count_take_chars: "char_count (take_chars n s) = min n (char_count s)"
  by (induction n s rule: take_chars.induct) (auto simp: char_count_def split: nat.splits)

lemma take_chars_prefix: "prefix (take_chars n s) s"
  by (induction n s rule: take_chars.induct) (auto split: nat.splits)

lemma take_chars_all: "char_count s \<le> n \<Longrightarrow> take_chars n s = s"
  by (induction n s rule: take_chars.induct) (auto simp: char_count_def split: nat.splits)

section \<open>Trimming\<close>

text \<open>\<^verbatim>\<open>char::is_whitespace\<close>: the characters with the White\_Space property, encoded.\<close>

definition whitespace :: "string list" where
  "whitespace =
    [[CHR 0x09], [CHR 0x0A], [CHR 0x0B], [CHR 0x0C], [CHR 0x0D], [CHR 0x20],
     [CHR 0xC2, CHR 0x85], [CHR 0xC2, CHR 0xA0], [CHR 0xE1, CHR 0x9A, CHR 0x80],
     [CHR 0xE2, CHR 0x80, CHR 0x80], [CHR 0xE2, CHR 0x80, CHR 0x81],
     [CHR 0xE2, CHR 0x80, CHR 0x82], [CHR 0xE2, CHR 0x80, CHR 0x83],
     [CHR 0xE2, CHR 0x80, CHR 0x84], [CHR 0xE2, CHR 0x80, CHR 0x85],
     [CHR 0xE2, CHR 0x80, CHR 0x86], [CHR 0xE2, CHR 0x80, CHR 0x87],
     [CHR 0xE2, CHR 0x80, CHR 0x88], [CHR 0xE2, CHR 0x80, CHR 0x89],
     [CHR 0xE2, CHR 0x80, CHR 0x8A], [CHR 0xE2, CHR 0x80, CHR 0xA8],
     [CHR 0xE2, CHR 0x80, CHR 0xA9], [CHR 0xE2, CHR 0x80, CHR 0xAF],
     [CHR 0xE2, CHR 0x81, CHR 0x9F], [CHR 0xE3, CHR 0x80, CHR 0x80]]"

text \<open>Strip the given encoded characters from the front, then from the back.\<close>

function trim_start_matches :: "string list \<Rightarrow> string \<Rightarrow> string" where
  "trim_start_matches pats s =
    (case find (\<lambda>p. p \<noteq> [] \<and> prefix p s) pats of
       None \<Rightarrow> s
     | Some p \<Rightarrow> trim_start_matches pats (drop (length p) s))"
  by pat_completeness auto
termination
  by (relation "measure (length \<circ> snd)") (auto simp: find_Some_iff prefix_def)

declare trim_start_matches.simps [simp del]

definition trim_end_matches :: "string list \<Rightarrow> string \<Rightarrow> string" where
  "trim_end_matches pats s = rev (trim_start_matches (map rev pats) (rev s))"

definition trim_matches :: "string list \<Rightarrow> string \<Rightarrow> string" where
  "trim_matches pats s = trim_end_matches pats (trim_start_matches pats s)"

definition trim :: "string \<Rightarrow> string" where
  "trim s = trim_matches whitespace s"

lemma trim_start_matches_stop:
  assumes "s = [] \<or> (\<forall>p \<in> set pats. p \<noteq> [] \<longrightarrow> hd p \<noteq> hd s)"
  shows "trim_start_matches pats s = s"
proof -
  have "find (\<lambda>p. p \<noteq> [] \<and> prefix p s) pats = None"
    using assms by (auto simp: find_None_iff prefix_def)
  then show ?thesis by (subst trim_start_matches.simps) simp
qed

lemma trim_start_matches_step:
  assumes "[c] \<in> set pats" and "\<forall>p \<in> set pats. p \<noteq> [] \<longrightarrow> hd p = c \<longrightarrow> p = [c]"
  shows "trim_start_matches pats (c # s) = trim_start_matches pats s"
proof -
  have "find (\<lambda>p. p \<noteq> [] \<and> prefix p (c # s)) pats = Some [c]"
  proof (cases "find (\<lambda>p. p \<noteq> [] \<and> prefix p (c # s)) pats")
    case None
    then show ?thesis using assms(1) by (force simp: find_None_iff)
  next
    case (Some p)
    then have "p \<in> set pats" "p \<noteq> []" "prefix p (c # s)"
      by (auto simp: find_Some_iff)
    with assms(2) have "p = [c]" by (metis list.sel(1) prefix_Cons)
    with Some show ?thesis by simp
  qed
  then show ?thesis by (subst trim_start_matches.simps) simp
qed

lemma trim_start_matches_replicate:
  assumes "[c] \<in> set pats" and "\<forall>p \<in> set pats. p \<noteq> [] \<longrightarrow> hd p = c \<longrightarrow> p = [c]"
  shows "trim_start_matches pats (replicate n c @ s) = trim_start_matches pats s"
  by (induction n) (simp_all add: trim_start_matches_step [OF assms])

text \<open>
  Trimming removes right padding with a single-byte pattern and nothing of a text that
  neither begins nor ends with a byte of a pattern.
\<close>

lemma trim_matches_padded:
  assumes "[c] \<in> set pats" and "\<forall>p \<in> set pats. p \<noteq> [] \<longrightarrow> last p = c \<longrightarrow> p = [c]"
    and "s \<noteq> []" and "\<forall>p \<in> set pats. p \<noteq> [] \<longrightarrow> hd p \<noteq> hd s"
    and "\<forall>p \<in> set pats. p \<noteq> [] \<longrightarrow> last p \<noteq> last s"
  shows "trim_matches pats (s @ replicate n c) = s"
proof -
  let ?rpats = "map rev pats"
  have "trim_start_matches pats (s @ replicate n c) = s @ replicate n c"
    using assms(3,4) by (intro trim_start_matches_stop) auto
  moreover have "trim_start_matches ?rpats (replicate n c @ rev s) = trim_start_matches ?rpats (rev s)"
  proof (rule trim_start_matches_replicate)
    show "[c] \<in> set ?rpats" using assms(1) by force
    show "\<forall>p \<in> set ?rpats. p \<noteq> [] \<longrightarrow> hd p = c \<longrightarrow> p = [c]"
      using assms(2) by (force simp: hd_rev)
  qed
  moreover have "trim_start_matches ?rpats (rev s) = rev s"
    using assms(3,5) by (intro trim_start_matches_stop) (auto simp: hd_rev)
  ultimately show ?thesis
    by (simp add: trim_matches_def trim_end_matches_def)
qed

section \<open>Case folding and splitting\<close>

definition ascii_lower :: "char \<Rightarrow> char" where
  "ascii_lower c =
    (if 0x41 \<le> (of_char c :: nat) \<and> (of_char c :: nat) \<le> 0x5A
     then char_of (of_char c + 0x20 :: nat) else c)"

definition eq_ignore_ascii_case :: "string \<Rightarrow> string \<Rightarrow> bool" where
  "eq_ignore_ascii_case s t \<longleftrightarrow> map ascii_lower s = map ascii_lower t"

text \<open>\<^verbatim>\<open>str::split\<close> at one ASCII character: always at least one part.\<close>

fun split_at_char :: "char \<Rightarrow> string \<Rightarrow> string list" where
  "split_at_char d [] = [[]]"
| "split_at_char d (c # cs) =
    (if c = d then [] # split_at_char d cs
     else (case split_at_char d cs of
             p # ps \<Rightarrow> (c # p) # ps
           | [] \<Rightarrow> [[c]]))"

lemma split_at_char_nonempty [simp]: "split_at_char d s \<noteq> []"
  by (induction s) (auto split: list.splits)

section \<open>Lossy decoding\<close>

text \<open>
  \<^verbatim>\<open>String::from_utf8_lossy\<close> replaces each maximal prefix of an ill-formed sequence by one
  U+FFFD; \<open>utf8_bad_len\<close> is the length of that prefix.
\<close>

definition utf8_second_ok :: "byte \<Rightarrow> byte \<Rightarrow> bool" where
  "utf8_second_ok b0 b1 \<longleftrightarrow>
    (if b0 = 0xE0 then 0xA0 \<le> b1 \<and> b1 \<le> 0xBF
     else if b0 = 0xED then 0x80 \<le> b1 \<and> b1 \<le> 0x9F
     else if b0 = 0xF0 then 0x90 \<le> b1 \<and> b1 \<le> 0xBF
     else if b0 = 0xF4 then 0x80 \<le> b1 \<and> b1 \<le> 0x8F
     else utf8_cont b1)"

fun utf8_bad_len :: "bytes \<Rightarrow> nat" where
  "utf8_bad_len (b0 # b1 # bs) =
    (if 0xE0 \<le> b0 \<and> b0 \<le> 0xEF \<and> utf8_second_ok b0 b1 then 2
     else if 0xF0 \<le> b0 \<and> b0 \<le> 0xF4 \<and> utf8_second_ok b0 b1 then
       (case bs of b2 # _ \<Rightarrow> if utf8_cont b2 then 3 else 2 | [] \<Rightarrow> 2)
     else 1)"
| "utf8_bad_len _ = 1"

lemma utf8_bad_len_positive: "0 < utf8_bad_len bs"
  by (induction bs rule: utf8_bad_len.induct) (auto split: list.splits)

function lossy_bytes :: "bytes \<Rightarrow> bytes" where
  "lossy_bytes bs =
    (if bs = [] then []
     else (case utf8_char_len bs of
             Some n \<Rightarrow> take n bs @ lossy_bytes (drop n bs)
           | None \<Rightarrow> [0xEF, 0xBF, 0xBD] @ lossy_bytes (drop (utf8_bad_len bs) bs)))"
  by pat_completeness auto
termination
  by (relation "measure length")
    (auto dest: utf8_char_len_bounds intro: diff_less utf8_bad_len_positive)

declare lossy_bytes.simps [simp del]

definition from_utf8_lossy :: "bytes \<Rightarrow> string" where
  "from_utf8_lossy bs = of_bytes (lossy_bytes bs)"

lemma lossy_bytes_valid: "utf8_valid bs \<Longrightarrow> lossy_bytes bs = bs"
proof (induction bs rule: lossy_bytes.induct)
  case (1 bs)
  then show ?case
    by (cases "bs = []")
      (auto simp: lossy_bytes.simps [of bs] lossy_bytes.simps [of "[]"] utf8_valid.simps [of bs]
        split: option.splits)
qed

section \<open>Parsing integers\<close>

definition is_digit :: "char \<Rightarrow> bool" where
  "is_digit c \<longleftrightarrow> 48 \<le> (of_char c :: nat) \<and> (of_char c :: nat) \<le> 57"

definition digits_value :: "string \<Rightarrow> int" where
  "digits_value ds = foldl (\<lambda>v c. v * 10 + (of_char c - 48)) 0 ds"

text \<open>\<^verbatim>\<open>str::parse::<i32>\<close>: an optional sign, at least one digit, nothing else, in range.\<close>

definition parse_i32 :: "string \<Rightarrow> int option" where
  "parse_i32 s =
    (let (neg, ds) = (case s of
         c # cs \<Rightarrow> if c = CHR ''-'' then (True, cs) else if c = CHR ''+'' then (False, cs) else (False, s)
       | [] \<Rightarrow> (False, [])) in
     if ds = [] \<or> \<not> list_all is_digit ds then None
     else
       let v = (if neg then - digits_value ds else digits_value ds) in
       if - (2 ^ 31) \<le> v \<and> v < 2 ^ 31 then Some v else None)"

end
