(* ===== verification/Errors.thy ===== *)
theory Errors
  imports Rust_Strings
begin

text \<open>
  \<^verbatim>\<open>src/errors.rs\<close>: the crate's flat error enum, its rendering, and the classification that
  decides whether a failed operation may be tried again.
\<close>

section \<open>The error enum\<close>

text \<open>
  The kinds of \<^verbatim>\<open>std::io::Error\<close> that the classification names; every other kind is
  \<open>OtherKind\<close>. A \<^verbatim>\<open>serde_json::Error\<close> is known by its text only.
\<close>

datatype io_error_kind =
    ConnectionReset | ConnectionAborted | ConnectionRefused | BrokenPipe | TimedOut
  | NotConnected | Interrupted | OtherKind

datatype error =
    Aws (aws_message: msg) (aws_code: "string option")
  | Protocol msg
  | Transport msg
  | SessionClosed msg
  | Config msg
  | Unsupported msg
  | Crypto msg
  | Io io_error_kind msg
  | Serialization string
  | Timeout duration

text \<open>The \<^verbatim>\<open>Display\<close> rendering that \<^verbatim>\<open>thiserror\<close> derives from the format attributes.\<close>

fun error_to_string :: "error \<Rightarrow> msg" where
  "error_to_string (Aws m c) =
    [Txt ''AWS API error'']
    @ (case c of Some code \<Rightarrow> [Txt '' ('', Str code, Txt '')''] | None \<Rightarrow> [])
    @ [Txt '': ''] @ m"
| "error_to_string (Protocol m) = Txt ''protocol error: '' # m"
| "error_to_string (Transport m) = Txt ''transport error: '' # m"
| "error_to_string (SessionClosed m) = Txt ''session closed: '' # m"
| "error_to_string (Config m) = Txt ''invalid configuration: '' # m"
| "error_to_string (Unsupported m) = Txt ''unsupported by this client: '' # m"
| "error_to_string (Crypto m) = Txt ''session encryption error: '' # m"
| "error_to_string (Io k m) = Txt ''I/O error: '' # m"
| "error_to_string (Serialization s) = [Txt ''serialization error: '', Str s]"
| "error_to_string (Timeout d) = [Txt ''operation timed out after '', Dur d]"

text \<open>
  What a call of the SDK fails with. As the SDK documents it, only an answer of the service carries a
  code and a message; a request that could not be built or sent, that timed out, or whose answer could not
  be read, carries neither. The \<^verbatim>\<open>Debug\<close> rendering stands in for a missing message.
\<close>

datatype sdk_error =
    ConstructionFailure | TimeoutError | DispatchFailure | ResponseError
  | ServiceError (service_code: "string option") (service_message: "string option")

fun sdk_code :: "sdk_error \<Rightarrow> string option" where
  "sdk_code (ServiceError c m) = c"
| "sdk_code _ = None"

fun sdk_message :: "sdk_error \<Rightarrow> string option" where
  "sdk_message (ServiceError c m) = m"
| "sdk_message _ = None"

definition from_sdk_error :: "sdk_error \<Rightarrow> error" where
  "from_sdk_error e = Aws (case sdk_message e of Some m \<Rightarrow> [Str m] | None \<Rightarrow> [Foreign]) (sdk_code e)"

section \<open>Retry classification\<close>

definition is_transient_aws_code :: "string \<Rightarrow> bool" where
  "is_transient_aws_code code \<longleftrightarrow> code \<in> set
    [''ThrottlingException'', ''Throttling'', ''ThrottledException'',
     ''TooManyRequestsException'', ''RequestThrottled'', ''RequestThrottledException'',
     ''ProvisionedThroughputExceededException'', ''TransactionInProgressException'',
     ''ServiceUnavailable'', ''ServiceUnavailableException'', ''InternalServerError'',
     ''InternalFailure'', ''RequestTimeout'', ''RequestTimeoutException'']"

fun is_retriable :: "error \<Rightarrow> bool" where
  "is_retriable (Timeout _) = True"
| "is_retriable (Transport _) = True"
| "is_retriable (Io k _) = (k \<in> {ConnectionReset, ConnectionAborted, ConnectionRefused,
     BrokenPipe, TimedOut, NotConnected, Interrupted})"
| "is_retriable (Aws _ code) =
     (case code of Some c \<Rightarrow> is_transient_aws_code c | None \<Rightarrow> False)"
| "is_retriable _ = False"

text \<open>Only what the service itself calls transient is worth a retry; a request that got no answer is not.\<close>

lemma from_sdk_error_retriable:
  "is_retriable (from_sdk_error e) \<longleftrightarrow> (\<exists>c m. e = ServiceError (Some c) m \<and> is_transient_aws_code c)"
  by (cases e) (auto simp: from_sdk_error_def split: option.splits)

lemma is_retriable_cases:
  assumes "is_retriable e"
  obtains (timeout) d where "e = Timeout d"
    | (transport) m where "e = Transport m"
    | (io) k m where "e = Io k m" "k \<noteq> OtherKind"
    | (aws) m c where "e = Aws m (Some c)" "is_transient_aws_code c"
  using assms by (cases e) (auto split: option.splits)

end
