(* ===== verification/Binary_Protocol.thy ===== *)
theory Binary_Protocol
  imports Errors
begin

text \<open>
  \<^verbatim>\<open>src/binary_protocol.rs\<close>: the 120-byte header of the MGS data channel, its encoder and its
  decoder with every structural check in source order. The SHA-256 function of the \<^verbatim>\<open>sha2\<close>
  crate is the parameter \<open>sha256\<close>; the clock and the UUID generator are the arguments
  \<open>now_ms\<close> and \<open>uuid\<close> of the constructor.
\<close>

section \<open>Constants\<close>

definition HEADER_LENGTH :: u32 where "HEADER_LENGTH = 116"
definition HEADER_SIZE :: nat where "HEADER_SIZE = 120"
definition MESSAGE_TYPE_LEN :: nat where "MESSAGE_TYPE_LEN = 32"
definition MESSAGE_ID_LEN :: nat where "MESSAGE_ID_LEN = 16"
definition DIGEST_LEN :: nat where "DIGEST_LEN = 32"
definition MAX_PAYLOAD_SIZE :: nat where "MAX_PAYLOAD_SIZE = 10 * 1024 * 1024"
definition DEFAULT_PAYLOAD_CHUNK_SIZE :: nat where "DEFAULT_PAYLOAD_CHUNK_SIZE = 1024"

lemmas wire_constants =
  HEADER_LENGTH_def HEADER_SIZE_def MESSAGE_TYPE_LEN_def MESSAGE_ID_LEN_def DIGEST_LEN_def

section \<open>Message types\<close>

datatype message_type =
    InputStreamData | OutputStreamData | Acknowledge | ChannelClosed | StartPublication
  | PausePublication

fun as_str :: "message_type \<Rightarrow> string" where
  "as_str InputStreamData = ''input_stream_data''"
| "as_str OutputStreamData = ''output_stream_data''"
| "as_str Acknowledge = ''acknowledge''"
| "as_str ChannelClosed = ''channel_closed''"
| "as_str StartPublication = ''start_publication''"
| "as_str PausePublication = ''pause_publication''"

definition parse_name :: "string \<Rightarrow> message_type option" where
  "parse_name s =
    (if s = ''input_stream_data'' then Some InputStreamData
     else if s = ''output_stream_data'' then Some OutputStreamData
     else if s = ''acknowledge'' then Some Acknowledge
     else if s = ''channel_closed'' then Some ChannelClosed
     else if s = ''start_publication'' then Some StartPublication
     else if s = ''pause_publication'' then Some PausePublication
     else None)"

definition padded_message_type :: "message_type \<Rightarrow> bytes" where
  "padded_message_type mt =
    (let s = as_bytes (as_str mt) in s @ replicate (MESSAGE_TYPE_LEN - length s) 0x20)"

definition parse_message_type :: "bytes \<Rightarrow> (message_type, error) result" where
  "parse_message_type bs =
    (case from_utf8 bs of
       None \<Rightarrow> Err (Protocol [Txt ''MessageType is not valid UTF-8: '', Foreign])
     | Some text \<Rightarrow>
         let name = trim_matches ([CHR 0x00] # whitespace) text in
         case parse_name name of
           Some mt \<Rightarrow> Ok mt
         | None \<Rightarrow> Err (Protocol [Txt ''unknown MessageType '', Quoted name]))"

section \<open>Payload types and control flags\<close>

datatype payload_type =
    Undefined | Output | Error | Size | Parameter | HandshakeRequest | HandshakeResponse
  | HandshakeComplete | EncChallengeRequest | EncChallengeResponse | Flag | StdErr | ExitCode

text \<open>The \<^verbatim>\<open>repr(u32)\<close> discriminants.\<close>

fun payload_code :: "payload_type \<Rightarrow> u32" where
  "payload_code Undefined = 0"
| "payload_code Output = 1"
| "payload_code Error = 2"
| "payload_code Size = 3"
| "payload_code Parameter = 4"
| "payload_code HandshakeRequest = 5"
| "payload_code HandshakeResponse = 6"
| "payload_code HandshakeComplete = 7"
| "payload_code EncChallengeRequest = 8"
| "payload_code EncChallengeResponse = 9"
| "payload_code Flag = 10"
| "payload_code StdErr = 11"
| "payload_code ExitCode = 12"

definition from_u32 :: "u32 \<Rightarrow> (payload_type, error) result" where
  "from_u32 value =
    (if value = 0 then Ok Undefined
     else if value = 1 then Ok Output
     else if value = 2 then Ok Error
     else if value = 3 then Ok Size
     else if value = 4 then Ok Parameter
     else if value = 5 then Ok HandshakeRequest
     else if value = 6 then Ok HandshakeResponse
     else if value = 7 then Ok HandshakeComplete
     else if value = 8 then Ok EncChallengeRequest
     else if value = 9 then Ok EncChallengeResponse
     else if value = 10 then Ok Flag
     else if value = 11 then Ok StdErr
     else if value = 12 then Ok ExitCode
     else Err (Protocol [Txt ''unknown PayloadType '', Num (uint value)]))"

fun is_encrypted_inbound :: "payload_type \<Rightarrow> bool" where
  "is_encrypted_inbound Output = True"
| "is_encrypted_inbound StdErr = True"
| "is_encrypted_inbound ExitCode = True"
| "is_encrypted_inbound _ = False"

datatype control_flag = DisconnectToPort | TerminateSession | ConnectToPortError

definition from_payload :: "bytes \<Rightarrow> control_flag option" where
  "from_payload payload =
    (if length payload < 4 then None
     else let raw = (be_decode (take 4 payload) :: u32) in
       if raw = 1 then Some DisconnectToPort
       else if raw = 2 then Some TerminateSession
       else if raw = 3 then Some ConnectToPortError
       else None)"

definition SYN :: u64 where "SYN = push_bit 0 1"
definition FIN :: u64 where "FIN = push_bit 1 1"

section \<open>Messages\<close>

record client_message =
  message_type :: message_type
  schema_version :: u32
  created_date :: u64
  sequence_number :: i64
  flags :: u64
  message_id :: bytes
  payload_digest :: bytes
  payload_type :: payload_type
  payload :: bytes

definition new_message ::
    "(bytes \<Rightarrow> bytes) \<Rightarrow> u64 \<Rightarrow> bytes \<Rightarrow> message_type \<Rightarrow> i64 \<Rightarrow> payload_type \<Rightarrow> bytes \<Rightarrow>
     client_message" where
  "new_message sha256 now_ms uuid mt seq pt pl =
    \<lparr>message_type = mt, schema_version = 1, created_date = now_ms, sequence_number = seq,
     flags = 0, message_id = uuid, payload_digest = sha256 pl, payload_type = pt,
     payload = pl\<rparr>"

definition serialize :: "client_message \<Rightarrow> bytes" where
  "serialize m =
     be_encode 4 HEADER_LENGTH
     @ padded_message_type (message_type m)
     @ be_encode 4 (schema_version m)
     @ be_encode 8 (created_date m)
     @ be_encode 8 (sequence_number m)
     @ be_encode 8 (flags m)
     @ take 8 (drop 8 (message_id m))
     @ take 8 (message_id m)
     @ payload_digest m
     @ be_encode 4 (payload_code (payload_type m))
     @ be_encode 4 (of_nat (length (payload m)) :: u32)
     @ payload m"

definition validate :: "(bytes \<Rightarrow> bytes) \<Rightarrow> client_message \<Rightarrow> (unit, error) result" where
  "validate sha256 m =
    (if message_type m = StartPublication \<or> message_type m = PausePublication then Ok ()
     else if sint (sequence_number m) < 0 then
       Err (Protocol [Txt ''negative sequence number '', Num (sint (sequence_number m))])
     else if payload m \<noteq> [] \<and> sha256 (payload m) \<noteq> payload_digest m then
       Err (Protocol [Txt ''payload digest mismatch on '', Str (as_str (message_type m)),
         Txt '' seq '', Num (sint (sequence_number m))])
     else Ok ())"

definition deserialize :: "(bytes \<Rightarrow> bytes) \<Rightarrow> bytes \<Rightarrow> (client_message, error) result" where
  "deserialize sha256 data =
    (if length data < HEADER_SIZE then
       Err (Protocol [Txt ''message truncated: '', Num (int (length data)),
         Txt '' bytes, need at least '', Num (int HEADER_SIZE)])
     else
     bind_result (get_be 4 data) (\<lambda>(header_length :: u32, data).
     if header_length \<noteq> HEADER_LENGTH then
       Err (Protocol [Txt ''bad HeaderLength '', Num (uint header_length), Txt '', expected '',
         Num (uint HEADER_LENGTH)])
     else
     bind_result (take_bytes MESSAGE_TYPE_LEN data) (\<lambda>(type_bytes, data).
     bind_result (parse_message_type type_bytes) (\<lambda>mt.
     bind_result (get_be 4 data) (\<lambda>(schema :: u32, data).
     bind_result (get_be 8 data) (\<lambda>(created :: u64, data).
     bind_result (get_be 8 data) (\<lambda>(seq :: i64, data).
     bind_result (get_be 8 data) (\<lambda>(fl :: u64, data).
     bind_result (take_bytes MESSAGE_ID_LEN data) (\<lambda>(wire_uuid, data).
     let uuid = take 8 (drop 8 wire_uuid) @ take 8 wire_uuid in
     bind_result (take_bytes DIGEST_LEN data) (\<lambda>(digest, data).
     bind_result (get_be 4 data) (\<lambda>(pt_code :: u32, data).
     bind_result (from_u32 pt_code) (\<lambda>pt.
     bind_result (get_be 4 data) (\<lambda>(len_word :: u32, data).
     let payload_length = unat len_word in
     if MAX_PAYLOAD_SIZE < payload_length then
       Err (Protocol [Txt ''declared payload of '', Num (int payload_length),
         Txt '' bytes exceeds the '', Num (int MAX_PAYLOAD_SIZE), Txt ''-byte limit''])
     else if length data < payload_length then
       Err (Protocol [Txt ''declared payload of '', Num (int payload_length),
         Txt '' bytes but only '', Num (int (length data)), Txt '' remain''])
     else
     bind_result (take_bytes payload_length data) (\<lambda>(pl, _).
     let m = \<lparr>message_type = mt, schema_version = schema, created_date = created,
        sequence_number = seq, flags = fl, message_id = uuid, payload_digest = digest,
        payload_type = pt, payload = pl\<rparr> in
     bind_result (validate sha256 m) (\<lambda>_. Ok m)))))))))))))))"

section \<open>Names and codes round trip\<close>

lemma parse_name_as_str [simp]: "parse_name (as_str mt) = Some mt"
  by (cases mt) (simp_all add: parse_name_def)

lemma parse_name_eq_Some: "parse_name s = Some mt \<longleftrightarrow> s = as_str mt"
  by (cases mt) (auto simp: parse_name_def)

lemma from_u32_payload_code [simp]: "from_u32 (payload_code pt) = Ok pt"
  by (cases pt) (simp_all add: from_u32_def)

lemma from_u32_eq_Ok: "from_u32 v = Ok pt \<longleftrightarrow> v = payload_code pt"
  by (cases pt) (auto simp: from_u32_def)

lemma from_u32_no_panic [simp]: "from_u32 v \<noteq> Panic"
  by (simp add: from_u32_def)

lemma length_padded_message_type [simp]: "length (padded_message_type mt) = 32"
  by (cases mt) (simp_all add: padded_message_type_def wire_constants)

lemma trim_padded_name:
  "trim_matches ([CHR 0x00] # whitespace) (as_str mt @ replicate n CHR 0x20) = as_str mt"
  by (rule trim_matches_padded) (cases mt; simp add: whitespace_def)+

lemma parse_padded_message_type [simp]: "parse_message_type (padded_message_type mt) = Ok mt"
proof -
  have "\<forall>b \<in> set (padded_message_type mt). b < 0x80"
    by (cases mt) (simp_all add: padded_message_type_def as_bytes_def)
  then have "utf8_valid (padded_message_type mt)"
    by (rule utf8_valid_ascii)
  moreover have "of_bytes (padded_message_type mt)
      = as_str mt @ replicate (MESSAGE_TYPE_LEN - length (as_str mt)) CHR 0x20"
    by (simp add: padded_message_type_def Let_def of_bytes_append) (simp add: of_bytes_def char_of_space)
  ultimately show ?thesis
    by (simp add: parse_message_type_def from_utf8_def trim_padded_name)
qed

lemma parse_message_type_no_panic [simp]: "parse_message_type bs \<noteq> Panic"
  by (simp add: parse_message_type_def Let_def split: option.splits)

section \<open>The decoder inverts the encoder\<close>

text \<open>The fixed-size arrays of the struct: a UUID of 16 bytes and a digest of 32.\<close>

definition wf_message :: "client_message \<Rightarrow> bool" where
  "wf_message m \<longleftrightarrow> length (message_id m) = MESSAGE_ID_LEN \<and> length (payload_digest m) = DIGEST_LEN"

lemma uuid_halves_swap:
  assumes "length u = 16"
  shows "take 8 (drop 8 (take 8 (drop 8 u) @ take 8 u)) @ take 8 (take 8 (drop 8 u) @ take 8 u) = u"
  using assms by (simp flip: take_drop)

lemma length_serialize:
  "wf_message m \<Longrightarrow> length (serialize m) = HEADER_SIZE + length (payload m)"
  by (simp add: serialize_def wf_message_def wire_constants)

lemma unat_payload_length:
  "n \<le> MAX_PAYLOAD_SIZE \<Longrightarrow> unat (of_nat n :: u32) = n"
  by (simp add: MAX_PAYLOAD_SIZE_def unat_of_nat)

lemma client_message_eta [simp]:
  "\<lparr>message_type = message_type m, schema_version = schema_version m,
    created_date = created_date m, sequence_number = sequence_number m, flags = flags m,
    message_id = message_id m, payload_digest = payload_digest m,
    payload_type = payload_type m, payload = payload m\<rparr> = m"
  by simp

lemma deserialize_serialize_append:
  assumes wf: "wf_message m" and len: "length (payload m) \<le> MAX_PAYLOAD_SIZE"
  shows "deserialize sha256 (serialize m @ rest) = bind_result (validate sha256 m) (\<lambda>_. Ok m)"
proof -
  have 1: "\<not> length (serialize m @ rest) < HEADER_SIZE"
    using wf by (simp add: length_serialize)
  have id: "length (message_id m) = 16" and dg: "length (payload_digest m) = DIGEST_LEN"
    using wf by (simp_all add: wf_message_def wire_constants)
  have tb: "take_bytes (length (payload m)) (payload m @ rest) = Ok (payload m, rest)"
    by (simp add: cursor)
  have uu: "take_bytes MESSAGE_ID_LEN (take 8 (drop 8 (message_id m)) @ take 8 (message_id m) @ xs)
      = Ok (take 8 (drop 8 (message_id m)) @ take 8 (message_id m), xs)" for xs
    using id by (intro take_bytes_append2) (simp add: wire_constants)
  show ?thesis
    unfolding deserialize_def using 1 id dg len uuid_halves_swap [OF id]
    by (cases m) (simp add: serialize_def cursor wire_constants unat_payload_length tb uu Let_def)
qed

section \<open>What an accepted frame says\<close>

lemma deserialize_parts:
  assumes "deserialize sha256 data = Ok m"
  shows "HEADER_SIZE \<le> length data"
    and "be_decode (take 4 data) = HEADER_LENGTH"
    and "parse_message_type (take 32 (drop 4 data)) = Ok (message_type m)"
    and "schema_version m = be_decode (take 4 (drop 36 data))"
    and "created_date m = be_decode (take 8 (drop 40 data))"
    and "sequence_number m = be_decode (take 8 (drop 48 data))"
    and "flags m = be_decode (take 8 (drop 56 data))"
    and "message_id m = take 8 (drop 72 data) @ take 8 (drop 64 data)"
    and "payload_digest m = take 32 (drop 80 data)"
    and "from_u32 (be_decode (take 4 (drop 112 data))) = Ok (payload_type m)"
    and "length (payload m) = unat (be_decode (take 4 (drop 116 data)) :: u32)"
    and "length (payload m) \<le> MAX_PAYLOAD_SIZE"
    and "HEADER_SIZE + length (payload m) \<le> length data"
    and "payload m = take (length (payload m)) (drop 120 data)"
    and "validate sha256 m = Ok ()"
  using assms
  by (auto simp: deserialize_def cursor_long_enough wire_constants Let_def drop_take
      split: if_splits)

lemma validate_no_panic [simp]: "validate sha256 m \<noteq> Panic"
  by (simp add: validate_def)

lemma deserialize_total: "deserialize sha256 data \<noteq> Panic"
  by (cases "length data < HEADER_SIZE")
    (auto simp: deserialize_def cursor_long_enough wire_constants Let_def bind_result_eq_Panic
      split: if_splits)

lemma header_slices:
  "take (84 + n) (drop 36 data) =
     take 4 (drop 36 data) @ take 8 (drop 40 data) @ take 8 (drop 48 data)
     @ take 8 (drop 56 data) @ take 16 (drop 64 data) @ take 32 (drop 80 data)
     @ take 4 (drop 112 data) @ take 4 (drop 116 data) @ take n (drop 120 data)"
proof -
  have "take (4 + (8 + (8 + (8 + (16 + (32 + (4 + (4 + n)))))))) (drop 36 data) =
     take 4 (drop 36 data) @ take 8 (drop 40 data) @ take 8 (drop 48 data)
     @ take 8 (drop 56 data) @ take 16 (drop 64 data) @ take 32 (drop 80 data)
     @ take 4 (drop 112 data) @ take 4 (drop 116 data) @ take n (drop 120 data)"
    unfolding take_add drop_drop by simp
  then show ?thesis by simp
qed

lemma reencode_accepted:
  assumes d: "deserialize sha256 data = Ok m"
  shows "serialize m = take 4 data @ padded_message_type (message_type m)
           @ take (84 + length (payload m)) (drop 36 data)"
proof -
  note parts = deserialize_parts [OF d]
  have len: "120 \<le> length data"
    using parts(1) by (simp add: wire_constants)
  have hl: "be_encode 4 HEADER_LENGTH = take 4 data"
    using len by (simp flip: parts(2))
  have "payload_code (payload_type m) = be_decode (take 4 (drop 112 data))"
    using parts(10) by (simp add: from_u32_eq_Ok)
  then have pc: "be_encode 4 (payload_code (payload_type m)) = take 4 (drop 112 data)"
    using len by simp
  have pl: "be_encode 4 (of_nat (length (payload m)) :: u32) = take 4 (drop 116 data)"
    using len by (simp add: parts(11))
  have id: "take 8 (drop 8 (message_id m)) @ take 8 (message_id m) = take 16 (drop 64 data)"
    using len by (simp add: parts(8) take_drop_glue [of 8 "drop 64 data" 8, simplified])
  have "serialize m = take 4 data @ padded_message_type (message_type m)
      @ take 4 (drop 36 data) @ take 8 (drop 40 data) @ take 8 (drop 48 data)
      @ take 8 (drop 56 data) @ take 16 (drop 64 data) @ take 32 (drop 80 data)
      @ take 4 (drop 112 data) @ take 4 (drop 116 data) @ take (length (payload m)) (drop 120 data)"
    using len by (simp add: serialize_def hl pc pl id [symmetric] parts(4-7,9))
      (metis parts(14))
  then show ?thesis
    by (simp only: header_slices)
qed

lemma serialize_replace_payload:
  assumes "wf_message m" and "length p = length (payload m)"
  shows "take HEADER_SIZE (serialize m) @ p = serialize (m\<lparr>payload := p\<rparr>)"
  using assms by (simp add: serialize_def wf_message_def wire_constants)

section \<open>Properties\<close>

text \<open>
  (C17) A well-formed message that passes validation and whose payload is within the limit is
  recovered exactly by the decoder from its wire form, whatever bytes follow it in the frame.
\<close>

theorem codec_roundtrip:
  assumes "wf_message m" and "length (payload m) \<le> MAX_PAYLOAD_SIZE"
    and "validate sha256 m = Ok ()"
  shows "deserialize sha256 (serialize m @ rest) = Ok m"
  using assms by (simp add: deserialize_serialize_append)

text \<open>A concrete digest function and message for the witnesses.\<close>

definition toy_digest :: "bytes \<Rightarrow> bytes" where
  "toy_digest p = replicate 32 (fold (+) p 0)"

definition sample_message :: client_message where
  "sample_message =
     new_message toy_digest 1700000000000 (map of_nat [0..<16]) OutputStreamData 7 Output [104, 105]"

theorem codec_roundtrip_witness:
  "wf_message sample_message \<and> length (payload sample_message) \<le> MAX_PAYLOAD_SIZE
   \<and> validate toy_digest sample_message = Ok ()
   \<and> deserialize toy_digest (serialize sample_message @ [1, 2, 3]) = Ok sample_message"
proof -
  have 1: "wf_message sample_message"
    by (simp add: wf_message_def sample_message_def new_message_def toy_digest_def wire_constants)
  have 2: "length (payload sample_message) \<le> MAX_PAYLOAD_SIZE"
    by (simp add: sample_message_def new_message_def MAX_PAYLOAD_SIZE_def)
  have 3: "validate toy_digest sample_message = Ok ()"
    by (simp add: validate_def sample_message_def new_message_def)
  show ?thesis using 1 2 3 codec_roundtrip [OF 1 2 3, of "[1, 2, 3]"] by simp
qed

text \<open>
  (C18) Whatever the decoder accepts is well formed, within the payload limit, valid, and is the
  content of the frame: encoding the decoded message again reproduces the frame byte for byte,
  except that the 32 bytes of the message type are in canonical space padding and that bytes
  after the declared payload are dropped.
\<close>

theorem accepted_frame_faithful:
  assumes "deserialize sha256 data = Ok m"
  shows "wf_message m \<and> length (payload m) \<le> MAX_PAYLOAD_SIZE
    \<and> validate sha256 m = Ok ()
    \<and> parse_message_type (take 32 (drop 4 data)) = Ok (message_type m)
    \<and> serialize m = take 4 data @ padded_message_type (message_type m)
         @ take (84 + length (payload m)) (drop 36 data)"
proof -
  note parts = deserialize_parts [OF assms]
  have "wf_message m"
    using parts(1) by (simp add: wf_message_def parts(8,9) wire_constants)
  with parts(3,12,15) reencode_accepted [OF assms] show ?thesis by blast
qed

theorem accepted_frame_faithful_witness:
  "deserialize toy_digest (serialize sample_message) = Ok sample_message
   \<and> serialize sample_message = take 4 (serialize sample_message)
       @ padded_message_type OutputStreamData @ take 86 (drop 36 (serialize sample_message))"
proof -
  have "validate toy_digest sample_message = Ok ()"
    by (simp add: validate_def sample_message_def new_message_def)
  moreover have "wf_message sample_message"
    by (simp add: wf_message_def sample_message_def new_message_def toy_digest_def wire_constants)
  ultimately have d: "deserialize toy_digest (serialize sample_message) = Ok sample_message"
    using deserialize_serialize_append [of sample_message toy_digest "[]"]
    by (simp add: sample_message_def new_message_def MAX_PAYLOAD_SIZE_def)
  show ?thesis using d accepted_frame_faithful [OF d]
    by (simp add: sample_message_def new_message_def)
qed

text \<open>
  The decoder is total on arbitrary bytes: it answers with a message or with an error and
  never panics, because every cursor read lies within the length that was checked before.
\<close>

theorem deserialize_never_panics: "deserialize sha256 data \<noteq> Panic"
  by (rule deserialize_total)

text \<open>
  (C36) Replacing the payload bytes of a valid data message by other bytes of the same length is
  reported as a digest mismatch, provided the digest function tells the two payloads apart.
\<close>

theorem payload_corruption_detected:
  assumes wf: "wf_message m" and len: "length (payload m) \<le> MAX_PAYLOAD_SIZE"
    and val: "validate sha256 m = Ok ()"
    and mt: "message_type m \<notin> {StartPublication, PausePublication}"
    and p: "length p = length (payload m)" "p \<noteq> []"
    and sha: "sha256 p \<noteq> sha256 (payload m)"
  shows "deserialize sha256 (take HEADER_SIZE (serialize m) @ p @ rest) =
    Err (Protocol [Txt ''payload digest mismatch on '', Str (as_str (message_type m)),
      Txt '' seq '', Num (sint (sequence_number m))])"
proof -
  let ?m = "m\<lparr>payload := p\<rparr>"
  have nonempty: "payload m \<noteq> []" using p by auto
  have wire: "take HEADER_SIZE (serialize m) @ p @ rest = serialize ?m @ rest"
    using serialize_replace_payload [OF wf p(1)] by (simp flip: append_assoc)
  have "wf_message ?m" using wf by (simp add: wf_message_def)
  moreover have "validate sha256 ?m =
    Err (Protocol [Txt ''payload digest mismatch on '', Str (as_str (message_type m)),
      Txt '' seq '', Num (sint (sequence_number m))])"
    using val mt p sha nonempty by (auto simp: validate_def split: if_splits)
  ultimately show ?thesis
    unfolding wire using len p(1) by (simp add: deserialize_serialize_append)
qed

theorem payload_corruption_detected_witness:
  "deserialize toy_digest (take HEADER_SIZE (serialize sample_message) @ [104, 106]) =
    Err (Protocol [Txt ''payload digest mismatch on '', Str ''output_stream_data'',
      Txt '' seq '', Num 7])"
  using payload_corruption_detected [of sample_message toy_digest "[104, 106]" "[]"]
  by (simp add: wf_message_def sample_message_def new_message_def toy_digest_def wire_constants
      MAX_PAYLOAD_SIZE_def validate_def)

text \<open>
  The wire layout: a 120-byte header with HeaderLength 116, the sequence number at offset
  48, the two halves of the message id swapped at offset 64 (least significant half first), the
  digest at 80, the payload type at 112, the payload length at 116 and the payload at 120.
\<close>

theorem serialize_layout:
  assumes "wf_message m"
  shows "length (serialize m) = 120 + length (payload m)
    \<and> take 4 (serialize m) = [0, 0, 0, 116]
    \<and> take 32 (drop 4 (serialize m)) = padded_message_type (message_type m)
    \<and> take 8 (drop 48 (serialize m)) = be_encode 8 (sequence_number m)
    \<and> take 8 (drop 64 (serialize m)) = drop 8 (message_id m)
    \<and> take 8 (drop 72 (serialize m)) = take 8 (message_id m)
    \<and> take 32 (drop 80 (serialize m)) = payload_digest m
    \<and> take 4 (drop 112 (serialize m)) = be_encode 4 (payload_code (payload_type m))
    \<and> take 4 (drop 116 (serialize m)) = be_encode 4 (of_nat (length (payload m)) :: u32)
    \<and> drop 120 (serialize m) = payload m"
proof -
  have "be_encode 4 HEADER_LENGTH = [0, 0, 0, 116]"
    by code_simp
  then show ?thesis
    using assms by (simp add: serialize_def wf_message_def MESSAGE_ID_LEN_def DIGEST_LEN_def)
qed

theorem serialize_layout_witness:
  "length (serialize sample_message) = 122
   \<and> take 4 (drop 116 (serialize sample_message)) = be_encode 4 (2 :: u32)
   \<and> take 8 (drop 72 (serialize sample_message)) = [0, 1, 2, 3, 4, 5, 6, 7]"
proof -
  have 1: "wf_message sample_message"
    by (simp add: wf_message_def sample_message_def new_message_def toy_digest_def wire_constants)
  have "payload sample_message = [104, 105]" "take 8 (message_id sample_message) = [0, 1, 2, 3, 4, 5, 6, 7]"
    by (simp_all add: sample_message_def new_message_def upt_rec)
  then show ?thesis using serialize_layout [OF 1] by simp
qed

end
