(* ===== verification/Json.thy ===== *)
theory Json
  imports Rust_Strings
begin

text \<open>
  The JSON documents of the protocol. \<^verbatim>\<open>serde_json\<close> is third-party: its parser, its printer and the wording of its errors
  are fields of \<open>json_ext\<close>. What \<^verbatim>\<open>derive(Serialize, Deserialize)\<close> makes of the structs of the crate is modelled:
  which documents they accept, field by field, and which they write.
\<close>

section \<open>Documents\<close>

text \<open>
  A parsed text, with the members of an object in order and repeated names kept. A number is an
  integer if its text is one and it fits 64 bits, with or without sign; any other number is kept as its text.
\<close>

datatype json =
  JNull | JBool bool | JInt int | JFloat string | JStr string | JArr "json list" | JObj "(string \<times> json) list"

record json_ext =
  json_parse :: "bytes \<Rightarrow> string + json"
  json_print :: "json \<Rightarrow> string + string"
  json_mismatch :: "string \<Rightarrow> bytes \<Rightarrow> string"
  value_mismatch :: "string \<Rightarrow> json \<Rightarrow> string"
  render :: "msg \<Rightarrow> string"

text \<open>
  \<^verbatim>\<open>from_slice\<close>, \<^verbatim>\<open>from_value\<close> and \<^verbatim>\<open>to_vec\<close> for a type with the given name and reader. The text of an error depends on
  the type and the input.
\<close>

definition from_slice ::
    "'z json_ext_scheme \<Rightarrow> string \<Rightarrow> (json \<Rightarrow> 'a option) \<Rightarrow> bytes \<Rightarrow> ('a, string) result" where
  "from_slice E type_name rd bs =
    (case json_parse E bs of
       Inl e \<Rightarrow> Err e
     | Inr v \<Rightarrow> (case rd v of Some a \<Rightarrow> Ok a | None \<Rightarrow> Err (json_mismatch E type_name bs)))"

definition from_value :: "'z json_ext_scheme \<Rightarrow> string \<Rightarrow> (json \<Rightarrow> 'a option) \<Rightarrow> json \<Rightarrow> string + 'a" where
  "from_value E type_name rd v = (case rd v of Some a \<Rightarrow> Inr a | None \<Rightarrow> Inl (value_mismatch E type_name v))"

definition to_vec :: "'z json_ext_scheme \<Rightarrow> json \<Rightarrow> (bytes, string) result" where
  "to_vec E v = (case json_print E v of Inl e \<Rightarrow> Err e | Inr text \<Rightarrow> Ok (as_bytes text))"

text \<open>The documented behaviour of the library that the protocol relies on, for one document.\<close>

definition reads_back :: "'z json_ext_scheme \<Rightarrow> json \<Rightarrow> bool" where
  "reads_back E v \<longleftrightarrow> (\<exists>text. json_print E v = Inr text \<and> json_parse E (as_bytes text) = Inr v)"

section \<open>Readers\<close>

fun read_string :: "json \<Rightarrow> string option" where
  "read_string (JStr s) = Some s"
| "read_string _ = None"

fun read_bool :: "json \<Rightarrow> bool option" where
  "read_bool (JBool b) = Some b"
| "read_bool _ = None"

fun read_i64 :: "json \<Rightarrow> i64 option" where
  "read_i64 (JInt n) = (if - (2 ^ 63) \<le> n \<and> n < 2 ^ 63 then Some (word_of_int n) else None)"
| "read_i64 _ = None"

fun read_u32 :: "json \<Rightarrow> u32 option" where
  "read_u32 (JInt n) = (if 0 \<le> n \<and> n < 2 ^ 32 then Some (word_of_int n) else None)"
| "read_u32 _ = None"

fun read_option :: "(json \<Rightarrow> 'a option) \<Rightarrow> json \<Rightarrow> 'a option option" where
  "read_option rd JNull = Some None"
| "read_option rd v = map_option Some (rd v)"

fun read_list :: "(json \<Rightarrow> 'a option) \<Rightarrow> json \<Rightarrow> 'a list option" where
  "read_list rd (JArr vs) = those (map rd vs)"
| "read_list rd _ = None"

text \<open>
  A \<^verbatim>\<open>serde_json::Value\<close>: the last of several members with the same name stays. Its order of members plays no
  role, as values are only read by name.
\<close>

fun read_value :: "json \<Rightarrow> json option" where
  "read_value (JArr vs) = map_option JArr (those (map read_value vs))"
| "read_value (JObj fs) =
    map_option (\<lambda>vs. JObj (rev (AList.clearjunk (rev (zip (map fst fs) vs))))) (those (map (\<lambda>(k, v). read_value v) fs))"
| "read_value v = Some v"

text \<open>
  A member of a struct: unknown names are skipped, a name that occurs twice is an error, and one that is missing has the
  value \<open>missing\<close>, if there is one.
\<close>

definition member :: "string \<Rightarrow> (json \<Rightarrow> 'a option) \<Rightarrow> 'a option \<Rightarrow> (string \<times> json) list \<Rightarrow> 'a option" where
  "member name rd missing fs =
    (case filter (\<lambda>f. fst f = name) fs of
       [] \<Rightarrow> missing
     | [f] \<Rightarrow> rd (snd f)
     | _ \<Rightarrow> None)"

text \<open>A struct with a single field. Structs are also read from the sequence of their fields.\<close>

definition read_struct1 :: "string \<Rightarrow> (json \<Rightarrow> 'a option) \<Rightarrow> 'a option \<Rightarrow> json \<Rightarrow> 'a option" where
  "read_struct1 name rd missing v =
    (case v of
       JObj fs \<Rightarrow> member name rd missing fs
     | JArr [x] \<Rightarrow> rd x
     | _ \<Rightarrow> None)"

section \<open>Facts\<close>

lemma member_unknown [simp]: "k \<noteq> name \<Longrightarrow> member name rd d (fs @ (k, v) # gs) = member name rd d (fs @ gs)"
  by (simp add: member_def)

lemma member_simps [simp]:
  "member name rd d [] = d" "k \<noteq> name \<Longrightarrow> member name rd d ((k, v) # fs) = member name rd d fs"
  by (simp_all add: member_def)

lemma member_here [simp]:
  assumes "name \<notin> fst ` set fs"
  shows "member name rd d ((name, v) # fs) = rd v"
proof -
  have "filter (\<lambda>f. fst f = name) fs = []" using assms by (auto simp: filter_empty_conv)
  then show ?thesis by (simp add: member_def)
qed

lemma member_twice [simp]: "member name rd d ((name, v) # fs @ (name, w) # gs) = None"
  by (auto simp: member_def split: list.split)

lemma those_eq_Some: "those (map f xs) = Some ys \<longleftrightarrow> list_all2 (\<lambda>x y. f x = Some y) xs ys"
proof (induction xs arbitrary: ys)
  case (Cons x xs)
  then show ?case by (cases ys) (auto simp: list_all2_Cons1 split: option.split)
qed auto

lemma those_written: "(\<And>x. x \<in> set xs \<Longrightarrow> rd (wr x) = Some x) \<Longrightarrow> those (map rd (map wr xs)) = Some xs"
  by (induction xs) auto

lemma from_slice_not_Panic [simp]: "from_slice E n rd bs \<noteq> Panic"
  by (simp add: from_slice_def split: sum.split option.split)

lemma to_vec_not_Panic [simp]: "to_vec E v \<noteq> Panic"
  by (simp add: to_vec_def split: sum.split)

lemma read_i64_sint [simp]: "read_i64 (JInt (sint n)) = Some n"
  using sint_range_size [of n] by (simp add: word_size)

lemma read_u32_uint [simp]: "read_u32 (JInt (uint n)) = Some n"
  using uint_range_size [of n] by (simp add: word_size)

declare read_i64.simps(1) [simp del] read_u32.simps(1) [simp del]

text \<open>A document without repeated names is its own value.\<close>

fun names_distinct :: "json \<Rightarrow> bool" where
  "names_distinct (JArr vs) \<longleftrightarrow> (\<forall>v \<in> set vs. names_distinct v)"
| "names_distinct (JObj fs) \<longleftrightarrow> distinct (map fst fs) \<and> (\<forall>f \<in> set fs. names_distinct (snd f))"
| "names_distinct v \<longleftrightarrow> True"

lemma read_value_distinct: "names_distinct v \<Longrightarrow> read_value v = Some v"
proof (induction v)
  case (JArr vs)
  then have "those (map read_value vs) = Some vs" using those_written [of vs read_value id] by simp
  then show ?case by simp
next
  case (JObj fs)
  have "read_value (snd f) = Some (snd f)" if "f \<in> set fs" for f
    using JObj that by (cases f) (auto simp: snds.simps)
  then have "those (map (\<lambda>(k, v). read_value v) fs) = Some (map snd fs)"
    by (simp add: those_eq_Some list_all2_conv_all_nth split_beta)
  moreover have "distinct (map fst (rev fs))" using JObj.prems by (simp add: rev_map [symmetric])
  ultimately show ?case by (simp add: zip_map_fst_snd)
qed simp_all

lemma written_reads:
  assumes "reads_back E v" and "rd v = Some a"
  shows "\<exists>bs. to_vec E v = Ok bs \<and> from_slice E n rd bs = Ok a"
  using assms by (auto simp: reads_back_def to_vec_def from_slice_def)

end
