(* ===== verification/Ack.thy ===== *)
theory Ack
  imports Binary_Protocol Json
begin

text \<open>
  \<^verbatim>\<open>src/ack.rs\<close>: acknowledgement messages, the Jacobson/Karels round-trip estimator, the
  buffer of unacknowledged outgoing messages with its retransmission decision, and the
  reorder buffer for inbound messages. The clock is the argument \<open>now\<close> of every operation
  that reads it. The JSON library, UUID and SHA-256 are third-party and are fields of the record
  \<open>wire_ext\<close> that the definitions take as argument.
\<close>

section \<open>Constants\<close>

definition INITIAL_RTT :: duration where "INITIAL_RTT = millis 100"
definition INITIAL_RTO :: duration where "INITIAL_RTO = millis 200"
definition MIN_RTO :: duration where "MIN_RTO = millis 50"
definition MAX_RTO :: duration where "MAX_RTO = secs 30"
definition RTO_VARIANCE_FACTOR :: nat where "RTO_VARIANCE_FACTOR = 4"

lemmas rto_constants =
  INITIAL_RTT_def INITIAL_RTO_def MIN_RTO_def MAX_RTO_def RTO_VARIANCE_FACTOR_def

section \<open>Acknowledgement payload\<close>

record acknowledge_content =
  ack_message_type :: string
  ack_message_id :: string
  ack_sequence_number :: i64
  ack_is_sequential :: bool

text \<open>The JSON body: what the derived writer makes of it and what the derived reader accepts.\<close>

definition ack_to_json :: "acknowledge_content \<Rightarrow> json" where
  "ack_to_json c = JObj
    [(''AcknowledgedMessageType'', JStr (ack_message_type c)),
     (''AcknowledgedMessageId'', JStr (ack_message_id c)),
     (''AcknowledgedMessageSequenceNumber'', JInt (sint (ack_sequence_number c))),
     (''IsSequentialMessage'', JBool (ack_is_sequential c))]"

definition ack_from_parts ::
    "string option \<Rightarrow> string option \<Rightarrow> i64 option \<Rightarrow> bool option \<Rightarrow> acknowledge_content option" where
  "ack_from_parts mt mid sq is_seq =
    (case (mt, mid, sq, is_seq) of
       (Some mt, Some mid, Some sq, Some is_seq) \<Rightarrow>
         Some \<lparr>ack_message_type = mt, ack_message_id = mid, ack_sequence_number = sq, ack_is_sequential = is_seq\<rparr>
     | _ \<Rightarrow> None)"

definition ack_from_json :: "json \<Rightarrow> acknowledge_content option" where
  "ack_from_json v =
    (case v of
       JObj fs \<Rightarrow> ack_from_parts (member ''AcknowledgedMessageType'' read_string None fs)
         (member ''AcknowledgedMessageId'' read_string None fs)
         (member ''AcknowledgedMessageSequenceNumber'' read_i64 None fs)
         (member ''IsSequentialMessage'' read_bool None fs)
     | JArr [a, b, c, d] \<Rightarrow> ack_from_parts (read_string a) (read_string b) (read_i64 c) (read_bool d)
     | _ \<Rightarrow> None)"

lemma ack_from_json_written [simp]: "ack_from_json (ack_to_json c) = Some c"
  by (simp add: ack_from_json_def ack_to_json_def ack_from_parts_def)

text \<open>
  What the code takes from other crates on this layer: the JSON library, the digest, the UUID text form, and the
  supply of random UUIDs and wall-clock readings, indexed by the number of the draw.
\<close>

record wire_ext = json_ext +
  sha256 :: "bytes \<Rightarrow> bytes"
  uuid_to_string :: "bytes \<Rightarrow> string"
  uuid_at :: "nat \<Rightarrow> bytes"
  now_millis_at :: "nat \<Rightarrow> u64"

definition ack_to_vec :: "'z wire_ext_scheme \<Rightarrow> acknowledge_content \<Rightarrow> (bytes, string) result" where
  "ack_to_vec E c = to_vec E (ack_to_json c)"

definition ack_from_slice :: "'z wire_ext_scheme \<Rightarrow> bytes \<Rightarrow> (acknowledge_content, string) result" where
  "ack_from_slice E bs = from_slice E ''AcknowledgeContent'' ack_from_json bs"

definition wf_ext :: "'z wire_ext_scheme \<Rightarrow> bool" where
  "wf_ext E \<longleftrightarrow> (\<forall>p. length (sha256 E p) = DIGEST_LEN) \<and> (\<forall>n. length (uuid_at E n) = MESSAGE_ID_LEN)"

definition fresh_message ::
    "'z wire_ext_scheme \<Rightarrow> nat \<Rightarrow> message_type \<Rightarrow> i64 \<Rightarrow> payload_type \<Rightarrow> bytes \<Rightarrow> client_message" where
  "fresh_message E n mt seq pt pl =
     new_message (sha256 E) (now_millis_at E n) (uuid_at E n) mt seq pt pl"

definition build_ack ::
    "'z wire_ext_scheme \<Rightarrow> nat \<Rightarrow> client_message \<Rightarrow> bool \<Rightarrow> (client_message, error) result" where
  "build_ack E n received is_sequential =
    (let content = \<lparr>ack_message_type = as_str (message_type received),
         ack_message_id = uuid_to_string E (message_id received),
         ack_sequence_number = sequence_number received,
         ack_is_sequential = is_sequential\<rparr> in
     case ack_to_vec E content of
       Err e \<Rightarrow> Err (Serialization e)
     | Panic \<Rightarrow> Panic
     | Ok pl \<Rightarrow>
         let ack = fresh_message E n Acknowledge 0 Undefined pl in
         Ok (ack\<lparr>flags := SYN OR FIN\<rparr>))"

definition parse_ack ::
    "'z wire_ext_scheme \<Rightarrow> client_message \<Rightarrow> (acknowledge_content, error) result" where
  "parse_ack E m =
    (case ack_from_slice E (payload m) of
       Ok c \<Rightarrow> Ok c
     | Err e \<Rightarrow> Err (Protocol [Txt ''malformed acknowledge payload: '', Str e])
     | Panic \<Rightarrow> Panic)"

text \<open>
  The body the code writes for a message, and the documented behaviour of the JSON library the
  acknowledgement protocol relies on: such a document can be written and reads back unchanged.
\<close>

definition ack_content ::
    "'z wire_ext_scheme \<Rightarrow> message_type \<Rightarrow> bytes \<Rightarrow> i64 \<Rightarrow> bool \<Rightarrow> acknowledge_content" where
  "ack_content E mt mid seq is_seq =
    \<lparr>ack_message_type = as_str mt, ack_message_id = uuid_to_string E mid,
     ack_sequence_number = seq, ack_is_sequential = is_seq\<rparr>"

definition ack_json_ok :: "'z wire_ext_scheme \<Rightarrow> bool" where
  "ack_json_ok E \<longleftrightarrow> (\<forall>mt mid seq is_seq. reads_back E (ack_to_json (ack_content E mt mid seq is_seq)))"

section \<open>RTT estimation\<close>

record rtt_estimate =
  smoothed :: duration
  variance :: duration
  rto :: duration
  samples :: nat

definition default_rtt :: rtt_estimate where
  "default_rtt = \<lparr>smoothed = INITIAL_RTT, variance = INITIAL_RTT div 2, rto = INITIAL_RTO, samples = 0\<rparr>"

definition abs_diff :: "duration \<Rightarrow> duration \<Rightarrow> duration" where
  "abs_diff a b = (if a \<le> b then b - a else a - b)"

definition clamp :: "nat \<Rightarrow> nat \<Rightarrow> nat \<Rightarrow> nat" where
  "clamp lo hi x = (if x < lo then lo else if hi < x then hi else x)"

definition record_rtt :: "duration \<Rightarrow> rtt_estimate \<Rightarrow> rtt_estimate" where
  "record_rtt sample r =
    (let r1 =
       (if samples r = 0 then r\<lparr>smoothed := sample, variance := sample div 2\<rparr>
        else
          let deviation = abs_diff (smoothed r) sample;
              r' = r\<lparr>variance := (variance r * 3 + deviation) div 4\<rparr>
          in r'\<lparr>smoothed := (smoothed r' * 7 + sample) div 8\<rparr>)
     in r1\<lparr>samples := samples r1 + 1,
           rto := clamp MIN_RTO MAX_RTO (smoothed r1 + variance r1 * RTO_VARIANCE_FACTOR)\<rparr>)"

section \<open>Outgoing buffer\<close>

record pending_entry =
  wire :: bytes
  sequence :: i64
  last_sent :: instant
  attempts :: nat

datatype retransmit_action =
    Idle
  | Resend (resend_sequence: i64) (resend_wire: bytes)
  | GaveUp (gave_up_sequence: i64) (gave_up_attempts: nat)

record outgoing_buffer =
  pending :: "pending_entry list"
  rtt :: rtt_estimate
  out_capacity :: nat
  max_attempts :: nat

definition out_new :: "nat \<Rightarrow> nat \<Rightarrow> outgoing_buffer" where
  "out_new cap maxa = \<lparr>pending = [], rtt = default_rtt, out_capacity = cap, max_attempts = maxa\<rparr>"

definition track :: "instant \<Rightarrow> bytes \<Rightarrow> i64 \<Rightarrow> outgoing_buffer \<Rightarrow> bool \<times> outgoing_buffer" where
  "track now w seq b =
    (if out_capacity b \<le> length (pending b) then (False, b)
     else (True, b\<lparr>pending := pending b @
        [\<lparr>wire = w, sequence = seq, last_sent = now, attempts = 1\<rparr>]\<rparr>))"

definition acknowledge :: "instant \<Rightarrow> i64 \<Rightarrow> outgoing_buffer \<Rightarrow> bool \<times> outgoing_buffer" where
  "acknowledge now seq b =
    (case List.extract (\<lambda>p. sequence p = seq) (pending b) of
       None \<Rightarrow> (False, b)
     | Some (before, entry, after) \<Rightarrow>
         let b' = b\<lparr>pending := before @ after\<rparr> in
         (True, if attempts entry = 1
                then b'\<lparr>rtt := record_rtt (elapsed now (last_sent entry)) (rtt b')\<rparr>
                else b'))"

definition poll_retransmit :: "instant \<Rightarrow> outgoing_buffer \<Rightarrow> retransmit_action \<times> outgoing_buffer" where
  "poll_retransmit now b =
    (case pending b of
       [] \<Rightarrow> (Idle, b)
     | head # rest \<Rightarrow>
         if elapsed now (last_sent head) \<le> rto (rtt b) then (Idle, b)
         else if max_attempts b \<le> attempts head
         then (GaveUp (sequence head) (attempts head), b)
         else
           let head' = head\<lparr>attempts := attempts head + 1, last_sent := now\<rparr> in
           (Resend (sequence head) (wire head), b\<lparr>pending := head' # rest\<rparr>))"

definition out_len :: "outgoing_buffer \<Rightarrow> nat" where
  "out_len b = length (pending b)"

definition out_is_empty :: "outgoing_buffer \<Rightarrow> bool" where
  "out_is_empty b \<longleftrightarrow> out_len b = 0"

definition out_clear :: "outgoing_buffer \<Rightarrow> outgoing_buffer" where
  "out_clear b = b\<lparr>pending := []\<rparr>"

section \<open>Incoming buffer\<close>

text \<open>The \<^verbatim>\<open>BTreeMap\<close> keyed by sequence number is an association list with distinct keys.\<close>

record incoming_buffer =
  messages :: "(i64 \<times> client_message) list"
  inc_capacity :: nat

definition inc_new :: "nat \<Rightarrow> incoming_buffer" where
  "inc_new cap = \<lparr>messages = [], inc_capacity = cap\<rparr>"

definition inc_len :: "incoming_buffer \<Rightarrow> nat" where
  "inc_len b = length (messages b)"

definition inc_is_empty :: "incoming_buffer \<Rightarrow> bool" where
  "inc_is_empty b \<longleftrightarrow> inc_len b = 0"

definition inc_insert :: "client_message \<Rightarrow> incoming_buffer \<Rightarrow> bool \<times> incoming_buffer" where
  "inc_insert m b =
    (if inc_capacity b \<le> length (messages b) \<and> map_of (messages b) (sequence_number m) = None
     then (False, b)
     else (True, b\<lparr>messages := AList.update (sequence_number m) m (messages b)\<rparr>))"

definition inc_take :: "i64 \<Rightarrow> incoming_buffer \<Rightarrow> client_message option \<times> incoming_buffer" where
  "inc_take seq b =
    (map_of (messages b) seq, b\<lparr>messages := AList.delete seq (messages b)\<rparr>)"

section \<open>The estimator stays in range\<close>

lemma clamp_bounds: "lo \<le> hi \<Longrightarrow> lo \<le> clamp lo hi x \<and> clamp lo hi x \<le> hi"
  by (simp add: clamp_def)

lemma rto_range: "MIN_RTO \<le> MAX_RTO"
  by (simp add: rto_constants)

lemma record_rtt_rto: "MIN_RTO \<le> rto (record_rtt x r) \<and> rto (record_rtt x r) \<le> MAX_RTO"
  using clamp_bounds [OF rto_range] by (simp add: record_rtt_def Let_def)

lemma samples_record_rtt [simp]: "samples (record_rtt x r) = samples r + 1"
  by (simp add: record_rtt_def Let_def)

lemma record_rtt_smoothed:
  "smoothed (record_rtt x r) = (if samples r = 0 then x else (smoothed r * 7 + x) div 8)"
  by (simp add: record_rtt_def Let_def)

lemma record_rtt_variance:
  "variance (record_rtt x r) =
    (if samples r = 0 then x div 2 else (variance r * 3 + abs_diff (smoothed r) x) div 4)"
  by (simp add: record_rtt_def Let_def)

text \<open>Every estimate after the first sample lies between the least and the greatest sample.\<close>

definition estimate_within :: "duration \<Rightarrow> duration \<Rightarrow> rtt_estimate \<Rightarrow> bool" where
  "estimate_within lo hi r \<longleftrightarrow>
     samples r = 0 \<or> (lo \<le> smoothed r \<and> smoothed r \<le> hi \<and> variance r \<le> hi)"

lemma estimate_within_record:
  assumes "lo \<le> x" "x \<le> hi" "estimate_within lo hi r"
  shows "estimate_within lo hi (record_rtt x r)"
  using assms unfolding estimate_within_def record_rtt_smoothed record_rtt_variance abs_diff_def
  by (auto split: if_splits)

section \<open>Runs of the outgoing buffer\<close>

text \<open>The calls the connection makes on the buffer, as data, and their execution in order.\<close>

datatype out_op =
    Track instant bytes i64
  | Ack instant i64
  | Poll instant
  | Clear

fun out_step :: "outgoing_buffer \<Rightarrow> out_op \<Rightarrow> outgoing_buffer" where
  "out_step b (Track t w s) = snd (track t w s b)"
| "out_step b (Ack t s) = snd (acknowledge t s b)"
| "out_step b (Poll t) = snd (poll_retransmit t b)"
| "out_step b Clear = out_clear b"

definition out_run :: "outgoing_buffer \<Rightarrow> out_op list \<Rightarrow> outgoing_buffer" where
  "out_run b ops = foldl out_step b ops"

definition out_inv :: "outgoing_buffer \<Rightarrow> bool" where
  "out_inv b \<longleftrightarrow>
     length (pending b) \<le> out_capacity b
     \<and> MIN_RTO \<le> rto (rtt b) \<and> rto (rtt b) \<le> MAX_RTO
     \<and> (\<forall>p \<in> set (pending b). 1 \<le> attempts p \<and> attempts p \<le> max 1 (max_attempts b))"

lemma extract_Some_split:
  "List.extract P xs = Some (ys, y, zs) \<Longrightarrow> xs = ys @ y # zs \<and> P y \<and> (\<forall>z \<in> set ys. \<not> P z)"
  by (simp add: extract_Some_iff)

lemma out_inv_new: "out_inv (out_new cap maxa)"
  by (simp add: out_inv_def out_new_def default_rtt_def rto_constants)

lemma out_inv_track: "out_inv b \<Longrightarrow> out_inv (snd (track t w s b))"
  by (auto simp: out_inv_def track_def)

lemma out_inv_acknowledge: "out_inv b \<Longrightarrow> out_inv (snd (acknowledge t s b))"
  using record_rtt_rto
  by (auto simp: out_inv_def acknowledge_def Let_def split: option.splits
      dest!: extract_Some_split)

lemma out_inv_poll: "out_inv b \<Longrightarrow> out_inv (snd (poll_retransmit t b))"
  by (auto simp: out_inv_def poll_retransmit_def Let_def split: list.splits)

lemma out_inv_clear: "out_inv b \<Longrightarrow> out_inv (out_clear b)"
  by (simp add: out_inv_def out_clear_def)

lemmas out_inv_ops = out_inv_track out_inv_acknowledge out_inv_poll out_inv_clear

lemma out_inv_step: "out_inv b \<Longrightarrow> out_inv (out_step b op)"
  by (cases op) (simp_all add: out_inv_ops)

lemma out_inv_run: "out_inv b \<Longrightarrow> out_inv (out_run b ops)"
  unfolding out_run_def by (induction ops arbitrary: b) (auto simp: out_inv_step)

lemma limits_step [simp]:
  "out_capacity (out_step b op) = out_capacity b"
  "max_attempts (out_step b op) = max_attempts b"
  by (cases op;
      simp add: track_def acknowledge_def poll_retransmit_def out_clear_def Let_def
        split: option.splits list.splits prod.splits)+

lemma limits_run [simp]:
  "out_capacity (out_run b ops) = out_capacity b"
  "max_attempts (out_run b ops) = max_attempts b"
  unfolding out_run_def by (induction ops arbitrary: b) auto

section \<open>Retransmitted messages give no sample\<close>

definition resent_only :: "i64 \<Rightarrow> outgoing_buffer \<Rightarrow> bool" where
  "resent_only s b \<longleftrightarrow> (\<forall>p \<in> set (pending b). sequence p = s \<longrightarrow> 2 \<le> attempts p)"

lemma resent_only_step:
  assumes "resent_only s b" and "\<forall>t w. op \<noteq> Track t w s"
  shows "resent_only s (out_step b op)"
  using assms
  by (cases op)
    (auto simp: resent_only_def track_def acknowledge_def poll_retransmit_def out_clear_def Let_def
      split: option.splits list.splits dest!: extract_Some_split)

lemma resent_only_run:
  assumes "resent_only s b" and "\<forall>t w. Track t w s \<notin> set ops"
  shows "resent_only s (out_run b ops)"
  using assms unfolding out_run_def
proof (induction ops arbitrary: b)
  case (Cons op ops)
  then have "resent_only s (out_step b op)" by (intro resent_only_step) auto
  with Cons show ?case by simp
qed simp

lemma resent_only_no_sample:
  "resent_only s b \<Longrightarrow> rtt (snd (acknowledge t s b)) = rtt b"
  by (auto simp: acknowledge_def resent_only_def Let_def split: option.splits
      dest!: extract_Some_split)

lemma resent_only_after_resend:
  assumes "out_inv b" and "distinct (map sequence (pending b))"
    and "poll_retransmit t b = (Resend s w, b')"
  shows "resent_only s b'"
proof (cases "pending b")
  case Nil
  with assms(3) show ?thesis by (simp add: poll_retransmit_def)
next
  case (Cons h rest)
  with assms(3) have "s = sequence h"
    and "b' = b\<lparr>pending := h\<lparr>attempts := attempts h + 1, last_sent := t\<rparr> # rest\<rparr>"
    by (auto simp: poll_retransmit_def Let_def split: if_splits)
  moreover have "1 \<le> attempts h" "sequence h \<notin> sequence ` set rest"
    using assms(1,2) Cons by (simp_all add: out_inv_def)
  ultimately show ?thesis by (auto simp: resent_only_def image_iff)
qed

section \<open>The retransmission budget\<close>

text \<open>Polling at a list of instants, collecting the decisions.\<close>

fun poll_all :: "instant list \<Rightarrow> outgoing_buffer \<Rightarrow> retransmit_action list \<times> outgoing_buffer" where
  "poll_all [] b = ([], b)"
| "poll_all (t # ts) b =
    (let (a, b1) = poll_retransmit t b; (as, b2) = poll_all ts b1 in (a # as, b2))"

text \<open>Instants that follow one another, and a start, at more than a given distance.\<close>

fun spaced :: "duration \<Rightarrow> instant \<Rightarrow> instant list \<Rightarrow> bool" where
  "spaced d t [] = True"
| "spaced d t (u # us) = (t + d < u \<and> spaced d u us)"

lemma poll_overdue_head:
  assumes "pending b = h # rest" and "last_sent h + rto (rtt b) < t"
  shows "poll_retransmit t b =
    (if max_attempts b \<le> attempts h then (GaveUp (sequence h) (attempts h), b)
     else (Resend (sequence h) (wire h),
       b\<lparr>pending := h\<lparr>attempts := attempts h + 1, last_sent := t\<rparr> # rest\<rparr>))"
  using assms by (simp add: poll_retransmit_def elapsed_def Let_def)

lemma poll_all_exhausts:
  assumes "pending b = h # rest" and "attempts h + n = max_attempts b"
    and "spaced (rto (rtt b)) (last_sent h) ts" and "length ts = n + 1"
  shows "fst (poll_all ts b) =
    replicate n (Resend (sequence h) (wire h)) @ [GaveUp (sequence h) (max_attempts b)]"
  using assms
proof (induction n arbitrary: b h ts)
  case 0
  then obtain t where ts: "ts = [t]" by (cases ts) auto
  with 0 show ?case using poll_overdue_head [of b h rest t] by simp
next
  case (Suc n)
  then obtain t us where ts: "ts = t # us" by (cases ts) auto
  let ?h = "h\<lparr>attempts := attempts h + 1, last_sent := t\<rparr>"
  let ?b = "b\<lparr>pending := ?h # rest\<rparr>"
  have p: "poll_retransmit t b = (Resend (sequence h) (wire h), ?b)"
    using Suc.prems ts poll_overdue_head [of b h rest t] by simp
  have "fst (poll_all us ?b) =
      replicate n (Resend (sequence ?h) (wire ?h)) @ [GaveUp (sequence ?h) (max_attempts ?b)]"
    using Suc.prems ts by (intro Suc.IH) simp_all
  then show ?case by (simp add: ts p split_beta)
qed

section \<open>The reorder buffer as an interface\<close>

text \<open>
  What the reader relies on in the buffer of out-of-order messages, for any implementation:
  \<open>held\<close> is the partial map from sequence numbers to messages, \<open>room\<close> its size.
\<close>

locale reorder_buffer =
  fixes insert_buf :: "'m \<Rightarrow> 'b \<Rightarrow> bool \<times> 'b"
    and take_buf :: "i64 \<Rightarrow> 'b \<Rightarrow> 'm option \<times> 'b"
    and held :: "'b \<Rightarrow> i64 \<Rightarrow> 'm option"
    and seq_of :: "'m \<Rightarrow> i64"
    and count :: "'b \<Rightarrow> nat"
    and limit :: "'b \<Rightarrow> nat"
    and invar :: "'b \<Rightarrow> bool"
  assumes take_result: "invar b \<Longrightarrow> fst (take_buf s b) = held b s"
    and take_held: "invar b \<Longrightarrow> held (snd (take_buf s b)) = (held b)(s := None)"
    and take_count: "invar b \<Longrightarrow> held b s \<noteq> None \<Longrightarrow> count (snd (take_buf s b)) < count b"
    and take_invar: "invar b \<Longrightarrow> invar (snd (take_buf s b))"
    and take_limit: "limit (snd (take_buf s b)) = limit b"
    and insert_accept: "invar b \<Longrightarrow> fst (insert_buf m b) \<Longrightarrow>
        held (snd (insert_buf m b)) = (held b)(seq_of m \<mapsto> m)"
    and insert_refuse: "invar b \<Longrightarrow> \<not> fst (insert_buf m b) \<Longrightarrow>
        snd (insert_buf m b) = b \<and> limit b \<le> count b \<and> held b (seq_of m) = None"
    and insert_invar: "invar b \<Longrightarrow> invar (snd (insert_buf m b))"
    and insert_limit: "limit (snd (insert_buf m b)) = limit b"
    and held_seq: "invar b \<Longrightarrow> held b s = Some m \<Longrightarrow> seq_of m = s"
    and count_limit: "invar b \<Longrightarrow> count b \<le> limit b"
begin

text \<open>What is taken is what was stored under that number, and taking again finds nothing.\<close>

lemma take_after_insert:
  "invar b \<Longrightarrow> fst (insert_buf m b) \<Longrightarrow> fst (take_buf (seq_of m) (snd (insert_buf m b))) = Some m"
  by (simp add: take_result insert_invar insert_accept)

lemma take_twice:
  "invar b \<Longrightarrow> fst (take_buf s (snd (take_buf s b))) = None"
  by (simp add: take_result take_invar take_held)

lemma take_other:
  "invar b \<Longrightarrow> r \<noteq> s \<Longrightarrow> fst (take_buf r (snd (take_buf s b))) = fst (take_buf r b)"
  by (simp add: take_result take_invar take_held)

end

definition inc_inv :: "incoming_buffer \<Rightarrow> bool" where
  "inc_inv b \<longleftrightarrow> distinct (map fst (messages b)) \<and> length (messages b) \<le> inc_capacity b
     \<and> (\<forall>(s, m) \<in> set (messages b). sequence_number m = s)"

abbreviation inc_held :: "incoming_buffer \<Rightarrow> i64 \<Rightarrow> client_message option" where
  "inc_held b \<equiv> map_of (messages b)"

lemma length_update_present:
  "map_of al k \<noteq> None \<Longrightarrow> length (AList.update k v al) = length al"
  by (induction al) auto

lemma length_update_absent:
  "map_of al k = None \<Longrightarrow> length (AList.update k v al) = Suc (length al)"
  by (induction al) auto

lemma set_update_cases:
  "(s, v) \<in> set (AList.update k w al) \<Longrightarrow> (s, v) \<in> set al \<or> (s = k \<and> v = w)"
  by (induction al) (auto split: if_splits)

lemma inc_inv_new: "inc_inv (inc_new cap)"
  by (simp add: inc_inv_def inc_new_def)

lemma inc_inv_insert:
  assumes "inc_inv b"
  shows "inc_inv (snd (inc_insert m b))"
proof -
  let ?s = "sequence_number m"
  have "length (AList.update ?s m (messages b)) \<le> inc_capacity b"
    if "\<not> (inc_capacity b \<le> length (messages b) \<and> map_of (messages b) ?s = None)"
    using assms that
    by (cases "map_of (messages b) ?s")
      (auto simp: inc_inv_def length_update_absent length_update_present)
  then show ?thesis
    using assms
    by (auto simp: inc_inv_def inc_insert_def distinct_update dest: set_update_cases)
qed

lemma inc_inv_take:
  assumes "inc_inv b"
  shows "inc_inv (snd (inc_take s b))"
proof -
  have "set (AList.delete s (messages b)) \<subseteq> set (messages b)"
    by (auto simp: AList.delete_eq)
  with assms length_AList_delete_le [of s "messages b"] show ?thesis
    by (auto simp: inc_inv_def inc_take_def distinct_delete)
qed

interpretation ib: reorder_buffer inc_insert inc_take inc_held sequence_number inc_len inc_capacity
  inc_inv
proof unfold_locales
  fix b :: incoming_buffer and s :: i64 and m :: client_message
  assume inv: "inc_inv b"
  show "fst (inc_take s b) = inc_held b s" by (simp add: inc_take_def)
  show "inc_held (snd (inc_take s b)) = (inc_held b)(s := None)"
    by (simp add: inc_take_def delete_conv')
  show "inc_inv (snd (inc_take s b))" by (rule inc_inv_take [OF inv])
  show "inc_inv (snd (inc_insert m b))" by (rule inc_inv_insert [OF inv])
  show "inc_len b \<le> inc_capacity b" using inv by (simp add: inc_inv_def inc_len_def)
  show "inc_len (snd (inc_take s b)) < inc_len b" if "inc_held b s \<noteq> None"
    using that by (auto simp: inc_take_def inc_len_def
        intro!: length_AList_delete_present dest!: map_of_SomeD intro: rev_image_eqI)
  show "inc_held (snd (inc_insert m b)) = (inc_held b)(sequence_number m \<mapsto> m)"
    if "fst (inc_insert m b)"
    using that by (auto simp: inc_insert_def update_conv' split: if_splits)
  show "snd (inc_insert m b) = b \<and> inc_capacity b \<le> inc_len b
      \<and> inc_held b (sequence_number m) = None" if "\<not> fst (inc_insert m b)"
    using that by (auto simp: inc_insert_def inc_len_def split: if_splits)
  show "sequence_number m = s" if "inc_held b s = Some m"
    using inv map_of_SomeD [OF that] by (auto simp: inc_inv_def)
qed (simp_all add: inc_take_def inc_insert_def)

section \<open>Properties\<close>

text \<open>
  (C35) From a new buffer, every sequence of calls leaves at most \<open>cap\<close> unacknowledged
  messages, a retransmission timeout between 50 ms and 30 s, and for each message between one
  and the permitted number of transmissions.
\<close>

theorem outgoing_buffer_bounded: "out_inv (out_run (out_new cap maxa) ops)
    \<and> out_len (out_run (out_new cap maxa) ops) \<le> cap"
proof -
  have "out_inv (out_run (out_new cap maxa) ops)"
    by (intro out_inv_run out_inv_new)
  then show ?thesis
    by (simp add: out_inv_def out_len_def) (simp add: out_new_def)
qed

text \<open>
  (C33) Karn's rule over a whole run: once a message has been retransmitted, no later
  acknowledgement of its sequence number changes the round-trip estimate, whatever other calls
  come in between, as long as the number is not issued again.
\<close>

theorem karn_no_sample_after_resend:
  assumes "out_inv b" and "distinct (map sequence (pending b))"
    and "poll_retransmit t b = (Resend s w, b')"
    and "\<forall>t w. Track t w s \<notin> set ops"
  shows "rtt (snd (acknowledge t' s (out_run b' ops))) = rtt (out_run b' ops)"
  using assms
  by (intro resent_only_no_sample resent_only_run resent_only_after_resend)

theorem karn_no_sample_after_resend_witness:
  "let b = snd (track 0 [1] 5 (out_new 8 3));
       b' = snd (poll_retransmit (secs 60) b)
   in fst (poll_retransmit (secs 60) b) = Resend 5 [1]
      \<and> rtt (snd (acknowledge (secs 61) 5 (out_run b' [Track (secs 61) [2] 6])))
        = rtt (out_run b' [Track (secs 61) [2] 6])"
proof -
  let ?b = "snd (track 0 [1] 5 (out_new 8 3))"
  have 1: "out_inv ?b"
    by (intro out_inv_track out_inv_new)
  have 2: "distinct (map sequence (pending ?b))"
    by (simp add: track_def out_new_def)
  have 3: "poll_retransmit (secs 60) ?b = (Resend 5 [1], snd (poll_retransmit (secs 60) ?b))"
    by (simp add: poll_retransmit_def track_def out_new_def default_rtt_def rto_constants
        elapsed_def Let_def)
  have 4: "\<forall>t w. Track t w 5 \<notin> set [Track (secs 61) [2] 6]" by simp
  have "fst (poll_retransmit (secs 60) ?b) = Resend 5 [1]" by (subst 3) simp
  then show ?thesis
    using karn_no_sample_after_resend [OF 1 2 3 4, of "secs 61"] by (simp add: Let_def)
qed

text \<open>
  (C34) A message that is never acknowledged is resent, unchanged and under its own sequence
  number, exactly as often as the budget leaves, and the next overdue poll then reports that
  delivery failed: the head of the queue can neither be skipped nor retried for ever.
\<close>

theorem retransmission_budget:
  assumes "pending b = h # rest" and "attempts h \<le> max_attempts b"
    and "spaced (rto (rtt b)) (last_sent h) ts"
    and "length ts = max_attempts b - attempts h + 1"
  shows "fst (poll_all ts b) =
    replicate (max_attempts b - attempts h) (Resend (sequence h) (wire h))
    @ [GaveUp (sequence h) (max_attempts b)]"
  using poll_all_exhausts [of b h rest "max_attempts b - attempts h" ts] assms by simp

theorem retransmission_budget_witness:
  "fst (poll_all [secs 1, secs 2, secs 3] (snd (track 0 [9] 7 (out_new 8 3)))) =
    [Resend 7 [9], Resend 7 [9], GaveUp 7 3]"
  using retransmission_budget
    [of "snd (track 0 [9] 7 (out_new 8 3))" "\<lparr>wire = [9], sequence = 7, last_sent = 0, attempts = 1\<rparr>"
        "[]" "[secs 1, secs 2, secs 3]"]
  by (simp add: track_def out_new_def default_rtt_def rto_constants numeral_2_eq_2)

text \<open>
  The smoothed round-trip time never leaves the range of the samples it was built from,
  and the mean deviation never exceeds the largest of them.
\<close>

theorem rtt_estimate_within_samples:
  assumes "xs \<noteq> []" and "\<forall>x \<in> set xs. lo \<le> x \<and> x \<le> hi"
  shows "let r = fold record_rtt xs default_rtt in
     samples r = length xs \<and> lo \<le> smoothed r \<and> smoothed r \<le> hi \<and> variance r \<le> hi
     \<and> MIN_RTO \<le> rto r \<and> rto r \<le> MAX_RTO"
proof -
  have within: "estimate_within lo hi r \<Longrightarrow> estimate_within lo hi (fold record_rtt xs r)" for r
    using assms(2) by (induction xs arbitrary: r) (auto intro: estimate_within_record)
  have count: "samples (fold record_rtt xs r) = samples r + length xs" for r
    by (induction xs arbitrary: r) auto
  obtain ys y where "xs = ys @ [y]" using assms(1) by (metis rev_exhaust)
  then have "MIN_RTO \<le> rto (fold record_rtt xs default_rtt) \<and> rto (fold record_rtt xs default_rtt) \<le> MAX_RTO"
    using record_rtt_rto by simp
  moreover have "estimate_within lo hi (fold record_rtt xs default_rtt)"
    by (rule within) (simp add: estimate_within_def default_rtt_def)
  ultimately show ?thesis
    using assms(1) by (simp add: Let_def count estimate_within_def) (simp add: default_rtt_def)
qed

theorem rtt_estimate_within_samples_witness:
  "let r = fold record_rtt [millis 60, millis 80, millis 70] default_rtt in
     samples r = 3 \<and> millis 60 \<le> smoothed r \<and> smoothed r \<le> millis 80"
  using rtt_estimate_within_samples [of "[millis 60, millis 80, millis 70]" "millis 60" "millis 80"]
  by (simp add: Let_def)

text \<open>
  The acknowledgement of a message has sequence number 0 and the flags SYN and FIN in its
  header, and names the acknowledged message in its body: reading the body back gives the type,
  the id, the sequence number and the in-order bit it was built from.
\<close>

theorem ack_names_message:
  assumes json: "ack_json_ok E"
  shows "\<exists>a. build_ack E n m is_seq = Ok a
    \<and> message_type a = Acknowledge \<and> sequence_number a = 0 \<and> flags a = 3
    \<and> validate (sha256 E) a = Ok ()
    \<and> parse_ack E a = Ok (ack_content E (message_type m) (message_id m) (sequence_number m) is_seq)"
proof -
  let ?c = "ack_content E (message_type m) (message_id m) (sequence_number m) is_seq"
  obtain v where v: "ack_to_vec E ?c = Ok v" "ack_from_slice E v = Ok ?c"
    using json written_reads [of E "ack_to_json ?c" ack_from_json ?c "''AcknowledgeContent''"]
    unfolding ack_json_ok_def ack_to_vec_def ack_from_slice_def by auto
  let ?a = "(fresh_message E n Acknowledge 0 Undefined v)\<lparr>flags := SYN OR FIN\<rparr>"
  have "build_ack E n m is_seq = Ok ?a"
    using v(1) by (simp add: build_ack_def Let_def ack_content_def)
  moreover have "parse_ack E ?a = Ok ?c"
    using v(2) by (simp add: parse_ack_def fresh_message_def new_message_def)
  moreover have "validate (sha256 E) ?a = Ok ()" "message_type ?a = Acknowledge"
      "sequence_number ?a = 0"
    by (simp_all add: validate_def fresh_message_def new_message_def)
  moreover have "flags ?a = 3"
    by (simp add: SYN_def FIN_def)
  ultimately show ?thesis by blast
qed

text \<open>A concrete environment for the witnesses: a toy digest and a toy text format for such bodies.\<close>

fun toy_json_print :: "json \<Rightarrow> string + string" where
  "toy_json_print (JObj [(_, JStr mt), (_, JStr mid), (_, JInt n), (_, JBool q)]) =
     Inr (of_bytes (of_bool q # of_nat (length mt) # be_encode 8 (word_of_int n :: i64) @ as_bytes mt @ as_bytes mid))"
| "toy_json_print _ = Inr ''{}''"

definition toy_json_parse :: "bytes \<Rightarrow> string + json" where
  "toy_json_parse bs = (case bs of
       q # n # rest \<Rightarrow> Inr (ack_to_json \<lparr>ack_message_type = of_bytes (take (unat n) (drop 8 rest)),
         ack_message_id = of_bytes (drop (8 + unat n) rest),
         ack_sequence_number = be_decode (take 8 rest), ack_is_sequential = (q = 1)\<rparr>)
     | _ \<Rightarrow> Inl ''EOF while parsing'')"

definition toy_wire_ext :: wire_ext where
  "toy_wire_ext = \<lparr>json_parse = toy_json_parse, json_print = toy_json_print, json_mismatch = (\<lambda>_ _. ''invalid type''),
     value_mismatch = (\<lambda>_ _. ''invalid type''), render = (\<lambda>_. ''message''),
     sha256 = toy_digest, uuid_to_string = of_bytes, uuid_at = (\<lambda>n. replicate 16 (of_nat n)),
     now_millis_at = (\<lambda>n. of_nat n)\<rparr>"

lemma toy_ack_json_ok: "ack_json_ok toy_wire_ext"
proof -
  have "toy_json_parse (of_bool q # of_nat (length (as_str mt))
      # be_encode 8 s @ as_bytes (as_str mt) @ as_bytes (of_bytes i)) =
    Inr (ack_to_json \<lparr>ack_message_type = as_str mt, ack_message_id = of_bytes i, ack_sequence_number = s,
      ack_is_sequential = q\<rparr>)" for q mt s i
  proof -
    have "unat (of_nat (length (as_str mt)) :: byte) = length (as_str mt)"
      by (cases mt) simp_all
    then show ?thesis by (simp add: toy_json_parse_def)
  qed
  then show ?thesis
    by (simp add: ack_json_ok_def ack_content_def toy_wire_ext_def reads_back_def) (simp add: ack_to_json_def as_bytes_of_bytes)
qed

theorem ack_names_message_witness:
  "ack_json_ok toy_wire_ext
   \<and> (\<exists>a. build_ack toy_wire_ext 0 sample_message True = Ok a
        \<and> (\<exists>c. parse_ack toy_wire_ext a = Ok c \<and> ack_sequence_number c = 7 \<and> ack_is_sequential c))"
proof -
  note ack_names_message [OF toy_ack_json_ok, of 0 sample_message True]
  then obtain a where "build_ack toy_wire_ext 0 sample_message True = Ok a"
    and "parse_ack toy_wire_ext a = Ok (ack_content toy_wire_ext (message_type sample_message)
      (message_id sample_message) (sequence_number sample_message) True)"
    by blast
  moreover have "sequence_number sample_message = 7"
    by (simp add: sample_message_def new_message_def)
  ultimately show ?thesis
    using toy_ack_json_ok by (auto simp: ack_content_def)
qed

end
