(* ===== verification/Crypto.thy ===== *)
theory Crypto
  imports Ack
begin

text \<open>
  \<^verbatim>\<open>src/crypto.rs\<close>: the directional AES-256-GCM keys of an encrypted session. The cipher, the
  source of nonces and \<^verbatim>\<open>kms:GenerateDataKey\<close> are other people's code: they are fields of
  \<open>crypto_ext\<close>. A cipher object built from a key is that key. What is proved about frames rests
  on \<open>aead_ok\<close>, the documented behaviour of the cipher.
\<close>

section \<open>What comes from outside\<close>

record crypto_ext = wire_ext +
  aes_encrypt :: "bytes \<Rightarrow> bytes \<Rightarrow> bytes \<Rightarrow> bytes option"
  aes_decrypt :: "bytes \<Rightarrow> bytes \<Rightarrow> bytes \<Rightarrow> bytes option"
  nonce_at :: "nat \<Rightarrow> bytes"
  generate_data_key ::
    "nat \<Rightarrow> string \<Rightarrow> nat \<Rightarrow> (string \<times> string) list \<Rightarrow> sdk_error + bytes option \<times> bytes option"

section \<open>Operations\<close>

definition DATA_KEY_BYTES :: nat where "DATA_KEY_BYTES = 64"
definition NONCE_LEN :: nat where "NONCE_LEN = 12"
definition TAG_LEN :: nat where "TAG_LEN = 16"

lemmas crypto_constants = DATA_KEY_BYTES_def NONCE_LEN_def TAG_LEN_def

record session_crypto =
  cipher_text_blob :: bytes
  encrypt_key :: bytes
  decrypt_key :: bytes

definition from_key_material :: "bytes \<Rightarrow> bytes \<Rightarrow> (session_crypto, error) result" where
  "from_key_material material blob =
    (if length material \<noteq> DATA_KEY_BYTES
     then Err (Crypto [Txt ''expected a '', Num (int DATA_KEY_BYTES), Txt ''-byte data key, got '',
       Num (int (length material))])
     else
       let mid = length material div 2;
           decrypt_half = take mid material; encrypt_half = drop mid material
       in Ok \<lparr>cipher_text_blob = blob, encrypt_key = encrypt_half, decrypt_key = decrypt_half\<rparr>)"

definition negotiate ::
    "'z crypto_ext_scheme \<Rightarrow> nat \<Rightarrow> string \<Rightarrow> string \<Rightarrow> string \<Rightarrow> (session_crypto, error) result" where
  "negotiate E n kms_key_id session_id target_id =
    (let ctx = [(''aws:ssm:SessionId'', session_id), (''aws:ssm:TargetId'', target_id)] in
     bind_result (case generate_data_key E n kms_key_id DATA_KEY_BYTES ctx of Inl e \<Rightarrow> Err (from_sdk_error e)
         | Inr out \<Rightarrow> Ok out) (\<lambda>(plaintext, blob).
     bind_result (case plaintext of Some p \<Rightarrow> Ok p
         | None \<Rightarrow> Err (Crypto [Txt ''KMS returned no plaintext data key''])) (\<lambda>p.
     bind_result (case blob of Some b \<Rightarrow> Ok b
         | None \<Rightarrow> Err (Crypto [Txt ''KMS returned no ciphertext blob''])) (\<lambda>b.
     from_key_material p b))))"

definition encrypt ::
    "'z crypto_ext_scheme \<Rightarrow> nat \<Rightarrow> session_crypto \<Rightarrow> bytes \<Rightarrow> (bytes, error) result" where
  "encrypt E n c plaintext =
    (let nonce = nonce_at E n in
     case aes_encrypt E (encrypt_key c) nonce plaintext of
       None \<Rightarrow> Err (Crypto [Txt ''AES-GCM encryption failed''])
     | Some ciphertext \<Rightarrow> Ok (nonce @ ciphertext))"

definition decrypt ::
    "'z crypto_ext_scheme \<Rightarrow> session_crypto \<Rightarrow> bytes \<Rightarrow> (bytes, error) result" where
  "decrypt E c frame =
    (if length frame < NONCE_LEN + TAG_LEN
     then Err (Crypto [Txt ''encrypted frame is '', Num (int (length frame)),
       Txt '' bytes, shorter than the '', Num (int (NONCE_LEN + TAG_LEN)), Txt ''-byte minimum''])
     else
       let nonce = take NONCE_LEN frame; ciphertext = drop NONCE_LEN frame in
       case aes_decrypt E (decrypt_key c) nonce ciphertext of
         None \<Rightarrow> Err (Crypto [Txt ''AES-GCM authentication failed: frame corrupt or key mismatch''])
       | Some plaintext \<Rightarrow> Ok plaintext)"

section \<open>The cipher's contract\<close>

text \<open>
  AES-256-GCM with 32-byte keys and 12-byte nonces: the ciphertext carries a 16-byte tag, and
  decryption accepts exactly what encryption under the same key and nonce produces.
\<close>

definition aead_ok :: "'z crypto_ext_scheme \<Rightarrow> bool" where
  "aead_ok E \<longleftrightarrow> (\<forall>n. length (nonce_at E n) = NONCE_LEN)
     \<and> (\<forall>k n p c. length k = 32 \<and> length n = NONCE_LEN \<longrightarrow>
          (aes_decrypt E k n c = Some p) = (aes_encrypt E k n p = Some c))
     \<and> (\<forall>k n p c. length k = 32 \<and> length n = NONCE_LEN \<and> aes_encrypt E k n p = Some c \<longrightarrow>
          length c = length p + TAG_LEN)"

lemma aead_inverse:
  "aead_ok E \<Longrightarrow> length k = 32 \<Longrightarrow> length n = NONCE_LEN \<Longrightarrow>
   aes_decrypt E k n c = Some p \<longleftrightarrow> aes_encrypt E k n p = Some c"
  unfolding aead_ok_def by blast

lemma aead_tag:
  "aead_ok E \<Longrightarrow> length k = 32 \<Longrightarrow> length n = NONCE_LEN \<Longrightarrow> aes_encrypt E k n p = Some c \<Longrightarrow>
   length c = length p + TAG_LEN"
  unfolding aead_ok_def by blast

lemma from_key_material_Ok:
  "from_key_material m b = Ok c \<longleftrightarrow> length m = 64
     \<and> c = \<lparr>cipher_text_blob = b, encrypt_key = drop 32 m, decrypt_key = take 32 m\<rparr>"
  by (auto simp: from_key_material_def DATA_KEY_BYTES_def Let_def)

lemma negotiate_never_panics: "negotiate E n key sid tid \<noteq> Panic"
  by (auto simp: negotiate_def from_key_material_def Let_def bind_result_eq_Panic
      split: sum.splits option.splits)

text \<open>The agent holds the same material with the halves exchanged.\<close>

definition swap_halves :: "bytes \<Rightarrow> bytes" where
  "swap_halves m = drop 32 m @ take 32 m"

definition mirrored :: "session_crypto \<Rightarrow> session_crypto \<Rightarrow> bool" where
  "mirrored a b \<longleftrightarrow> encrypt_key a = decrypt_key b \<and> encrypt_key b = decrypt_key a
     \<and> length (encrypt_key a) = 32 \<and> length (decrypt_key a) = 32"

lemma mirrored_sym: "mirrored a b \<Longrightarrow> mirrored b a"
  by (auto simp: mirrored_def)

lemma mirrored_halves:
  assumes "from_key_material m b1 = Ok client" and "from_key_material (swap_halves m) b2 = Ok agent"
  shows "mirrored client agent"
  using assms by (auto simp: from_key_material_Ok mirrored_def swap_halves_def)

lemma mirrored_transport:
  assumes "aead_ok E" and "mirrored a b" and "encrypt E n a p = Ok frame"
  shows "decrypt E b frame = Ok p \<and> length frame = NONCE_LEN + length p + TAG_LEN"
proof -
  obtain c where c: "aes_encrypt E (encrypt_key a) (nonce_at E n) p = Some c"
    and frame: "frame = nonce_at E n @ c"
    using assms(3) by (auto simp: encrypt_def Let_def split: option.splits)
  have n: "length (nonce_at E n) = NONCE_LEN" using assms(1) by (simp add: aead_ok_def)
  have k: "length (encrypt_key a) = 32" "encrypt_key a = decrypt_key b"
    using assms(2) by (auto simp: mirrored_def)
  have len: "length c = length p + TAG_LEN"
    using aead_tag [OF assms(1) k(1) n c] .
  moreover have "aes_decrypt E (decrypt_key b) (nonce_at E n) c = Some p"
    using aead_inverse [OF assms(1) k(1) n] c k(2) by simp
  ultimately show ?thesis
    using n by (simp add: decrypt_def frame Let_def)
qed

text \<open>An accepted frame is what the other side's encryption of the plaintext produces.\<close>

lemma mirrored_authentic:
  assumes "aead_ok E" and "mirrored a b" and "decrypt E b frame = Ok p"
  shows "aes_encrypt E (encrypt_key a) (take NONCE_LEN frame) p = Some (drop NONCE_LEN frame)"
proof -
  have "NONCE_LEN + TAG_LEN \<le> length frame"
    and "aes_decrypt E (decrypt_key b) (take NONCE_LEN frame) (drop NONCE_LEN frame) = Some p"
    using assms(3) by (auto simp: decrypt_def Let_def split: if_splits option.splits)
  moreover have "encrypt_key a = decrypt_key b" "length (decrypt_key b) = 32"
    using assms(2) by (auto simp: mirrored_def)
  ultimately show ?thesis
    using aead_inverse [OF assms(1), of "decrypt_key b" "take NONCE_LEN frame"] by simp
qed

section \<open>A concrete cipher for the witnesses\<close>

text \<open>Append the first 16 bytes of the key as the tag and the nonce's first byte to each byte.\<close>

definition toy_aes_encrypt :: "bytes \<Rightarrow> bytes \<Rightarrow> bytes \<Rightarrow> bytes option" where
  "toy_aes_encrypt k n p = Some (map (\<lambda>b. b + hd n) p @ take 16 k)"

definition toy_aes_decrypt :: "bytes \<Rightarrow> bytes \<Rightarrow> bytes \<Rightarrow> bytes option" where
  "toy_aes_decrypt k n c =
    (if length c < 16 \<or> drop (length c - 16) c \<noteq> take 16 k then None
     else Some (map (\<lambda>b. b - hd n) (take (length c - 16) c)))"

definition toy_data_key :: bytes where
  "toy_data_key = map of_nat [0..<64]"

definition toy_crypto_ext :: crypto_ext where
  "toy_crypto_ext = wire_ext.extend toy_wire_ext
    \<lparr>aes_encrypt = toy_aes_encrypt, aes_decrypt = toy_aes_decrypt,
     nonce_at = (\<lambda>n. replicate NONCE_LEN (of_nat n)),
     generate_data_key = (\<lambda>n key bytes ctx. Inr (Some toy_data_key, Some [42]))\<rparr>"

lemma toy_aead_ok: "aead_ok toy_crypto_ext"
proof -
  have "(toy_aes_decrypt k n c = Some p) = (toy_aes_encrypt k n p = Some c)" if "length k = 32" for k n p c
  proof
    assume "toy_aes_decrypt k n c = Some p"
    then have c: "16 \<le> length c" "drop (length c - 16) c = take 16 k"
      and p: "p = map (\<lambda>b. b - hd n) (take (length c - 16) c)"
      by (auto simp: toy_aes_decrypt_def split: if_splits)
    have "map (\<lambda>b. b + hd n) p @ take 16 k = take (length c - 16) c @ drop (length c - 16) c"
      by (simp add: p c(2) comp_def)
    then show "toy_aes_encrypt k n p = Some c" by (simp add: toy_aes_encrypt_def)
  next
    assume "toy_aes_encrypt k n p = Some c"
    then show "toy_aes_decrypt k n c = Some p"
      using that by (auto simp: toy_aes_encrypt_def toy_aes_decrypt_def comp_def)
  qed
  then show ?thesis
    by (simp add: aead_ok_def toy_crypto_ext_def wire_ext.defs TAG_LEN_def toy_aes_encrypt_def
        min_def)
qed

section \<open>Properties\<close>

text \<open>
  (C22) Encrypted transport between the client and the agent, which holds the same 64-byte data key
  with its halves exchanged: in both directions what one side encrypts the other decrypts to the
  same plaintext, and the frame is the nonce, the ciphertext and the tag, 28 bytes longer.
\<close>

theorem encrypted_roundtrip:
  assumes "aead_ok E"
    and "from_key_material m b1 = Ok client" and "from_key_material (swap_halves m) b2 = Ok agent"
  shows "(encrypt E n client p = Ok frame \<longrightarrow>
            decrypt E agent frame = Ok p \<and> length frame = length p + 28)
       \<and> (encrypt E n agent p = Ok frame \<longrightarrow>
            decrypt E client frame = Ok p \<and> length frame = length p + 28)"
  using mirrored_transport [OF assms(1) mirrored_halves [OF assms(2,3)], of n p frame]
    mirrored_transport [OF assms(1) mirrored_sym [OF mirrored_halves [OF assms(2,3)]], of n p frame]
  by (auto simp: crypto_constants)

theorem encrypted_roundtrip_witness:
  "\<exists>client agent frame. from_key_material toy_data_key [42] = Ok client
     \<and> from_key_material (swap_halves toy_data_key) [42] = Ok agent
     \<and> encrypt toy_crypto_ext 5 client [1, 2, 3] = Ok frame
     \<and> decrypt toy_crypto_ext agent frame = Ok [1, 2, 3] \<and> length frame = 31"
proof -
  obtain client where c: "from_key_material toy_data_key [42] = Ok client"
    by (auto simp: from_key_material_Ok toy_data_key_def)
  obtain agent where a: "from_key_material (swap_halves toy_data_key) [42] = Ok agent"
    by (auto simp: from_key_material_Ok swap_halves_def toy_data_key_def)
  obtain frame where f: "encrypt toy_crypto_ext 5 client [1, 2, 3] = Ok frame"
    by (auto simp: encrypt_def toy_crypto_ext_def wire_ext.defs toy_aes_encrypt_def Let_def)
  then show ?thesis
    using c a encrypted_roundtrip [OF toy_aead_ok c a, of 5 "[1, 2, 3]" frame] by auto
qed

text \<open>
  A frame is accepted only if it is the encryption of the returned plaintext under the key of
  that direction, so no two different frames with the same nonce decrypt to the same payload and
  a changed ciphertext byte is rejected; a frame shorter than nonce and tag is an error.
\<close>

theorem tampered_frame_rejected:
  assumes "aead_ok E" and "length (decrypt_key c) = 32"
    and "decrypt E c frame = Ok p" and "take NONCE_LEN frame' = take NONCE_LEN frame"
    and "frame' \<noteq> frame"
  shows "decrypt E c frame' \<noteq> Ok p
    \<and> (length frame' < 28 \<longrightarrow> (\<exists>e. decrypt E c frame' = Err (Crypto e)))"
proof -
  let ?peer = "\<lparr>cipher_text_blob = [], encrypt_key = decrypt_key c, decrypt_key = decrypt_key c\<rparr>"
  let ?c = "c\<lparr>encrypt_key := decrypt_key c\<rparr>"
  have mir: "mirrored ?peer ?c" using assms(2) by (simp add: mirrored_def)
  have same: "decrypt E ?c f = decrypt E c f" for f by (simp add: decrypt_def)
  have "drop NONCE_LEN frame' = drop NONCE_LEN frame" if "decrypt E c frame' = Ok p"
    using mirrored_authentic [OF assms(1) mir, of frame p] assms(3,4) that
      mirrored_authentic [OF assms(1) mir, of frame' p] by (simp add: same)
  then have "decrypt E c frame' \<noteq> Ok p"
    using assms(4,5) append_take_drop_id by metis
  then show ?thesis by (simp add: decrypt_def crypto_constants)
qed

theorem tampered_frame_rejected_witness:
  "\<exists>c frame. decrypt toy_crypto_ext c frame = Ok [1, 2]
     \<and> decrypt toy_crypto_ext c (frame @ [0]) \<noteq> Ok [1, 2]"
proof -
  let ?c = "\<lparr>cipher_text_blob = [], encrypt_key = replicate 32 1, decrypt_key = replicate 32 1\<rparr>"
  let ?f = "replicate 12 (5 :: byte) @ [6, 7] @ replicate 16 1"
  have ok: "decrypt toy_crypto_ext ?c ?f = Ok [1, 2]"
    by (simp add: decrypt_def crypto_constants toy_crypto_ext_def wire_ext.defs toy_aes_decrypt_def
        Let_def numeral_eq_Suc)
  show ?thesis
    using ok tampered_frame_rejected [OF toy_aead_ok _ ok, of "?f @ [0]"]
    by (intro exI [of _ ?c] exI [of _ ?f]) (simp add: NONCE_LEN_def)
qed

end
