(* ===== verification/Handshake.thy ===== *)
theory Handshake
  imports Crypto
begin

text \<open>
  \<^verbatim>\<open>src/handshake.rs\<close>: the wire types of the agent handshake and the state machine of
  \<^verbatim>\<open>HandshakeHandler\<close>. The JSON library and base64 are third-party; the documents that the derived
  readers accept and the derived writers produce are spelt out. Both
  builds are covered, with and without the \<^verbatim>\<open>kms\<close> feature (field \<open>kms_feature\<close>).
\<close>

definition CLIENT_PROTOCOL_VERSION :: string where
  "CLIENT_PROTOCOL_VERSION = ''1.2.764.0''"

section \<open>Wire types\<close>

datatype action_type = KmsEncryption | SessionType

datatype action_status = Success | Failed_Action | Unsupported_Action

definition serialize_status :: "action_status \<Rightarrow> u32" where
  "serialize_status s = (case s of Success \<Rightarrow> 1 | Failed_Action \<Rightarrow> 2 | Unsupported_Action \<Rightarrow> 3)"

definition deserialize_status :: "u32 \<Rightarrow> (action_status, msg) result" where
  "deserialize_status n =
    (if n = 1 then Ok Success else if n = 2 then Ok Failed_Action
     else if n = 3 then Ok Unsupported_Action
     else Err [Txt ''invalid ActionStatus '', Num (uint n)])"

datatype negotiated_session_type = StandardStream | InteractiveCommands | Port

definition parse_session_type :: "string \<Rightarrow> negotiated_session_type option" where
  "parse_session_type raw =
    (if raw = ''Standard_Stream'' then Some StandardStream
     else if raw = ''InteractiveCommands'' then Some InteractiveCommands
     else if raw = ''Port'' then Some Port
     else None)"

record requested_client_action =
  requested_type :: action_type
  action_parameters :: json

record handshake_request =
  req_agent_version :: string
  requested_client_actions :: "requested_client_action list"

record processed_client_action =
  processed_type :: action_type
  action_status :: action_status
  action_result :: "json option"
  action_error :: "msg option"

record handshake_response =
  client_version :: string
  processed_client_actions :: "processed_client_action list"
  resp_errors :: "msg list"

record handshake_complete =
  handshake_time_to_complete :: i64
  customer_message :: "string option"

section \<open>What comes from outside\<close>

record handshake_ext = crypto_ext +
  kms_feature :: bool
  base64_encode :: "bytes \<Rightarrow> string"
  base64_decode :: "string \<Rightarrow> (bytes, string) result"

section \<open>The documents\<close>

text \<open>A unit variant is its name, or an object that maps the name to \<^verbatim>\<open>null\<close>.\<close>

definition action_type_name :: "action_type \<Rightarrow> string" where
  "action_type_name t = (case t of KmsEncryption \<Rightarrow> ''KMSEncryption'' | SessionType \<Rightarrow> ''SessionType'')"

definition variant_of_name :: "string \<Rightarrow> action_type option" where
  "variant_of_name s =
    (if s = ''KMSEncryption'' then Some KmsEncryption else if s = ''SessionType'' then Some SessionType else None)"

fun read_action_type :: "json \<Rightarrow> action_type option" where
  "read_action_type (JStr s) = variant_of_name s"
| "read_action_type (JObj [(s, JNull)]) = variant_of_name s"
| "read_action_type _ = None"

definition session_type_params :: "'z json_ext_scheme \<Rightarrow> json \<Rightarrow> string + string" where
  "session_type_params E v = from_value E ''SessionTypeRequest'' (read_struct1 ''SessionType'' read_string None) v"

definition kms_params :: "'z json_ext_scheme \<Rightarrow> json \<Rightarrow> string + string" where
  "kms_params E v = from_value E ''KmsEncryptionRequest'' (read_struct1 ''KMSKeyId'' read_string None) v"

definition kms_response_value :: "string \<Rightarrow> json" where
  "kms_response_value encoded = JObj [(''KMSCipherTextKey'', JStr encoded)]"

definition action_from_parts :: "action_type option \<Rightarrow> json option \<Rightarrow> requested_client_action option" where
  "action_from_parts t p =
    (case (t, p) of
       (Some t, Some p) \<Rightarrow> Some \<lparr>requested_type = t, action_parameters = p\<rparr>
     | _ \<Rightarrow> None)"

definition read_requested_action :: "json \<Rightarrow> requested_client_action option" where
  "read_requested_action v =
    (case v of
       JObj fs \<Rightarrow> action_from_parts (member ''ActionType'' read_action_type None fs)
         (member ''ActionParameters'' read_value None fs)
     | JArr [a, b] \<Rightarrow> action_from_parts (read_action_type a) (read_value b)
     | _ \<Rightarrow> None)"

definition request_from_parts :: "string option \<Rightarrow> requested_client_action list option \<Rightarrow> handshake_request option" where
  "request_from_parts v as =
    (case (v, as) of
       (Some v, Some as) \<Rightarrow> Some \<lparr>req_agent_version = v, requested_client_actions = as\<rparr>
     | _ \<Rightarrow> None)"

definition read_request :: "json \<Rightarrow> handshake_request option" where
  "read_request v =
    (case v of
       JObj fs \<Rightarrow> request_from_parts (member ''AgentVersion'' read_string None fs)
         (member ''RequestedClientActions'' (read_list read_requested_action) None fs)
     | JArr [a, b] \<Rightarrow> request_from_parts (read_string a) (read_list read_requested_action b)
     | _ \<Rightarrow> None)"

definition request_from_slice :: "'z json_ext_scheme \<Rightarrow> bytes \<Rightarrow> (handshake_request, string) result" where
  "request_from_slice E bs = from_slice E ''HandshakeRequest'' read_request bs"

text \<open>The customer message may be missing or \<^verbatim>\<open>null\<close>.\<close>

definition complete_from_parts :: "i64 option \<Rightarrow> string option option \<Rightarrow> handshake_complete option" where
  "complete_from_parts t m =
    (case (t, m) of
       (Some t, Some m) \<Rightarrow> Some \<lparr>handshake_time_to_complete = t, customer_message = m\<rparr>
     | _ \<Rightarrow> None)"

definition read_complete :: "json \<Rightarrow> handshake_complete option" where
  "read_complete v =
    (case v of
       JObj fs \<Rightarrow> complete_from_parts (member ''HandshakeTimeToComplete'' read_i64 None fs)
         (member ''CustomerMessage'' (read_option read_string) (Some None) fs)
     | JArr [a] \<Rightarrow> complete_from_parts (read_i64 a) (Some None)
     | JArr [a, b] \<Rightarrow> complete_from_parts (read_i64 a) (read_option read_string b)
     | _ \<Rightarrow> None)"

definition complete_from_slice :: "'z json_ext_scheme \<Rightarrow> bytes \<Rightarrow> (handshake_complete, string) result" where
  "complete_from_slice E bs = from_slice E ''HandshakeComplete'' read_complete bs"

text \<open>The challenge's text before it is decoded; with its own codec the field cannot be left out.\<close>

definition challenge_from_slice :: "'z json_ext_scheme \<Rightarrow> bytes \<Rightarrow> (string option, string) result" where
  "challenge_from_slice E bs =
    from_slice E ''EncryptionChallengeRequest'' (read_struct1 ''Challenge'' (read_option read_string) None) bs"

definition challenge_to_vec :: "'z json_ext_scheme \<Rightarrow> string \<Rightarrow> (bytes, string) result" where
  "challenge_to_vec E encoded = to_vec E (JObj [(''Challenge'', JStr encoded)])"

text \<open>The response: a result and an error are written only if they are there.\<close>

definition processed_to_json :: "'z json_ext_scheme \<Rightarrow> processed_client_action \<Rightarrow> json" where
  "processed_to_json E a = JObj
    ([(''ActionType'', JStr (action_type_name (processed_type a))),
      (''ActionStatus'', JInt (uint (serialize_status (action_status a))))]
     @ (case action_result a of Some v \<Rightarrow> [(''ActionResult'', v)] | None \<Rightarrow> [])
     @ (case action_error a of Some m \<Rightarrow> [(''Error'', JStr (render E m))] | None \<Rightarrow> []))"

definition response_to_json :: "'z json_ext_scheme \<Rightarrow> handshake_response \<Rightarrow> json" where
  "response_to_json E r = JObj
    [(''ClientVersion'', JStr (client_version r)),
     (''ProcessedClientActions'', JArr (map (processed_to_json E) (processed_client_actions r))),
     (''Errors'', JArr (map (JStr \<circ> render E) (resp_errors r)))]"

definition response_to_vec :: "'z json_ext_scheme \<Rightarrow> handshake_response \<Rightarrow> (bytes, string) result" where
  "response_to_vec E r = to_vec E (response_to_json E r)"

text \<open>
  The codec of the byte-array fields: base64 text one way; the other way an absent value is the
  empty payload. The reader that the derive attributes produce around it appends the position in the text to
  the message, which is left out. \<open>parse_challenge\<close> and \<open>print_challenge\<close> are the (de)serializers of the challenges,
  \<open>print_kms_response\<close> that of \<^verbatim>\<open>KmsEncryptionResponse\<close>.
\<close>

definition base64_serialize :: "'z handshake_ext_scheme \<Rightarrow> bytes \<Rightarrow> string" where
  "base64_serialize E bs = base64_encode E bs"

definition base64_deserialize :: "'z handshake_ext_scheme \<Rightarrow> string option \<Rightarrow> (bytes, string) result" where
  "base64_deserialize E field =
    (case field of
       None \<Rightarrow> Ok []
     | Some encoded \<Rightarrow>
         case base64_decode E encoded of
           Ok bs \<Rightarrow> Ok bs
         | Err e \<Rightarrow> Err (''field is not valid base64: '' @ e)
         | Panic \<Rightarrow> Panic)"

definition parse_challenge :: "'z handshake_ext_scheme \<Rightarrow> bytes \<Rightarrow> (bytes, string) result" where
  "parse_challenge E bs = bind_result (challenge_from_slice E bs) (base64_deserialize E)"

definition print_challenge :: "'z handshake_ext_scheme \<Rightarrow> bytes \<Rightarrow> (bytes, string) result" where
  "print_challenge E challenge = challenge_to_vec E (base64_serialize E challenge)"

definition print_kms_response :: "'z handshake_ext_scheme \<Rightarrow> bytes \<Rightarrow> json" where
  "print_kms_response E blob = kms_response_value (base64_serialize E blob)"

section \<open>The state machine\<close>

datatype handshake_state = AwaitingRequest | AwaitingComplete | Completed | Failed

fun state_name :: "handshake_state \<Rightarrow> string" where
  "state_name AwaitingRequest = ''AwaitingRequest''"
| "state_name AwaitingComplete = ''AwaitingComplete''"
| "state_name Completed = ''Completed''"
| "state_name Failed = ''Failed''"

record kms_context =
  ctx_session_id :: string
  ctx_target_id :: string

record handshake_handler =
  hs_state :: handshake_state
  agent_version :: "string option"
  session_type :: "negotiated_session_type option"
  kms :: "kms_context option"
  crypto :: "session_crypto option"

definition handler_new :: handshake_handler where
  "handler_new = \<lparr>hs_state = AwaitingRequest, agent_version = None, session_type = None,
     kms = None, crypto = None\<rparr>"

definition with_kms :: "kms_context \<Rightarrow> handshake_handler" where
  "with_kms ctx = handler_new\<lparr>kms := Some ctx\<rparr>"

definition success :: "action_type \<Rightarrow> json option \<Rightarrow> processed_client_action" where
  "success t result = \<lparr>processed_type = t, action_status = Success, action_result = result,
     action_error = None\<rparr>"

definition failure :: "action_type \<Rightarrow> msg \<Rightarrow> processed_client_action" where
  "failure t message = \<lparr>processed_type = t, action_status = Failed_Action, action_result = None,
     action_error = Some message\<rparr>"

definition handle_session_type ::
    "'z handshake_ext_scheme \<Rightarrow> requested_client_action \<Rightarrow> handshake_handler
      \<Rightarrow> processed_client_action \<times> handshake_handler" where
  "handle_session_type E action h =
    (case session_type_params E (action_parameters action) of
       Inr raw \<Rightarrow>
         let negotiated = (case parse_session_type raw of Some t \<Rightarrow> t | None \<Rightarrow> StandardStream) in
         (success SessionType None, h\<lparr>session_type := Some negotiated\<rparr>)
     | Inl e \<Rightarrow>
         (failure SessionType [Txt ''could not parse SessionType parameters: '', Str e], h))"

text \<open>Negotiating a key is a draw from the environment, numbered like the nonces and ids. It never
  panics (\<open>negotiate_never_panics\<close>), so the last branch is never taken.\<close>

definition handle_kms_encryption ::
    "'z handshake_ext_scheme \<Rightarrow> nat \<Rightarrow> requested_client_action \<Rightarrow> handshake_handler
      \<Rightarrow> processed_client_action \<times> handshake_handler" where
  "handle_kms_encryption E n action h =
    (if \<not> kms_feature E then
       (\<lparr>processed_type = KmsEncryption, action_status = Unsupported_Action, action_result = None,
         action_error = Some [Txt ''this build of aws-ssm-bridge was compiled without the `kms` feature, but the session preferences require encrypted sessions. Rebuild with `--features kms`, or disable \"Encrypt session data\" in the Session Manager preferences.'']\<rparr>, h)
     else case kms h of
       None \<Rightarrow> (failure KmsEncryption [Txt ''this session was created without a KMS client, so session encryption cannot be negotiated''], h)
     | Some ctx \<Rightarrow>
         case kms_params E (action_parameters action) of
           Inl e \<Rightarrow> (failure KmsEncryption [Txt ''could not parse KMSEncryption parameters: '', Str e], h)
         | Inr kms_key_id \<Rightarrow>
             case negotiate E n kms_key_id (ctx_session_id ctx) (ctx_target_id ctx) of
               Ok c \<Rightarrow>
                 (success KmsEncryption (Some (print_kms_response E (cipher_text_blob c))),
                  h\<lparr>crypto := Some c\<rparr>)
             | Err e \<Rightarrow>
                 (failure KmsEncryption ([Txt ''kms:GenerateDataKey failed for key '', Str kms_key_id, Txt '': '']
                    @ error_to_string e @ [Txt ''. The caller needs kms:GenerateDataKey on this key, and the target's instance profile needs kms:Decrypt.'']), h)
             | Panic \<Rightarrow> (failure KmsEncryption [], h))"

definition handle_action ::
    "'z handshake_ext_scheme \<Rightarrow> nat \<Rightarrow> requested_client_action \<Rightarrow> handshake_handler
      \<Rightarrow> processed_client_action \<times> handshake_handler" where
  "handle_action E n action h =
    (case requested_type action of
       SessionType \<Rightarrow> handle_session_type E action h
     | KmsEncryption \<Rightarrow> handle_kms_encryption E n action h)"

text \<open>The loop of \<^verbatim>\<open>on_request\<close>: the results in request order and the collected error strings.\<close>

fun process_actions ::
    "'z handshake_ext_scheme \<Rightarrow> nat \<Rightarrow> requested_client_action list \<Rightarrow> handshake_handler
      \<Rightarrow> processed_client_action list \<times> msg list \<times> handshake_handler" where
  "process_actions E n [] h = ([], [], h)"
| "process_actions E n (a # as) h =
    (let (r, h1) = handle_action E n a h;
         (rs, es, h2) = process_actions E (Suc n) as h1
     in (r # rs, (case action_error r of Some m \<Rightarrow> m # es | None \<Rightarrow> es), h2))"

definition on_request ::
    "'z handshake_ext_scheme \<Rightarrow> nat \<Rightarrow> handshake_request \<Rightarrow> handshake_handler
      \<Rightarrow> (handshake_response option, error) result \<times> handshake_handler" where
  "on_request E n request h =
    (if hs_state h = AwaitingComplete \<or> hs_state h = Completed then (Ok None, h)
     else if hs_state h = Failed then
       (Err (Protocol [Txt ''HandshakeRequest received after the handshake already failed'']), h)
     else
       let h0 = h\<lparr>agent_version := Some (req_agent_version request)\<rparr>;
           (processed, errs, h1) = process_actions E n (requested_client_actions request) h0;
           any_failed = list_ex (\<lambda>a. action_status a \<noteq> Success) processed;
           h2 = h1\<lparr>hs_state := if any_failed then Failed else AwaitingComplete\<rparr>
       in (Ok (Some \<lparr>client_version = CLIENT_PROTOCOL_VERSION,
             processed_client_actions = processed, resp_errors = errs\<rparr>), h2))"

definition on_complete ::
    "handshake_complete \<Rightarrow> handshake_handler \<Rightarrow> (string option, error) result \<times> handshake_handler" where
  "on_complete complete h =
    (if hs_state h \<noteq> AwaitingComplete then
       (Err (Protocol [Txt ''HandshakeComplete received in state '', Str (state_name (hs_state h))]), h)
     else (Ok (case customer_message complete of Some m \<Rightarrow> if m = [] then None else Some m | None \<Rightarrow> None),
           h\<lparr>hs_state := Completed\<rparr>))"

definition answer_challenge ::
    "'z handshake_ext_scheme \<Rightarrow> nat \<Rightarrow> bytes \<Rightarrow> handshake_handler \<Rightarrow> (bytes, error) result" where
  "answer_challenge E n challenge h =
    (case crypto h of
       None \<Rightarrow> Err (Protocol [Txt ''agent sent an encryption challenge but no key was negotiated''])
     | Some c \<Rightarrow>
         bind_result (decrypt E c challenge) (\<lambda>plaintext. encrypt E n c plaintext))"

definition response_payload :: "'z handshake_ext_scheme \<Rightarrow> handshake_response \<Rightarrow> (bytes, error) result" where
  "response_payload E r =
    (case response_to_vec E r of Ok bs \<Rightarrow> Ok bs | Err e \<Rightarrow> Err (Serialization e) | Panic \<Rightarrow> Panic)"

section \<open>Facts about one request\<close>

lemma handle_action_type [simp]: "processed_type (fst (handle_action E n a h)) = requested_type a"
  by (auto simp: handle_action_def handle_session_type_def handle_kms_encryption_def success_def
      failure_def Let_def split: action_type.split sum.split option.split result.split)

lemma handle_action_kept [simp]:
  "hs_state (snd (handle_action E n a h)) = hs_state h"
  "agent_version (snd (handle_action E n a h)) = agent_version h"
  "kms (snd (handle_action E n a h)) = kms h"
  by (auto simp: handle_action_def handle_session_type_def handle_kms_encryption_def Let_def
      split: action_type.split sum.split option.split result.split)

lemma handle_action_error:
  "action_error (fst (handle_action E n a h)) = None
     \<longleftrightarrow> action_status (fst (handle_action E n a h)) = Success"
  by (auto simp: handle_action_def handle_session_type_def handle_kms_encryption_def success_def
      failure_def Let_def split: action_type.split sum.split option.split result.split)

lemma handle_action_crypto_kept:
  "crypto h \<noteq> None \<Longrightarrow> crypto (snd (handle_action E n a h)) \<noteq> None"
  by (auto simp: handle_action_def handle_session_type_def handle_kms_encryption_def Let_def
      split: action_type.split sum.split option.split result.split)

lemma handle_action_key:
  assumes "requested_type a = KmsEncryption" and "action_status (fst (handle_action E n a h)) = Success"
  shows "kms_feature E \<and> crypto (snd (handle_action E n a h)) \<noteq> None"
  using assms
  by (auto simp: handle_action_def handle_kms_encryption_def failure_def
      split: if_splits sum.splits option.splits result.splits)

lemma handle_action_no_key:
  assumes "requested_type a \<noteq> KmsEncryption"
  shows "crypto (snd (handle_action E n a h)) = crypto h"
  using assms
  by (auto simp: handle_action_def handle_session_type_def Let_def
      split: action_type.splits sum.splits)

text \<open>One result per action, in request order; an error string for exactly the failed ones.\<close>

lemma process_actions_results:
  assumes "process_actions E n as h = (rs, es, h')"
  shows "map processed_type rs = map requested_type as \<and> hs_state h' = hs_state h
    \<and> agent_version h' = agent_version h
    \<and> es = List.map_filter action_error rs
    \<and> (\<forall>r \<in> set rs. action_error r = None \<longleftrightarrow> action_status r = Success)"
  using assms
proof (induction as arbitrary: n h rs es h')
  case (Cons a as)
  obtain r h1 where 1: "handle_action E n a h = (r, h1)" by (cases "handle_action E n a h")
  obtain rs1 es1 h2 where 2: "process_actions E (Suc n) as h1 = (rs1, es1, h2)"
    by (cases "process_actions E (Suc n) as h1")
  show ?case
    using Cons.prems Cons.IH [OF 2] 1 2 handle_action_type [of E n a h]
      handle_action_kept [of E n a h] handle_action_error [of E n a h]
    by (auto simp: List.map_filter_simps split: option.splits)
qed (auto simp: List.map_filter_simps)

lemma process_actions_crypto:
  assumes "process_actions E n as h = (rs, es, h')" and "\<forall>r \<in> set rs. action_status r = Success"
  shows "(crypto h' \<noteq> None \<longleftrightarrow> crypto h \<noteq> None \<or> KmsEncryption \<in> requested_type ` set as)
    \<and> (KmsEncryption \<in> requested_type ` set as \<longrightarrow> kms_feature E)"
  using assms
proof (induction as arbitrary: n h rs es h')
  case (Cons a as)
  obtain r h1 where 1: "handle_action E n a h = (r, h1)" by (cases "handle_action E n a h")
  obtain rs1 es1 h2 where 2: "process_actions E (Suc n) as h1 = (rs1, es1, h2)"
    by (cases "process_actions E (Suc n) as h1")
  have rs: "rs = r # rs1" and h': "h' = h2" using Cons.prems(1) 1 2 by auto
  have IH: "(crypto h2 \<noteq> None \<longleftrightarrow> crypto h1 \<noteq> None \<or> KmsEncryption \<in> requested_type ` set as)
    \<and> (KmsEncryption \<in> requested_type ` set as \<longrightarrow> kms_feature E)"
    using Cons.IH [OF 2] Cons.prems(2) rs by simp
  show ?case
  proof (cases "requested_type a = KmsEncryption")
    case True
    then show ?thesis
      using IH handle_action_key [of a E n h] Cons.prems(2) 1 rs h' by simp
  next
    case False
    then show ?thesis
      using IH handle_action_no_key [of a E n h] 1 h' by auto
  qed
qed simp

section \<open>Runs of the state machine\<close>

text \<open>
  The handshake messages of the agent in any order and number, each with the number of the first
  draw its handler may take; a run collects the requests that were answered, with the answers.
\<close>

datatype hs_event = Request nat handshake_request | Complete handshake_complete

fun hs_step ::
    "'z handshake_ext_scheme \<Rightarrow> hs_event \<Rightarrow> handshake_handler
      \<Rightarrow> (handshake_request \<times> handshake_response) list \<times> handshake_handler" where
  "hs_step E (Request n req) h =
    (case on_request E n req h of
       (Ok (Some resp), h') \<Rightarrow> ([(req, resp)], h')
     | (_, h') \<Rightarrow> ([], h'))"
| "hs_step E (Complete c) h = ([], snd (on_complete c h))"

fun hs_run ::
    "'z handshake_ext_scheme \<Rightarrow> hs_event list \<Rightarrow> handshake_handler
      \<Rightarrow> (handshake_request \<times> handshake_response) list \<times> handshake_handler" where
  "hs_run E [] h = ([], h)"
| "hs_run E (e # es) h =
    (let (r, h1) = hs_step E e h; (rs, h2) = hs_run E es h1 in (r @ rs, h2))"

text \<open>What an answered request tells about the handler.\<close>

definition answered :: "'z handshake_ext_scheme \<Rightarrow> handshake_request \<Rightarrow> handshake_response
    \<Rightarrow> handshake_handler \<Rightarrow> bool" where
  "answered E req resp h \<longleftrightarrow>
     map processed_type (processed_client_actions resp) = map requested_type (requested_client_actions req)
     \<and> resp_errors resp = List.map_filter action_error (processed_client_actions resp)
     \<and> agent_version h = Some (req_agent_version req)
     \<and> (hs_state h = Failed \<longleftrightarrow> resp_errors resp \<noteq> [])
     \<and> (hs_state h \<noteq> Failed \<longrightarrow>
          (\<forall>r \<in> set (processed_client_actions resp). action_status r = Success)
          \<and> (crypto h \<noteq> None \<longleftrightarrow> KmsEncryption \<in> requested_type ` set (requested_client_actions req))
          \<and> (crypto h \<noteq> None \<longrightarrow> kms_feature E))"

definition hs_inv :: "'z handshake_ext_scheme \<Rightarrow> (handshake_request \<times> handshake_response) list
    \<Rightarrow> handshake_handler \<Rightarrow> bool" where
  "hs_inv E rs h \<longleftrightarrow>
     (rs = [] \<and> hs_state h = AwaitingRequest \<and> crypto h = None)
     \<or> (\<exists>req resp. rs = [(req, resp)] \<and> hs_state h \<noteq> AwaitingRequest \<and> answered E req resp h)"

lemma map_filter_Nil_iff: "List.map_filter f xs = [] \<longleftrightarrow> (\<forall>x \<in> set xs. f x = None)"
  by (induction xs) (auto simp: List.map_filter_simps split: option.splits)

lemma on_request_answers:
  assumes "hs_state h = AwaitingRequest" and "crypto h = None"
  shows "\<exists>resp h'. on_request E n req h = (Ok (Some resp), h')
     \<and> hs_state h' \<noteq> AwaitingRequest \<and> answered E req resp h'"
proof -
  let ?h0 = "h\<lparr>agent_version := Some (req_agent_version req)\<rparr>"
  let ?as = "requested_client_actions req"
  obtain rs es h1 where p: "process_actions E n ?as ?h0 = (rs, es, h1)"
    by (cases "process_actions E n ?as ?h0")
  note facts = process_actions_results [OF p]
  let ?failed = "list_ex (\<lambda>a. action_status a \<noteq> Success) rs"
  let ?resp = "\<lparr>client_version = CLIENT_PROTOCOL_VERSION, processed_client_actions = rs,
    resp_errors = es\<rparr>"
  let ?h2 = "h1\<lparr>hs_state := if ?failed then Failed else AwaitingComplete\<rparr>"
  have failed: "?failed \<longleftrightarrow> es \<noteq> []"
    using facts by (auto simp: list_ex_iff map_filter_Nil_iff)
  have "answered E req ?resp ?h2"
    using facts failed process_actions_crypto [OF p] assms(2)
    by (auto simp: answered_def list_ex_iff)
  moreover have "on_request E n req h = (Ok (Some ?resp), ?h2)"
    using assms(1) p by (simp add: on_request_def Let_def)
  ultimately show ?thesis by (intro exI [of _ ?resp] exI [of _ ?h2]) simp
qed

lemma hs_inv_step:
  assumes "hs_inv E rs h" and "hs_step E e h = (r, h')"
  shows "hs_inv E (rs @ r) h'"
proof (cases e)
  case (Request n req)
  show ?thesis
  proof (cases "hs_state h = AwaitingRequest")
    case True
    with assms(1) have "rs = []" "crypto h = None" by (auto simp: hs_inv_def)
    with True on_request_answers [of h E n req] assms(2) Request show ?thesis
      by (auto simp: hs_inv_def)
  next
    case False
    then have "r = [] \<and> h' = h"
      using assms(2) Request by (cases "hs_state h") (auto simp: on_request_def)
    with assms(1) show ?thesis by simp
  qed
next
  case (Complete c)
  with assms show ?thesis
    by (cases "hs_state h = AwaitingComplete") (auto simp: hs_inv_def on_complete_def answered_def)
qed

lemma hs_inv_run:
  assumes "hs_inv E rs h" and "hs_run E es h = (rs', h')"
  shows "hs_inv E (rs @ rs') h'"
  using assms
proof (induction es arbitrary: rs h rs')
  case (Cons e es)
  obtain r h1 where 1: "hs_step E e h = (r, h1)" by (cases "hs_step E e h")
  obtain rs1 h2 where 2: "hs_run E es h1 = (rs1, h2)" by (cases "hs_run E es h1")
  show ?case
    using Cons.IH [OF hs_inv_step [OF Cons.prems(1) 1], of rs1] Cons.prems(2) 1 2 by simp
qed simp

lemma hs_inv_new:
  "hs_inv E [] handler_new" "hs_inv E [] (with_kms ctx)"
  by (simp_all add: hs_inv_def handler_new_def with_kms_def)

section \<open>Properties\<close>

text \<open>
  (C19) Whatever handshake messages arrive, duplicated or out of order, the client answers at most
  one request. The answer reports on every requested action in request order with an error string
  for each one that failed; the handshake has failed exactly if there is such an error, and
  otherwise every action succeeded.
\<close>

theorem handshake_answers_once:
  assumes "h0 = handler_new \<or> h0 = with_kms ctx"
    and "hs_run E events h0 = (answers, h)"
  shows "(answers = [] \<and> hs_state h = AwaitingRequest)
    \<or> (\<exists>req resp. answers = [(req, resp)] \<and> hs_state h \<noteq> AwaitingRequest
        \<and> map processed_type (processed_client_actions resp)
            = map requested_type (requested_client_actions req)
        \<and> resp_errors resp = List.map_filter action_error (processed_client_actions resp)
        \<and> (hs_state h = Failed \<longleftrightarrow> resp_errors resp \<noteq> [])
        \<and> (hs_state h \<noteq> Failed \<longrightarrow>
            (\<forall>r \<in> set (processed_client_actions resp). action_status r = Success)))"
proof -
  have "hs_inv E [] h0" using assms(1) hs_inv_new by metis
  from hs_inv_run [OF this assms(2)] show ?thesis
    by (auto simp: hs_inv_def answered_def)
qed

text \<open>A concrete environment for the witnesses.\<close>

definition toy_handshake_ext :: handshake_ext where
  "toy_handshake_ext = crypto_ext.extend toy_crypto_ext
    \<lparr>kms_feature = True, base64_encode = of_bytes, base64_decode = (\<lambda>s. Ok (as_bytes s))\<rparr>"

definition sample_request :: handshake_request where
  "sample_request = \<lparr>req_agent_version = ''3.2'', requested_client_actions =
     [\<lparr>requested_type = SessionType, action_parameters = JObj [(''SessionType'', JStr ''Port'')]\<rparr>,
      \<lparr>requested_type = KmsEncryption, action_parameters = JObj [(''KMSKeyId'', JStr ''key'')]\<rparr>]\<rparr>"

lemma toy_handshake_fields [simp]:
  "kms_feature toy_handshake_ext" "session_type_params E (JObj [(''SessionType'', JStr s)]) = Inr s"
  "kms_params E (JObj [(''KMSKeyId'', JStr s)]) = Inr s"
  by (simp_all add: toy_handshake_ext_def crypto_ext.defs session_type_params_def kms_params_def from_value_def
      read_struct1_def)

theorem handshake_answers_once_witness:
  "\<exists>req resp h. hs_run toy_handshake_ext [Request 0 sample_request, Request 9 sample_request] handler_new
      = ([(req, resp)], h)
     \<and> hs_state h = Failed \<and> resp_errors resp \<noteq> []
     \<and> map processed_type (processed_client_actions resp) = [SessionType, KmsEncryption]"
proof -
  let ?es = "[Request 0 sample_request, Request 9 sample_request]"
  obtain answers h where run: "hs_run toy_handshake_ext ?es handler_new = (answers, h)"
    by (cases "hs_run toy_handshake_ext ?es handler_new")
  have "answers \<noteq> [] \<and> fst (hd answers) = sample_request \<and> hs_state h = Failed"
    using run
    by (auto simp: on_request_def handler_new_def sample_request_def handle_action_def
        handle_session_type_def handle_kms_encryption_def success_def failure_def
        parse_session_type_def)
  then show ?thesis
    using handshake_answers_once [OF disjI1 [OF refl] run] run
    by (auto simp: sample_request_def)
qed

text \<open>
  (C20) No silent downgrade: if the agent asked for encryption and the handshake has not failed,
  a session key is in place and the build supports encryption; and a key is only ever in place
  because the agent asked for it.
\<close>

theorem no_silent_downgrade:
  assumes "h0 = handler_new \<or> h0 = with_kms ctx"
    and "hs_run E events h0 = ([(req, resp)], h)" and "hs_state h \<noteq> Failed"
  shows "(KmsEncryption \<in> requested_type ` set (requested_client_actions req) \<longleftrightarrow> crypto h \<noteq> None)
    \<and> (crypto h \<noteq> None \<longrightarrow> kms_feature E)"
proof -
  have "hs_inv E [] h0" using assms(1) hs_inv_new by metis
  from hs_inv_run [OF this assms(2)] assms(3) show ?thesis
    by (auto simp: hs_inv_def answered_def)
qed

lemma toy_negotiate:
  "negotiate toy_handshake_ext n key sid tid = from_key_material toy_data_key [42]"
  by (simp add: negotiate_def toy_handshake_ext_def toy_crypto_ext_def wire_ext.defs crypto_ext.defs)

theorem no_silent_downgrade_witness:
  "\<exists>resp h. hs_run toy_handshake_ext [Request 0 sample_request]
        (with_kms \<lparr>ctx_session_id = ''s'', ctx_target_id = ''t''\<rparr>) = ([(sample_request, resp)], h)
     \<and> hs_state h = AwaitingComplete \<and> crypto h \<noteq> None"
proof -
  let ?h0 = "with_kms \<lparr>ctx_session_id = ''s'', ctx_target_id = ''t''\<rparr>"
  have key: "\<exists>c. from_key_material toy_data_key [42] = Ok c"
    by (simp add: from_key_material_Ok toy_data_key_def)
  then obtain resp h where run: "hs_run toy_handshake_ext [Request 0 sample_request] ?h0 = ([(sample_request, resp)], h)"
    and st: "hs_state h = AwaitingComplete"
    by (auto simp: on_request_def with_kms_def handler_new_def sample_request_def handle_action_def
        handle_session_type_def handle_kms_encryption_def success_def toy_negotiate
        parse_session_type_def)
  have "KmsEncryption \<in> requested_type ` set (requested_client_actions sample_request)"
    by (simp add: sample_request_def)
  then show ?thesis
    using no_silent_downgrade [OF disjI2 [OF refl] run] run st by auto
qed

text \<open>
  The encryption challenge proves key agreement: the client's answer to a challenge that the
  agent encrypted decrypts, on the agent's side, to the challenge itself.
\<close>

theorem challenge_proves_key_agreement:
  assumes "aead_ok E" and "crypto h = Some c" and "mirrored c agent"
    and "encrypt E n agent p = Ok challenge"
    and "answer_challenge E k challenge h = Ok answer"
  shows "decrypt E agent answer = Ok p"
proof -
  have "decrypt E c challenge = Ok p"
    using mirrored_transport [OF assms(1) mirrored_sym [OF assms(3)] assms(4)] by simp
  then have "encrypt E k c p = Ok answer"
    using assms(2,5) by (simp add: answer_challenge_def)
  then show ?thesis
    using mirrored_transport [OF assms(1,3)] by blast
qed

theorem challenge_proves_key_agreement_witness:
  "\<exists>c agent challenge answer.
     answer_challenge toy_handshake_ext 3 challenge (handler_new\<lparr>crypto := Some c\<rparr>) = Ok answer
     \<and> encrypt toy_handshake_ext 2 agent [8, 9] = Ok challenge
     \<and> decrypt toy_handshake_ext agent answer = Ok [8, 9]"
proof -
  let ?E = toy_handshake_ext
  let ?c = "\<lparr>cipher_text_blob = [], encrypt_key = replicate 32 1, decrypt_key = replicate 32 2\<rparr>"
  let ?a = "\<lparr>cipher_text_blob = [], encrypt_key = replicate 32 2, decrypt_key = replicate 32 1\<rparr>"
  have "aead_ok ?E = aead_ok toy_crypto_ext"
    by (simp add: aead_ok_def toy_handshake_ext_def crypto_ext.defs)
  with toy_aead_ok have ok: "aead_ok ?E" by simp
  have mir: "mirrored ?c ?a" by (simp add: mirrored_def)
  have enc: "\<exists>f. encrypt ?E n d q = Ok f" for n d q
    by (simp add: encrypt_def Let_def toy_handshake_ext_def toy_crypto_ext_def toy_aes_encrypt_def
        wire_ext.defs crypto_ext.defs)
  obtain ch where ch: "encrypt ?E 2 ?a [8, 9] = Ok ch" using enc by blast
  have "decrypt ?E ?c ch = Ok [8, 9]"
    using mirrored_transport [OF ok mirrored_sym [OF mir] ch] by simp
  then obtain ans where ans: "answer_challenge ?E 3 ch (handler_new\<lparr>crypto := Some ?c\<rparr>) = Ok ans"
    using enc [of 3 ?c "[8, 9]"] by (auto simp: answer_challenge_def)
  from challenge_proves_key_agreement [OF ok _ mir ch ans] ch ans show ?thesis by auto
qed

end
