(* ===== verification/Session_Core.thy ===== *)
theory Session_Core
  imports Channels Handshake
begin

text \<open>
  The state a session shares with the tasks that drive its channel: \<^verbatim>\<open>CloseReason\<close> and
  \<^verbatim>\<open>SessionCore\<close> of \<^verbatim>\<open>src/session.rs\<close>, and \<^verbatim>\<open>Continuity\<close> of \<^verbatim>\<open>src/connection.rs\<close>, the part that
  survives a rebuilt channel. The wake-ups that these operations send are the subject of theory
  Notify; here are the flags and values they publish.
\<close>

section \<open>Close reasons\<close>

datatype close_reason =
    Terminated
  | AgentClosed (agent_exit_code: "int option") (detail: "string option")
  | PeerUnresponsive (idle: duration)
  | DeliveryFailed (failed_sequence: i64) (failed_attempts: nat)
  | Transport_Failure msg
  | Protocol_Failure msg

fun reason_to_string :: "close_reason \<Rightarrow> msg" where
  "reason_to_string Terminated = [Txt ''terminated by the local application'']"
| "reason_to_string (AgentClosed code d) =
    [Txt ''the agent closed the session'']
    @ (case d of Some s \<Rightarrow> [Txt '': '', Str s] | None \<Rightarrow> [])
    @ (case code of Some c \<Rightarrow> [Txt '' (exit code '', Num c, Txt '')''] | None \<Rightarrow> [])"
| "reason_to_string (PeerUnresponsive d) = [Txt ''no traffic from the agent for '', Dur d]"
| "reason_to_string (DeliveryFailed s n) =
    [Txt ''message '', Num (sint s), Txt '' was never acknowledged after '', Num (int n), Txt '' attempts'']"
| "reason_to_string (Transport_Failure e) = Txt ''transport failure: '' # e"
| "reason_to_string (Protocol_Failure e) = Txt ''protocol failure: '' # e"

fun is_recoverable :: "close_reason \<Rightarrow> bool" where
  "is_recoverable (PeerUnresponsive _) = True"
| "is_recoverable (DeliveryFailed _ _) = True"
| "is_recoverable (Transport_Failure _) = True"
| "is_recoverable _ = False"

fun is_resumable :: "close_reason \<Rightarrow> bool" where
  "is_resumable (PeerUnresponsive _) = True"
| "is_resumable (Transport_Failure _) = True"
| "is_resumable _ = False"

lemma resumable_recoverable:
  "is_resumable r \<longleftrightarrow> is_recoverable r \<and> (\<forall>s n. r \<noteq> DeliveryFailed s n)"
  by (cases r) auto

section \<open>The shared session state\<close>

record session_core =
  session_id :: string
  fanout :: output_fanout
  subscriber_capacity :: nat
  is_sendable :: bool
  is_closed :: bool
  close_reason :: "close_reason option"
  core_agent_version :: "string option"
  banner :: "string option"
  exit_code :: "int option"

definition core_new :: "string \<Rightarrow> nat \<Rightarrow> session_core" where
  "core_new sid capacity = \<lparr>session_id = sid, fanout = fanout_new, subscriber_capacity = capacity,
     is_sendable = False, is_closed = False, close_reason = None, core_agent_version = None,
     banner = None, exit_code = None\<rparr>"

definition core_close :: "close_reason \<Rightarrow> session_core \<Rightarrow> session_core" where
  "core_close reason c =
    (if is_closed c then c
     else c\<lparr>is_closed := True, close_reason := Some reason, fanout := fanout_close (fanout c)\<rparr>)"

definition set_sendable :: "bool \<Rightarrow> session_core \<Rightarrow> session_core" where
  "set_sendable b c = c\<lparr>is_sendable := b\<rparr>"

definition emit_output :: "bytes \<Rightarrow> session_core \<Rightarrow> session_core" where
  "emit_output data c = c\<lparr>fanout := fanout_send data (fanout c)\<rparr>"

definition core_subscribe :: "session_core \<Rightarrow> nat \<times> session_core" where
  "core_subscribe c =
    (let (i, f) = subscribe (subscriber_capacity c) (fanout c) in (i, c\<lparr>fanout := f\<rparr>))"

text \<open>\<^verbatim>\<open>OnceLock::set\<close> keeps the first value.\<close>

definition once_set :: "'a \<Rightarrow> 'a option \<Rightarrow> 'a option" where
  "once_set x cell = (case cell of None \<Rightarrow> Some x | Some y \<Rightarrow> Some y)"

definition set_agent_version :: "string option \<Rightarrow> session_core \<Rightarrow> session_core" where
  "set_agent_version version c =
    (case version of
       Some v \<Rightarrow> c\<lparr>core_agent_version := once_set v (core_agent_version c)\<rparr>
     | None \<Rightarrow> c)"

definition set_session_banner :: "string option \<Rightarrow> session_core \<Rightarrow> session_core" where
  "set_session_banner b c = c\<lparr>banner := b\<rparr>"

definition set_exit_code :: "int option \<Rightarrow> session_core \<Rightarrow> session_core" where
  "set_exit_code code c = (if code \<noteq> None then c\<lparr>exit_code := code\<rparr> else c)"

section \<open>The state that survives a channel\<close>

definition MAX_RETRANSMIT_ATTEMPTS :: nat where "MAX_RETRANSMIT_ATTEMPTS = 3000"
definition MESSAGE_BUFFER_CAPACITY :: nat where "MESSAGE_BUFFER_CAPACITY = 10000"

record continuity =
  stream_sequence :: i64
  outgoing :: outgoing_buffer
  expected :: i64
  incoming :: incoming_buffer
  stream_crypto :: "session_crypto option"

definition continuity_fresh :: continuity where
  "continuity_fresh = \<lparr>stream_sequence = 0,
     outgoing = out_new MESSAGE_BUFFER_CAPACITY MAX_RETRANSMIT_ATTEMPTS,
     expected = 0, incoming = inc_new MESSAGE_BUFFER_CAPACITY, stream_crypto = None\<rparr>"

definition set_crypto :: "session_crypto \<Rightarrow> continuity \<Rightarrow> continuity" where
  "set_crypto c k = k\<lparr>stream_crypto := once_set c (stream_crypto k)\<rparr>"

section \<open>Runs of the session core\<close>

lemma once_set_simps [simp]:
  "once_set x None = Some x" "once_set x (Some y) = Some y"
  by (simp_all add: once_set_def)

text \<open>Every operation any task performs on the core, as data.\<close>

datatype core_op =
    CloseCore close_reason | SetSendable bool | Emit bytes | SubscribeCore
  | SetVersion "string option" | SetBanner "string option" | SetExit "int option"
  | ReadStream nat | DropReader nat

fun core_step :: "core_op \<Rightarrow> session_core \<Rightarrow> session_core" where
  "core_step (CloseCore r) c = core_close r c"
| "core_step (SetSendable b) c = set_sendable b c"
| "core_step (Emit d) c = emit_output d c"
| "core_step SubscribeCore c = snd (core_subscribe c)"
| "core_step (SetVersion v) c = set_agent_version v c"
| "core_step (SetBanner b) c = set_session_banner b c"
| "core_step (SetExit e) c = set_exit_code e c"
| "core_step (ReadStream i) c = c\<lparr>fanout := snd (stream_recv i (fanout c))\<rparr>"
| "core_step (DropReader i) c = c\<lparr>fanout := stream_drop i (fanout c)\<rparr>"

definition core_run :: "core_op list \<Rightarrow> session_core \<Rightarrow> session_core" where
  "core_run ops c = fold core_step ops c"

text \<open>A closed core has a reason and a closed fan-out; an open one has neither.\<close>

definition core_inv :: "session_core \<Rightarrow> bool" where
  "core_inv c \<longleftrightarrow> fan_inv (fanout c) \<and> (is_closed c \<longleftrightarrow> fan_closed (fanout c))
     \<and> (is_closed c \<longleftrightarrow> close_reason c \<noteq> None)"

lemma fan_closed_kept [simp]:
  "fan_closed (fanout_send d f) = fan_closed f"
  "fan_closed (snd (subscribe n f)) = fan_closed f"
  "fan_closed (snd (stream_recv i f)) = fan_closed f"
  "fan_closed (stream_drop i f) = fan_closed f"
  "fan_closed (fanout_close f)"
  by (simp_all add: fanout_send_def subscribe_def stream_recv_def stream_drop_def fanout_close_def
      Let_def split_beta)

lemmas core_ops = core_close_def set_sendable_def emit_output_def core_subscribe_def
  set_agent_version_def set_session_banner_def set_exit_code_def

lemma core_inv_new: "core_inv (core_new sid n)"
  by (simp add: core_inv_def core_new_def fan_inv_new) (simp add: fanout_new_def)

lemma core_inv_step: "core_inv c \<Longrightarrow> core_inv (core_step op c)"
  by (cases op)
    (auto simp: core_inv_def core_ops split_beta fan_inv_send fan_inv_close fan_inv_subscribe
      fan_inv_recv fan_inv_drop split: option.splits)

lemma core_inv_run: "core_inv c \<Longrightarrow> core_inv (core_run ops c)"
  unfolding core_run_def by (induction ops arbitrary: c) (auto simp: core_inv_step)

lemma closed_core_stable:
  assumes "is_closed c"
  shows "is_closed (core_step op c) \<and> close_reason (core_step op c) = close_reason c"
  using assms by (cases op) (auto simp: core_ops split_beta split: option.splits)

lemma closed_core_stable_run:
  assumes "is_closed c"
  shows "is_closed (core_run ops c) \<and> close_reason (core_run ops c) = close_reason c"
  using assms unfolding core_run_def
  by (induction ops arbitrary: c) (simp_all add: closed_core_stable)

section \<open>Properties\<close>

text \<open>
  Only the first close counts. Whatever tasks do before and after, the reason given to the
  first close of a session is the one reported for ever; the session is closed exactly if it has
  a reason; and from then on no output stream of it can block.
\<close>

theorem first_close_reason_wins:
  assumes "\<not> is_closed (core_run before (core_new sid n))"
  shows "let c = core_run after (core_close r (core_run before (core_new sid n))) in
    is_closed c \<and> close_reason c = Some r
    \<and> (\<forall>i < length (store (fanout c)). fst (stream_recv i (fanout c)) \<noteq> Waiting)"
proof -
  let ?b = "core_run before (core_new sid n)"
  let ?c = "core_run after (core_close r ?b)"
  have closed: "is_closed (core_close r ?b)" "close_reason (core_close r ?b) = Some r"
    using assms by (simp_all add: core_close_def)
  have "core_inv (core_close r ?b)"
    using core_inv_step [of ?b "CloseCore r"] core_inv_run [OF core_inv_new] by simp
  then have "core_inv ?c" by (rule core_inv_run)
  moreover have "is_closed ?c \<and> close_reason ?c = Some r"
    using closed_core_stable_run [OF closed(1)] closed(2) by simp
  ultimately show ?thesis
    by (auto simp: Let_def core_inv_def fan_inv_def stream_recv_def recv_def split_beta
        split: list.splits)
qed

theorem first_close_reason_wins_witness:
  "let c = core_run [CloseCore Terminated, SubscribeCore] (core_close (PeerUnresponsive (secs 9))
        (core_run [SubscribeCore, Emit [1]] (core_new ''s-1'' 4)))
   in close_reason c = Some (PeerUnresponsive (secs 9)) \<and> fst (stream_recv 1 (fanout c)) \<noteq> Waiting"
proof -
  have open0: "\<not> is_closed (core_run [SubscribeCore, Emit [1]] (core_new ''s-1'' 4))"
    by (simp add: core_run_def core_ops core_new_def split_beta)
  have len: "1 < length (store (fanout (core_run [CloseCore Terminated, SubscribeCore]
      (core_close (PeerUnresponsive (secs 9)) (core_run [SubscribeCore, Emit [1]] (core_new ''s-1'' 4))))))"
    by (simp add: core_run_def core_ops core_new_def split_beta subscribe_def fanout_send_def
        fanout_new_def fanout_close_def Let_def)
  from first_close_reason_wins [OF open0, of "[CloseCore Terminated, SubscribeCore]" "PeerUnresponsive (secs 9)"]
    len show ?thesis by (simp add: Let_def)
qed

end
