(* ===== verification/Outbound.thy ===== *)
theory Outbound
  imports Session_Core
begin

text \<open>
  The outbound half of \<^verbatim>\<open>src/connection.rs\<close>: the state the channel's tasks share, the writer task
  and the path of a payload from the caller to the writer's queue.

  A call that waits is modelled by what ends the wait. Waiting for room in the writer's queue ends
  when the writer task takes a frame, so \<open>write_frame\<close> lets it do so. Waiting for room in the outgoing
  buffer, or for the lock on the sequence counter, ends by what other tasks do, so the call
  returns \<open>Waits\<close> (with the serialized message when it already holds the lock) and the task
  that made it is resumed later.
\<close>

section \<open>State\<close>

datatype ws_message =
    Text string | Binary bytes | Ping bytes | Pong bytes | CloseFrame "string option" | RawFrame bytes

datatype command = Data bytes | Control payload_type bytes

text \<open>The input that a command carries to the remote process.\<close>

definition command_data :: "command \<Rightarrow> bytes" where
  "command_data cmd = (case cmd of Data bs \<Rightarrow> bs | Control _ _ \<Rightarrow> [])"

definition WRITER_QUEUE_DEPTH :: nat where "WRITER_QUEUE_DEPTH = 1024"
definition COMMAND_QUEUE_DEPTH :: nat where "COMMAND_QUEUE_DEPTH = 256"

text \<open>
  Besides the fields of \<^verbatim>\<open>ChannelState\<close>: the receiving ends of the two queues, the frames that
  reached the socket, whether the socket still accepts frames, the command the command task works
  on, the message it is in the middle of sending with the data still to come, the lock on the
  sequence counter, the monotonic clock, and the number of draws from the environment so far.
\<close>

record channel_state =
  core :: session_core
  stream :: continuity
  last_inbound :: instant
  chunk_size :: nat
  writer :: "ws_message channel"
  on_socket :: "ws_message list"
  sink_broken :: bool
  commands :: "command channel"
  held_command :: "command option"
  sending :: "(bytes \<times> bytes) option"
  sequence_locked :: bool
  clock :: instant
  draws :: nat

datatype 'a io = Done "('a, error) result" | Waits "bytes option"

fun bind_io :: "'a io \<times> 's \<Rightarrow> ('a \<Rightarrow> 's \<Rightarrow> 'b io \<times> 's) \<Rightarrow> 'b io \<times> 's" where
  "bind_io (Done (Ok a), s) f = f a s"
| "bind_io (Done (Err e), s) f = (Done (Err e), s)"
| "bind_io (Done Panic, s) f = (Done Panic, s)"
| "bind_io (Waits w, s) f = (Waits w, s)"

definition close_core :: "close_reason \<Rightarrow> 'z channel_state_scheme \<Rightarrow> 'z channel_state_scheme" where
  "close_core r s = s\<lparr>core := core_close r (core s)\<rparr>"

abbreviation closed_now :: "'z channel_state_scheme \<Rightarrow> bool" where
  "closed_now s \<equiv> is_closed (core s)"

definition mark_inbound :: "'z channel_state_scheme \<Rightarrow> 'z channel_state_scheme" where
  "mark_inbound s = s\<lparr>last_inbound := clock s\<rparr>"

definition idle_for :: "'z channel_state_scheme \<Rightarrow> duration" where
  "idle_for s = elapsed (clock s) (last_inbound s)"

section \<open>The writer\<close>

definition stop_writer :: "'z channel_state_scheme \<Rightarrow> 'z channel_state_scheme" where
  "stop_writer s = s\<lparr>writer := drop_rx (writer s),
     on_socket := if sink_broken s then on_socket s else on_socket s @ [CloseFrame None]\<rparr>"

text \<open>One round of the writer task's loop; \<^const>\<open>False\<close> when it was the last.\<close>

definition writer_step :: "'z channel_state_scheme \<Rightarrow> bool \<times> 'z channel_state_scheme" where
  "writer_step s =
    (if rx_gone (writer s) then (False, s)
     else if closed_now s then (False, stop_writer s)
     else case recv (writer s) of
       (Got m, q) \<Rightarrow>
         let s1 = s\<lparr>writer := q\<rparr> in
         if sink_broken s1 then
           (False, stop_writer (if closed_now s1 then s1
              else close_core (Transport_Failure [Txt ''WebSocket write failed: '', Foreign]) s1))
         else (True, s1\<lparr>on_socket := on_socket s1 @ [m]\<rparr>)
     | (Ended, _) \<Rightarrow> (False, stop_writer s)
     | (Waiting, _) \<Rightarrow> (True, s))"

definition write_frame :: "ws_message \<Rightarrow> 'z channel_state_scheme \<Rightarrow> (unit, error) result \<times> 'z channel_state_scheme" where
  "write_frame m s =
    (let s1 = (if length (queued (writer s)) < depth (writer s) then s else snd (writer_step s)) in
     case try_send m (writer s1) of
       (Sent, q) \<Rightarrow> (Ok (), s1\<lparr>writer := q\<rparr>)
     | (_, _) \<Rightarrow> (Err (Transport [Txt ''the data channel writer has stopped'']), s1))"

definition try_write :: "ws_message \<Rightarrow> 'z channel_state_scheme \<Rightarrow> bool \<times> 'z channel_state_scheme" where
  "try_write m s = (let (r, q) = try_send m (writer s) in (r = Sent, s\<lparr>writer := q\<rparr>))"

section \<open>Sending\<close>

definition seal_payload ::
    "'e crypto_ext_scheme \<Rightarrow> payload_type \<Rightarrow> bytes \<Rightarrow> 'z channel_state_scheme
      \<Rightarrow> (bytes, error) result \<times> 'z channel_state_scheme" where
  "seal_payload E pt pl s =
    (case stream_crypto (stream s) of
       Some c \<Rightarrow> if pt = Output then (encrypt E (draws s) c pl, s\<lparr>draws := Suc (draws s)\<rparr>) else (Ok pl, s)
     | None \<Rightarrow> (Ok pl, s))"

text \<open>The message is built once, under the lock, with the current sequence number.\<close>

definition build_outbound ::
    "'e wire_ext_scheme \<Rightarrow> payload_type \<Rightarrow> bytes \<Rightarrow> 'z channel_state_scheme
      \<Rightarrow> bytes \<times> 'z channel_state_scheme" where
  "build_outbound E pt pl s =
    (serialize (fresh_message E (draws s) InputStreamData (stream_sequence (stream s)) pt pl),
     s\<lparr>draws := Suc (draws s)\<rparr>)"

text \<open>One turn of the loop that waits for room, then the enqueue, with the lock held.\<close>

definition track_and_write ::
    "bytes \<Rightarrow> 'z channel_state_scheme \<Rightarrow> unit io \<times> 'z channel_state_scheme" where
  "track_and_write frame s =
    (let k = stream s in
     case track (clock s) frame (stream_sequence k) (outgoing k) of
       (True, b) \<Rightarrow>
         let (r, s1) = write_frame (Binary frame)
               (s\<lparr>stream := k\<lparr>outgoing := b, stream_sequence := stream_sequence k + 1\<rparr>\<rparr>)
         in (Done r, s1)
     | (False, _) \<Rightarrow>
         if closed_now s
         then (Done (Err (SessionClosed [Txt ''session closed while waiting for acknowledgements''])), s)
         else (Waits (Some frame), s))"

definition send_payload ::
    "'e crypto_ext_scheme \<Rightarrow> payload_type \<Rightarrow> bytes \<Rightarrow> 'z channel_state_scheme
      \<Rightarrow> unit io \<times> 'z channel_state_scheme" where
  "send_payload E pt pl s =
    (case seal_payload E pt pl s of
       (Ok sealed, s1) \<Rightarrow>
         if sequence_locked s1 then (Waits None, s1)
         else let (frame, s2) = build_outbound E pt sealed s1 in track_and_write frame s2
     | (Err e, s1) \<Rightarrow> (Done (Err e), s1)
     | (Panic, s1) \<Rightarrow> (Done Panic, s1))"

text \<open>
  The loop over the chunks. It also returns the data behind the chunk it stopped at. A chunk sz
  of zero would make no progress; \<^verbatim>\<open>connect\<close> clamps it to at least one.
\<close>

function send_stream_data ::
    "'e crypto_ext_scheme \<Rightarrow> bytes \<Rightarrow> 'z channel_state_scheme
      \<Rightarrow> unit io \<times> bytes \<times> 'z channel_state_scheme" where
  "send_stream_data E data s =
    (if data = [] \<or> chunk_size s = 0 then (Done (Ok ()), [], s)
     else case send_payload E Output (take (chunk_size s) data) s of
       (Done (Ok _), s1) \<Rightarrow> send_stream_data E (drop (chunk_size s) data) s1
     | (r, s1) \<Rightarrow> (r, drop (chunk_size s) data, s1))"
  by pat_completeness auto
termination
  by (relation "measure (\<lambda>(E, data, s). length data)") auto

declare send_stream_data.simps [simp del]

section \<open>The command task\<close>

text \<open>What the task does with the outcome of a send; the lock it holds while a message waits for room goes with it.\<close>

definition after_send ::
    "unit io \<Rightarrow> bytes \<Rightarrow> 'z channel_state_scheme \<Rightarrow> bool \<times> 'z channel_state_scheme" where
  "after_send r rest s =
    (case r of
       Done (Ok _) \<Rightarrow>
         (True, s\<lparr>held_command := None, sending := None, sequence_locked := (sequence_locked s \<and> sending s = None)\<rparr>)
     | Done (Err e) \<Rightarrow>
         let s1 = s\<lparr>held_command := None, sending := None, sequence_locked := (sequence_locked s \<and> sending s = None),
               commands := drop_rx (commands s)\<rparr> in
         (False, if closed_now s1 then s1 else close_core (Transport_Failure (error_to_string e)) s1)
     | Done Panic \<Rightarrow> (False, s\<lparr>commands := drop_rx (commands s)\<rparr>)
     | Waits (Some frame) \<Rightarrow> (True, s\<lparr>sending := Some (frame, rest), sequence_locked := True\<rparr>)
     | Waits None \<Rightarrow> (True, s))"

text \<open>
  One step of the command task: take the next command, or, once the agent listens, carry it out;
  a send that waited for room resumes with the message it has built and goes on with the rest.
  A control command, or the tail of the data, has nothing after it. While the task waits for the
  lock nothing of the command has been sent.
\<close>

definition command_step ::
    "'e crypto_ext_scheme \<Rightarrow> 'z channel_state_scheme \<Rightarrow> bool \<times> 'z channel_state_scheme" where
  "command_step E s =
    (case sending s of
       Some (frame, rest) \<Rightarrow>
         (case track_and_write frame s of
            (Done (Ok _), s1) \<Rightarrow>
              let (r, rest', s2) = send_stream_data E rest (s1\<lparr>sending := None, sequence_locked := False\<rparr>)
              in after_send r rest' s2
          | (r, s1) \<Rightarrow> after_send r rest s1)
     | None \<Rightarrow>
         if closed_now s then (False, s\<lparr>commands := drop_rx (commands s)\<rparr>)
         else case held_command s of
           None \<Rightarrow>
             (case recv (commands s) of
                (Got c, q) \<Rightarrow> (True, s\<lparr>commands := q, held_command := Some c\<rparr>)
              | (Ended, _) \<Rightarrow> (False, s\<lparr>commands := drop_rx (commands s)\<rparr>)
              | (Waiting, _) \<Rightarrow> (True, s))
         | Some c \<Rightarrow>
             if \<not> is_sendable (core s) then (True, s)
             else (case c of
                 Data bs \<Rightarrow> let (r, rest, s1) = send_stream_data E bs s in after_send r rest s1
               | Control pt bs \<Rightarrow> let (r, s1) = send_payload E pt bs s in after_send r [] s1))"

text \<open>The state that \<^verbatim>\<open>connect\<close> sets up once the socket is open, around the inherited stream state.\<close>

definition channel_new :: "session_core \<Rightarrow> continuity \<Rightarrow> nat \<Rightarrow> instant \<Rightarrow> channel_state" where
  "channel_new c k chunk now =
    \<lparr>core = c, stream = k, last_inbound = now, chunk_size = clamp 1 MAX_PAYLOAD_SIZE chunk,
     writer = new_channel WRITER_QUEUE_DEPTH, on_socket = [], sink_broken = False,
     commands = new_channel COMMAND_QUEUE_DEPTH, held_command = None, sending = None,
     sequence_locked = False, clock = now, draws = 0\<rparr>"

section \<open>The writer's queue\<close>

text \<open>All frames accepted so far, in the order in which they reach the socket.\<close>

definition frames :: "'z channel_state_scheme \<Rightarrow> ws_message list" where
  "frames s = on_socket s @ queued (writer s)"

lemma writer_step_kept [simp]:
  "stream (snd (writer_step s)) = stream s"
  "last_inbound (snd (writer_step s)) = last_inbound s"
  "chunk_size (snd (writer_step s)) = chunk_size s"
  "commands (snd (writer_step s)) = commands s"
  "held_command (snd (writer_step s)) = held_command s"
  "sending (snd (writer_step s)) = sending s"
  "sequence_locked (snd (writer_step s)) = sequence_locked s"
  "clock (snd (writer_step s)) = clock s"
  "draws (snd (writer_step s)) = draws s"
  "sink_broken (snd (writer_step s)) = sink_broken s"
  "depth (writer (snd (writer_step s))) = depth (writer s)"
  by (auto simp: writer_step_def stop_writer_def close_core_def recv_def Let_def
      split: list.splits)

lemma writer_step_more [simp]: "channel_state.more (snd (writer_step s)) = channel_state.more s"
  by (auto simp: writer_step_def stop_writer_def close_core_def recv_def Let_def
      split: list.splits)

lemma write_frame_kept [simp]:
  "stream (snd (write_frame m s)) = stream s"
  "last_inbound (snd (write_frame m s)) = last_inbound s"
  "chunk_size (snd (write_frame m s)) = chunk_size s"
  "commands (snd (write_frame m s)) = commands s"
  "held_command (snd (write_frame m s)) = held_command s"
  "sending (snd (write_frame m s)) = sending s"
  "sequence_locked (snd (write_frame m s)) = sequence_locked s"
  "clock (snd (write_frame m s)) = clock s"
  "draws (snd (write_frame m s)) = draws s"
  "sink_broken (snd (write_frame m s)) = sink_broken s"
  "depth (writer (snd (write_frame m s))) = depth (writer s)"
  "channel_state.more (snd (write_frame m s)) = channel_state.more s"
  using writer_step_kept [of s] writer_step_more [of s]
  by (simp_all add: write_frame_def Let_def try_send_def split: prod.splits send_outcome.splits)

text \<open>A frame is accepted at the end, and nothing else happens, or the writer has stopped.\<close>

lemma write_frame_Ok:
  assumes "write_frame m s = (Ok (), s')"
  shows "core s' = core s \<and> frames s' = frames s @ [m]"
proof (cases "length (queued (writer s)) < depth (writer s)")
  case True
  with assms show ?thesis
    by (auto simp: write_frame_def try_send_def frames_def split: if_splits)
next
  case False
  let ?s1 = "snd (writer_step s)"
  have "\<not> rx_gone (writer ?s1)"
    using assms False by (auto simp: write_frame_def Let_def try_send_def split: if_splits)
  then have "core ?s1 = core s \<and> frames ?s1 = frames s"
    by (auto simp: writer_step_def stop_writer_def recv_def Let_def frames_def
        split: list.splits if_splits)
  with assms False show ?thesis
    by (auto simp: write_frame_def Let_def try_send_def frames_def split: if_splits)
qed

lemma write_frame_result: "fst (write_frame m s) = Ok () \<or> (\<exists>e. fst (write_frame m s) = Err (Transport e))"
  by (auto simp: write_frame_def Let_def split: prod.splits send_outcome.splits)

lemma write_frame_closed: "closed_now s \<Longrightarrow> closed_now (snd (write_frame m s))"
  by (auto simp: write_frame_def Let_def writer_step_def stop_writer_def close_core_def core_close_def recv_def
      split: prod.split send_outcome.split list.split)

section \<open>One send\<close>

lemma seal_payload_kept:
  assumes "seal_payload E pt pl s = (r, s1)"
  shows "\<exists>n. s1 = s\<lparr>draws := n\<rparr>"
  using assms
  by (auto simp: seal_payload_def split: option.splits if_splits intro: exI [of _ "draws s1"])

text \<open>A send touches nothing of a state that extends the channel's.\<close>

lemma track_and_write_more [simp]: "channel_state.more (snd (track_and_write f s)) = channel_state.more s"
  by (auto simp: track_and_write_def Let_def split_beta split: bool.split)

lemma send_payload_more [simp]: "channel_state.more (snd (send_payload E pt pl s)) = channel_state.more s"
proof -
  obtain q s1 where sp: "seal_payload E pt pl s = (q, s1)" by (cases "seal_payload E pt pl s")
  then obtain n where "s1 = s\<lparr>draws := n\<rparr>" using seal_payload_kept by blast
  with sp show ?thesis by (cases q) (simp_all add: send_payload_def build_outbound_def)
qed

lemma track_and_write_Ok:
  assumes "track_and_write f s = (Done (Ok ()), s')"
  shows "frames s' = frames s @ [Binary f] \<and> core s' = core s
    \<and> stream s' = (stream s)\<lparr>outgoing := (outgoing (stream s))\<lparr>pending := pending (outgoing (stream s))
         @ [\<lparr>wire = f, sequence = stream_sequence (stream s), last_sent = clock s, attempts = 1\<rparr>]\<rparr>,
         stream_sequence := stream_sequence (stream s) + 1\<rparr>
    \<and> chunk_size s' = chunk_size s \<and> sequence_locked s' = sequence_locked s \<and> clock s' = clock s"
proof -
  let ?k = "stream s"
  obtain b where tr: "track (clock s) f (stream_sequence ?k) (outgoing ?k) = (True, b)"
    using assms by (cases "track (clock s) f (stream_sequence ?k) (outgoing ?k)")
      (auto simp: track_and_write_def Let_def split: bool.splits if_splits)
  let ?s1 = "s\<lparr>stream := ?k\<lparr>outgoing := b, stream_sequence := stream_sequence ?k + 1\<rparr>\<rparr>"
  have w: "write_frame (Binary f) ?s1 = (Ok (), s')"
    using assms tr by (auto simp: track_and_write_def Let_def split: prod.splits)
  have "b = (outgoing ?k)\<lparr>pending := pending (outgoing ?k)
      @ [\<lparr>wire = f, sequence = stream_sequence ?k, last_sent = clock s, attempts = 1\<rparr>]\<rparr>"
    using tr by (auto simp: track_def split: if_splits)
  moreover have "stream s' = stream ?s1 \<and> chunk_size s' = chunk_size s
      \<and> sequence_locked s' = sequence_locked s \<and> clock s' = clock s"
    using write_frame_kept [of "Binary f" ?s1, unfolded w] by simp
  ultimately show ?thesis
    using write_frame_Ok [OF w] by (simp add: frames_def)
qed

definition data_frame :: "'e wire_ext_scheme \<Rightarrow> nat \<Rightarrow> i64 \<Rightarrow> payload_type \<Rightarrow> bytes \<Rightarrow> bytes" where
  "data_frame E n seq pt pl = serialize (fresh_message E n InputStreamData seq pt pl)"

lemma data_frame_reads:
  assumes "wf_ext E" and "length pl \<le> MAX_PAYLOAD_SIZE" and "0 \<le> sint seq"
  shows "\<exists>m. deserialize (sha256 E) (data_frame E n seq pt pl) = Ok m
    \<and> message_type m = InputStreamData \<and> sequence_number m = seq \<and> payload_type m = pt \<and> payload m = pl"
proof -
  let ?m = "fresh_message E n InputStreamData seq pt pl"
  have "wf_message ?m"
    using assms(1) by (simp add: wf_message_def fresh_message_def new_message_def wf_ext_def)
  moreover have "validate (sha256 E) ?m = Ok ()"
    using assms(3) by (simp add: validate_def fresh_message_def new_message_def)
  ultimately have "deserialize (sha256 E) (data_frame E n seq pt pl) = Ok ?m"
    using deserialize_serialize_append [of ?m "sha256 E" "[]"] assms(2)
    by (simp add: data_frame_def fresh_message_def new_message_def)
  then show ?thesis by (simp add: fresh_message_def new_message_def)
qed

lemma send_payload_Ok:
  assumes "send_payload E pt pl s = (Done (Ok ()), s')"
  shows "\<exists>sealed s1 n. seal_payload E pt pl s = (Ok sealed, s1) \<and> \<not> sequence_locked s
    \<and> frames s' = frames s @ [Binary (data_frame E n (stream_sequence (stream s)) pt sealed)]
    \<and> core s' = core s \<and> chunk_size s' = chunk_size s \<and> sequence_locked s' = sequence_locked s
    \<and> stream s' = (stream s)\<lparr>outgoing := (outgoing (stream s))\<lparr>pending := pending (outgoing (stream s))
         @ [\<lparr>wire = data_frame E n (stream_sequence (stream s)) pt sealed,
             sequence = stream_sequence (stream s), last_sent = clock s, attempts = 1\<rparr>]\<rparr>,
         stream_sequence := stream_sequence (stream s) + 1\<rparr>
    \<and> clock s' = clock s"
proof -
  obtain sealed s1 where seal: "seal_payload E pt pl s = (Ok sealed, s1)"
    using assms by (cases "seal_payload E pt pl s"; cases "fst (seal_payload E pt pl s)")
      (auto simp: send_payload_def)
  obtain n where s1: "s1 = s\<lparr>draws := n\<rparr>" using seal_payload_kept [OF seal] by blast
  have "\<not> sequence_locked s"
    and tw: "track_and_write (data_frame E n (stream_sequence (stream s)) pt sealed)
        (s1\<lparr>draws := Suc n\<rparr>) = (Done (Ok ()), s')"
    using assms seal s1
    by (auto simp: send_payload_def build_outbound_def data_frame_def split: if_splits)
  with seal track_and_write_Ok [OF tw] show ?thesis
    by (auto simp: s1 frames_def)
qed

text \<open>A call that has to wait has sent nothing and changed nothing but the draw counter.\<close>

lemma send_payload_Waits:
  assumes "send_payload E pt pl s = (Waits w, s')"
  shows "\<exists>n. s' = s\<lparr>draws := n\<rparr>"
proof -
  obtain sealed s1 where seal: "seal_payload E pt pl s = (Ok sealed, s1)"
    using assms by (cases "seal_payload E pt pl s"; cases "fst (seal_payload E pt pl s)")
      (auto simp: send_payload_def)
  obtain n where s1: "s1 = s\<lparr>draws := n\<rparr>" using seal_payload_kept [OF seal] by blast
  show ?thesis
    using assms
    by (auto simp: send_payload_def seal s1 build_outbound_def track_and_write_def Let_def
        split: if_splits prod.splits bool.splits)
qed

section \<open>A stream of chunks\<close>

text \<open>
  The agent's view of a payload: as it is without encryption, decrypted with its own key pair
  otherwise. \<open>carries\<close>: the tracked message, read back, is stream data with the entry's sequence
  number, and the agent sees \<open>chunk\<close> in it.
\<close>

fun agent_reads :: "'e crypto_ext_scheme \<Rightarrow> session_crypto option \<Rightarrow> bytes \<Rightarrow> (bytes, error) result" where
  "agent_reads E None p = Ok p"
| "agent_reads E (Some a) p = decrypt E a p"

fun keys_agree :: "'e crypto_ext_scheme \<Rightarrow> session_crypto option \<Rightarrow> session_crypto option \<Rightarrow> bool" where
  "keys_agree E None None = True"
| "keys_agree E (Some c) (Some a) = (aead_ok E \<and> mirrored c a)"
| "keys_agree E _ _ = False"

definition carries ::
    "'e crypto_ext_scheme \<Rightarrow> session_crypto option \<Rightarrow> payload_type \<Rightarrow> pending_entry \<Rightarrow> bytes \<Rightarrow> bool" where
  "carries E agent pt e chunk \<longleftrightarrow> (\<exists>m. deserialize (sha256 E) (wire e) = Ok m
     \<and> message_type m = InputStreamData \<and> payload_type m = pt \<and> sequence_number m = sequence e
     \<and> agent_reads E agent (payload m) = Ok chunk)"

lemma seal_payload_agent:
  assumes "seal_payload E Output pl s = (Ok sealed, s1)" and "keys_agree E (stream_crypto (stream s)) agent"
  shows "agent_reads E agent sealed = Ok pl \<and> length sealed \<le> length pl + 28"
proof (cases "stream_crypto (stream s)")
  case None
  with assms show ?thesis by (cases agent) (auto simp: seal_payload_def)
next
  case (Some c)
  then obtain a where a: "agent = Some a" "aead_ok E" "mirrored c a"
    using assms(2) by (cases agent) auto
  have "encrypt E (draws s) c pl = Ok sealed" using assms(1) Some by (auto simp: seal_payload_def)
  from mirrored_transport [OF a(2,3) this] a(1) show ?thesis by (simp add: crypto_constants)
qed

lemma sint_add_of_nat:
  assumes "0 \<le> sint (w :: i64)" and "sint w + int n < 2 ^ 63"
  shows "sint (w + of_nat n) = sint w + int n"
  using assms
proof (induction n)
  case (Suc n)
  then have IH: "sint (w + of_nat n) = sint w + int n" by simp
  have "sint ((w + of_nat n) + 1) = sint (w + of_nat n) + 1"
    using Suc.prems IH by (intro sint_succ) simp
  then show ?case using IH by (simp add: ac_simps)
qed simp

lemma send_payload_carries:
  assumes "send_payload E Output pl s = (Done (Ok ()), s')" and "wf_ext E"
    and "keys_agree E (stream_crypto (stream s)) agent"
    and "length pl + 28 \<le> MAX_PAYLOAD_SIZE" and "0 \<le> sint (stream_sequence (stream s))"
  shows "\<exists>e. carries E agent Output e pl \<and> sequence e = stream_sequence (stream s)
    \<and> pending (outgoing (stream s')) = pending (outgoing (stream s)) @ [e]
    \<and> frames s' = frames s @ [Binary (wire e)]
    \<and> stream_sequence (stream s') = stream_sequence (stream s) + 1
    \<and> stream_crypto (stream s') = stream_crypto (stream s) \<and> chunk_size s' = chunk_size s"
proof -
  obtain sealed s1 n where *: "seal_payload E Output pl s = (Ok sealed, s1)"
      "frames s' = frames s @ [Binary (data_frame E n (stream_sequence (stream s)) Output sealed)]"
      "chunk_size s' = chunk_size s"
      "stream s' = (stream s)\<lparr>outgoing := (outgoing (stream s))\<lparr>pending := pending (outgoing (stream s))
         @ [\<lparr>wire = data_frame E n (stream_sequence (stream s)) Output sealed,
             sequence = stream_sequence (stream s), last_sent = clock s, attempts = 1\<rparr>]\<rparr>,
         stream_sequence := stream_sequence (stream s) + 1\<rparr>"
    using send_payload_Ok [OF assms(1)] by blast
  note ag = seal_payload_agent [OF *(1) assms(3)]
  obtain m where "deserialize (sha256 E) (data_frame E n (stream_sequence (stream s)) Output sealed) = Ok m"
    "message_type m = InputStreamData" "sequence_number m = stream_sequence (stream s)"
    "payload_type m = Output" "payload m = sealed"
    using data_frame_reads [OF assms(2), of sealed "stream_sequence (stream s)" n Output] ag assms(4,5)
    by auto
  with * ag show ?thesis
    by (intro exI [of _ "\<lparr>wire = data_frame E n (stream_sequence (stream s)) Output sealed,
        sequence = stream_sequence (stream s), last_sent = clock s, attempts = 1\<rparr>"])
      (auto simp: carries_def)
qed

text \<open>What a send of \<open>data\<close> that gets through has added to the channel.\<close>

definition added_stream ::
    "'e crypto_ext_scheme \<Rightarrow> session_crypto option \<Rightarrow> nat \<Rightarrow> bytes \<Rightarrow> 'z channel_state_scheme
      \<Rightarrow> 'z channel_state_scheme \<Rightarrow> bool" where
  "added_stream E agent sz data s s' \<longleftrightarrow> (\<exists>es chunks.
     list_all2 (carries E agent Output) es chunks
     \<and> concat chunks = data \<and> (\<forall>c \<in> set chunks. c \<noteq> [] \<and> length c \<le> sz)
     \<and> map sequence es = map (\<lambda>i. stream_sequence (stream s) + of_nat i) [0..<length es]
     \<and> stream_sequence (stream s') = stream_sequence (stream s) + of_nat (length es)
     \<and> pending (outgoing (stream s')) = pending (outgoing (stream s)) @ es
     \<and> frames s' = frames s @ map (\<lambda>e. Binary (wire e)) es)"

lemma added_stream_Nil: "added_stream E agent sz [] s s"
  unfolding added_stream_def by (intro exI [of _ "[]"]) simp

lemma added_stream_Cons:
  assumes "carries E agent Output e c" "c \<noteq> []" "length c \<le> sz"
    and "sequence e = stream_sequence (stream s)"
    and "pending (outgoing (stream s1)) = pending (outgoing (stream s)) @ [e]"
    and "frames s1 = frames s @ [Binary (wire e)]"
    and "stream_sequence (stream s1) = stream_sequence (stream s) + 1"
    and "added_stream E agent sz data s1 s'"
  shows "added_stream E agent sz (c @ data) s s'"
proof -
  obtain es chunks where *: "list_all2 (carries E agent Output) es chunks" "concat chunks = data"
    "\<forall>c \<in> set chunks. c \<noteq> [] \<and> length c \<le> sz"
    "map sequence es = map (\<lambda>i. stream_sequence (stream s1) + of_nat i) [0..<length es]"
    "stream_sequence (stream s') = stream_sequence (stream s1) + of_nat (length es)"
    "pending (outgoing (stream s')) = pending (outgoing (stream s1)) @ es"
    "frames s' = frames s1 @ map (\<lambda>e. Binary (wire e)) es"
    using assms(8) unfolding added_stream_def by blast
  have "map sequence (e # es) = map (\<lambda>i. stream_sequence (stream s) + of_nat i) [0..<length (e # es)]"
    using *(4) assms(4,7)
    by (simp add: upt_conv_Cons map_Suc_upt [symmetric] ac_simps comp_def del: upt_Suc)
  then show ?thesis
    using * assms unfolding added_stream_def
    by (intro exI [of _ "e # es"] exI [of _ "c # chunks"]) (simp add: ac_simps)
qed

lemma send_stream_data_Nil: "send_stream_data E [] s = (Done (Ok ()), [], s)"
  by (subst send_stream_data.simps) simp

lemma send_stream_data_step:
  assumes "data \<noteq> []" and "0 < chunk_size s"
    and "send_payload E Output (take (chunk_size s) data) s = (r, s1)"
  shows "send_stream_data E data s = (if r = Done (Ok ()) then send_stream_data E (drop (chunk_size s) data) s1
    else (r, drop (chunk_size s) data, s1))"
proof (cases r)
  case (Done res)
  with assms show ?thesis by (cases res) (simp_all add: send_stream_data.simps [of E data s])
qed (use assms in \<open>simp add: send_stream_data.simps [of E data s]\<close>)

lemma send_stream_data_added:
  assumes "send_stream_data E data s = (Done (Ok ()), rest, s')"
    and "wf_ext E" and "keys_agree E (stream_crypto (stream s)) agent"
    and "0 < chunk_size s" and "chunk_size s + 28 \<le> MAX_PAYLOAD_SIZE"
    and "0 \<le> sint (stream_sequence (stream s))"
    and "sint (stream_sequence (stream s)) + int (length data) < 2 ^ 63"
  shows "added_stream E agent (chunk_size s) data s s'"
  using assms
proof (induction E data s arbitrary: rest rule: send_stream_data.induct)
  case (1 E data s)
  show ?case
  proof (cases "data = []")
    case True
    with 1(2) show ?thesis by (simp add: send_stream_data_Nil added_stream_Nil)
  next
    case False
    let ?c = "take (chunk_size s) data"
    obtain r s1 where sp: "send_payload E Output ?c s = (r, s1)" by (cases "send_payload E Output ?c s")
    have r: "r = Done (Ok ())" and rec: "send_stream_data E (drop (chunk_size s) data) s1 = (Done (Ok ()), rest, s')"
      using 1(2) send_stream_data_step [OF False 1(5) sp] by (auto split: if_splits)
    have "length ?c + 28 \<le> MAX_PAYLOAD_SIZE"
      using 1(6) min.cobounded2 [of "length data" "chunk_size s"] unfolding length_take by linarith
    then obtain e where e: "carries E agent Output e ?c" "sequence e = stream_sequence (stream s)"
      "pending (outgoing (stream s1)) = pending (outgoing (stream s)) @ [e]"
      "frames s1 = frames s @ [Binary (wire e)]"
      "stream_sequence (stream s1) = stream_sequence (stream s) + 1"
      "stream_crypto (stream s1) = stream_crypto (stream s)" "chunk_size s1 = chunk_size s"
      using send_payload_carries [of E ?c s s1 agent] sp r 1(3-7) by blast
    have "1 \<le> length data" using False by (cases data) auto
    then have sint1: "sint (stream_sequence (stream s1)) = sint (stream_sequence (stream s)) + 1"
      unfolding e(5) using 1(7,8) by (intro sint_succ) simp
    have "\<not> (data = [] \<or> chunk_size s = 0)" using False 1(5) by simp
    note IH = 1(1) [OF this sp [symmetric] r refl rec]
    have len: "int (length (drop (chunk_size s) data)) + 1 \<le> int (length data)"
      using \<open>1 \<le> length data\<close> 1(5) by simp
    have "added_stream E agent (chunk_size s1) (drop (chunk_size s) data) s1 s'"
    proof (rule IH)
      show "sint (stream_sequence (stream s1)) + int (length (drop (chunk_size s) data)) < 2 ^ 63"
        using len 1(8) sint1 by linarith
    qed (use e sint1 1(3-7) in auto)
    then have "added_stream E agent (chunk_size s) (?c @ drop (chunk_size s) data) s s'"
      using False 1(5) e by (intro added_stream_Cons [OF e(1)]) auto
    then show ?thesis by simp
  qed
qed

lemma send_payload_Err:
  assumes "send_payload E pt pl s = (Done (Err e), s')"
  shows "(stream s' = stream s \<and> frames s' = frames s)
    \<or> (stream_sequence (stream s') = stream_sequence (stream s) + 1 \<and> (\<exists>m. e = Transport m)
       \<and> length (pending (outgoing (stream s'))) = length (pending (outgoing (stream s))) + 1)"
proof (cases "seal_payload E pt pl s")
  case (Pair r s1)
  obtain n where s1: "s1 = s\<lparr>draws := n\<rparr>" using seal_payload_kept [OF Pair] by blast
  show ?thesis
  proof (cases r)
    case (Ok sealed)
    let ?f = "data_frame E n (stream_sequence (stream s)) pt sealed"
    let ?s2 = "s\<lparr>draws := Suc n\<rparr>"
    have tw: "track_and_write ?f ?s2 = (Done (Err e), s')"
      using assms Pair Ok s1
      by (auto simp: send_payload_def build_outbound_def data_frame_def split: if_splits)
    show ?thesis
    proof (cases "track (clock s) ?f (stream_sequence (stream s)) (outgoing (stream s))")
      case (Pair room b)
      let ?s3 = "?s2\<lparr>stream := (stream s)\<lparr>outgoing := b, stream_sequence := stream_sequence (stream s) + 1\<rparr>\<rparr>"
      show ?thesis
      proof (cases room)
        case True
        then have w: "write_frame (Binary ?f) ?s3 = (Err e, s')"
          using tw Pair by (auto simp: track_and_write_def Let_def split: prod.splits)
        moreover have "stream s' = stream ?s3" using write_frame_kept(1) [of "Binary ?f" ?s3, unfolded w] by simp
        ultimately show ?thesis
          using Pair True write_frame_result [of "Binary ?f" ?s3] by (auto simp: track_def split: if_splits)
      next
        case False
        with tw Pair show ?thesis by (auto simp: track_and_write_def Let_def frames_def split: if_splits)
      qed
    qed
  qed (use assms Pair s1 in \<open>auto simp: send_payload_def frames_def\<close>)
qed

lemma write_frame_not_Panic: "fst (write_frame m s) \<noteq> Panic"
  using write_frame_result [of m s] by auto

lemma track_and_write_not_Panic: "fst (track_and_write f s) \<noteq> Done Panic"
  by (simp add: track_and_write_def Let_def split_beta write_frame_not_Panic split: bool.splits)

lemma send_payload_not_Panic: "fst (send_payload E pt pl s) \<noteq> Done Panic"
proof -
  have seal: "fst (seal_payload E pt pl s) \<noteq> Panic"
    by (auto simp: seal_payload_def encrypt_def Let_def split: option.splits)
  then show ?thesis
    by (simp add: send_payload_def build_outbound_def split_beta track_and_write_not_Panic
        split: result.splits)
qed

section \<open>Properties\<close>

text \<open>
  Caller data reaches the agent whole and in order. A send that gets through has tracked and
  queued one message per chunk, with consecutive sequence numbers from the session's counter; each
  frame, as the agent reads it, is stream data under that number, and decrypted with the agent's
  keys, if encryption was negotiated, the chunks concatenate to the caller's data. No chunk is
  empty or larger than the configured size.
\<close>

theorem stream_data_reaches_agent:
  assumes "send_stream_data E data s = (Done (Ok ()), rest, s')"
    and "wf_ext E" and "keys_agree E (stream_crypto (stream s)) agent"
    and "0 < chunk_size s" and "chunk_size s + 28 \<le> MAX_PAYLOAD_SIZE"
    and "0 \<le> sint (stream_sequence (stream s))"
    and "sint (stream_sequence (stream s)) + int (length data) < 2 ^ 63"
  shows "\<exists>es chunks.
     list_all2 (carries E agent Output) es chunks
     \<and> concat chunks = data \<and> (\<forall>c \<in> set chunks. c \<noteq> [] \<and> length c \<le> chunk_size s)
     \<and> map sequence es = map (\<lambda>i. stream_sequence (stream s) + of_nat i) [0..<length es]
     \<and> stream_sequence (stream s') = stream_sequence (stream s) + of_nat (length es)
     \<and> pending (outgoing (stream s')) = pending (outgoing (stream s)) @ es
     \<and> frames s' = frames s @ map (\<lambda>e. Binary (wire e)) es"
  using send_stream_data_added [OF assms] unfolding added_stream_def .

definition toy_channel :: channel_state where
  "toy_channel = channel_new (core_new ''s-1'' 4) continuity_fresh 2 0"

lemma toy_wf_ext: "wf_ext toy_handshake_ext"
  by (simp add: wf_ext_def toy_handshake_ext_def toy_crypto_ext_def toy_wire_ext_def toy_digest_def
      crypto_ext.defs wire_ext.defs wire_constants)

theorem stream_data_reaches_agent_witness:
  "\<exists>rest s'. send_stream_data toy_handshake_ext [7, 8, 9] toy_channel = (Done (Ok ()), rest, s')
     \<and> (\<exists>es chunks. list_all2 (carries toy_handshake_ext None Output) es chunks \<and> concat chunks = [7, 8, 9]
          \<and> pending (outgoing (stream s')) = es)"
proof -
  obtain r rest s' where run: "send_stream_data toy_handshake_ext [7, 8, 9] toy_channel = (r, rest, s')"
    by (cases "send_stream_data toy_handshake_ext [7, 8, 9] toy_channel")
  have chunk: "chunk_size toy_channel = 2"
    by (simp add: toy_channel_def channel_new_def clamp_def MAX_PAYLOAD_SIZE_def)
  have "r = Done (Ok ())"
    using run unfolding send_stream_data.simps [of _ _ toy_channel]
    by (simp add: send_stream_data.simps [of _ "[9]"]
        send_stream_data_Nil send_payload_def seal_payload_def build_outbound_def track_and_write_def
        toy_channel_def channel_new_def continuity_fresh_def out_new_def track_def clamp_def
        MAX_PAYLOAD_SIZE_def MESSAGE_BUFFER_CAPACITY_def write_frame_def try_send_def
        WRITER_QUEUE_DEPTH_def Let_def)
  then show ?thesis
    using stream_data_reaches_agent [of toy_handshake_ext "[7, 8, 9]" toy_channel rest s' None]
      run toy_wf_ext chunk
    by (auto simp: toy_channel_def channel_new_def continuity_fresh_def out_new_def MAX_PAYLOAD_SIZE_def)
qed

text \<open>
  A sequence number is spent exactly when its message is tracked for retransmission. A send
  that succeeds spends one and queues one frame behind all earlier ones; one that has to wait, or
  fails for want of a key or because the session closed, leaves counter, buffer and queue alone; the
  only failure that spends a number is a writer that has stopped, and the message is then tracked,
  so a resumed channel retransmits it.
\<close>

theorem send_spends_one_number:
  assumes "send_payload E pt pl s = (r, s')"
  shows "(case r of
      Done (Ok _) \<Rightarrow> stream_sequence (stream s') = stream_sequence (stream s) + 1
        \<and> length (pending (outgoing (stream s'))) = length (pending (outgoing (stream s))) + 1
        \<and> sequence (last (pending (outgoing (stream s')))) = stream_sequence (stream s)
        \<and> frames s' = frames s @ [Binary (wire (last (pending (outgoing (stream s')))))]
    | Done (Err e) \<Rightarrow> (stream s' = stream s \<and> frames s' = frames s)
        \<or> (stream_sequence (stream s') = stream_sequence (stream s) + 1 \<and> (\<exists>m. e = Transport m)
           \<and> length (pending (outgoing (stream s'))) = length (pending (outgoing (stream s))) + 1)
    | Done Panic \<Rightarrow> False
    | Waits _ \<Rightarrow> stream s' = stream s \<and> frames s' = frames s \<and> core s' = core s)"
proof (cases r)
  case (Done res)
  show ?thesis
  proof (cases res)
    case (Ok u)
    with Done send_payload_Ok [of E pt pl s s'] assms show ?thesis by auto
  next
    case (Err e)
    with Done send_payload_Err [of E pt pl s e s'] assms show ?thesis by simp
  next
    case Panic
    with Done assms send_payload_not_Panic [of E pt pl s] show ?thesis by simp
  qed
next
  case (Waits w)
  with send_payload_Waits [of E pt pl s w s'] assms show ?thesis by (auto simp: frames_def)
qed

theorem send_spends_one_number_witness:
  "let (r, s') = send_payload toy_handshake_ext Size [1] toy_channel
   in r = Done (Ok ()) \<and> stream_sequence (stream s') = stream_sequence (stream toy_channel) + 1"
proof -
  obtain r s' where run: "send_payload toy_handshake_ext Size [1] toy_channel = (r, s')"
    by (cases "send_payload toy_handshake_ext Size [1] toy_channel")
  have "r = Done (Ok ())"
    using run
    by (simp add: send_payload_def seal_payload_def build_outbound_def track_and_write_def
        toy_channel_def channel_new_def continuity_fresh_def out_new_def track_def
        MESSAGE_BUFFER_CAPACITY_def write_frame_def try_send_def WRITER_QUEUE_DEPTH_def Let_def)
  with send_spends_one_number [OF run] run show ?thesis by simp
qed

end
