(* ===== verification/Endpoint.thy ===== *)
theory Endpoint
  imports Errors "HOL-Library.AList"
begin

text \<open>
  Which endpoint the data channel may talk to and how it is dialled: \<^verbatim>\<open>EndpointPolicy\<close>,
  \<^verbatim>\<open>sanitize_url\<close> and \<^verbatim>\<open>dial\<close> of \<^verbatim>\<open>src/connection.rs\<close>, and \<^verbatim>\<open>src/signing.rs\<close>. URL parsing, the
  HTTP request type, SigV4, the credentials chain and the WebSocket dialer are third-party: they
  are the fields of \<open>endpoint_ext\<close>, errors being known by their text.
\<close>

section \<open>What comes from outside\<close>

record url =
  scheme :: string
  host_str :: "string option"
  query_pairs :: "(string \<times> string) list"
  url_rest :: string

record http_request =
  uri :: string
  headers :: "(string \<times> string) list"

record dial_error =
  is_io_error :: bool
  dial_text :: string

record endpoint_ext =
  url_parse :: "string \<Rightarrow> string + url"
  url_render :: "url \<Rightarrow> string"
  into_client_request :: "nat \<Rightarrow> string \<Rightarrow> string + http_request"
  provide_credentials :: "nat \<Rightarrow> string + string"
  system_time :: "nat \<Rightarrow> nat"
  signing_params :: "string \<Rightarrow> string \<Rightarrow> string \<Rightarrow> nat \<Rightarrow> string + string"
  signable_request :: "string \<Rightarrow> string \<Rightarrow> (string \<times> string) list \<Rightarrow> bytes \<Rightarrow> string + string"
  sigv4_sign :: "string \<Rightarrow> string \<Rightarrow> string + (string \<times> string) list"
  header_name :: "string \<Rightarrow> string + string"
  header_value :: "string \<Rightarrow> string + string"
  connect_async :: "nat \<Rightarrow> http_request \<Rightarrow> dial_error + unit"

fun from_sum :: "(string \<Rightarrow> error) \<Rightarrow> string + 'a \<Rightarrow> ('a, error) result" where
  "from_sum f (Inl e) = Err (f e)"
| "from_sum f (Inr x) = Ok x"

section \<open>Endpoint policy\<close>

datatype endpoint_policy = AwsOnly | AllowAny

definition validate_endpoint ::
    "'z endpoint_ext_scheme \<Rightarrow> endpoint_policy \<Rightarrow> string \<Rightarrow> (unit, error) result" where
  "validate_endpoint E policy raw =
    bind_result (from_sum (\<lambda>e. Config [Txt ''stream URL is not a valid URL: '', Str e]) (url_parse E raw))
    (\<lambda>u.
      if policy = AllowAny then
        (if scheme u = ''ws'' \<or> scheme u = ''wss'' then Ok ()
         else Err (Config [Txt ''stream URL scheme must be ws or wss, got '', Str (scheme u)]))
      else if scheme u \<noteq> ''wss'' then
        Err (Config [Txt ''stream URL must use wss://, got '', Str (scheme u), Txt ''://''])
      else
        case host_str u of
          None \<Rightarrow> Err (Config [Txt ''stream URL has no host''])
        | Some host \<Rightarrow>
            let in_aws = suffix ''.amazonaws.com'' host \<or> suffix ''.amazonaws.com.cn'' host;
                is_ssm = list_ex (\<lambda>label. label = ''ssmmessages'' \<or> prefix ''ssmmessages-'' label)
                  (split_at_char CHR ''.'' host)
            in if in_aws \<and> is_ssm then Ok ()
               else Err (Config [Txt ''refusing to connect to '', Str host, Txt '': not an AWS SSM messages endpoint. Set SessionConfig::endpoint_policy to EndpointPolicy::AllowAny to override.'']))"

definition sanitize_url :: "'z endpoint_ext_scheme \<Rightarrow> string \<Rightarrow> string" where
  "sanitize_url E raw =
    (case url_parse E raw of
       Inr u \<Rightarrow>
         let kept = filter (\<lambda>(k, _). \<not> eq_ignore_ascii_case k ''tokenValue'') (query_pairs u) in
         url_render E (u\<lparr>query_pairs := kept\<rparr>)
     | Inl _ \<Rightarrow> ''<unparseable URL>'')"

section \<open>Signing the upgrade\<close>

definition SERVICE_NAME :: string where "SERVICE_NAME = ''ssmmessages''"

definition PRESIGNED_PARAMS :: "string list" where
  "PRESIGNED_PARAMS =
    [''X-Amz-Algorithm'', ''X-Amz-Credential'', ''X-Amz-Date'', ''X-Amz-Expires'',
     ''X-Amz-SignedHeaders'', ''X-Amz-Signature'', ''X-Amz-Security-Token'']"

definition is_presigned :: "'z endpoint_ext_scheme \<Rightarrow> string \<Rightarrow> bool" where
  "is_presigned E raw =
    (case url_parse E raw of
       Inl _ \<Rightarrow> False
     | Inr u \<Rightarrow> list_ex (\<lambda>(key, _). list_ex (\<lambda>p. eq_ignore_ascii_case key p) PRESIGNED_PARAMS)
         (query_pairs u))"

definition upgrade_request ::
    "'z endpoint_ext_scheme \<Rightarrow> nat \<Rightarrow> string \<Rightarrow> (http_request, error) result" where
  "upgrade_request E n stream_url =
    from_sum (\<lambda>e. Config [Txt ''stream URL is not a valid WebSocket URL: '', Str e])
      (into_client_request E n stream_url)"

fun insert_headers ::
    "'z endpoint_ext_scheme \<Rightarrow> (string \<times> string) list \<Rightarrow> (string \<times> string) list
      \<Rightarrow> ((string \<times> string) list, error) result" where
  "insert_headers E [] hs = Ok hs"
| "insert_headers E ((n, v) # rem) hs =
    bind_result (from_sum (\<lambda>e. Config [Txt ''SigV4 produced an invalid header name: '', Str e])
      (header_name E n)) (\<lambda>name.
    bind_result (from_sum (\<lambda>e. Config [Txt ''SigV4 produced an invalid header value: '', Str e])
      (header_value E v)) (\<lambda>val.
    insert_headers E rem (AList.update name val hs)))"

text \<open>\<^verbatim>\<open>HeaderValue::to_str\<close>: only visible ASCII, spaces and tabs.\<close>

definition header_to_str :: "string \<Rightarrow> string option" where
  "header_to_str v = (if list_all (\<lambda>c. c = CHR 0x09 \<or> 32 \<le> (of_char c :: nat) \<and> (of_char c :: nat) < 127) v then Some v else None)"

definition sign_request ::
    "'z endpoint_ext_scheme \<Rightarrow> string \<Rightarrow> string \<Rightarrow> nat \<Rightarrow> http_request \<Rightarrow> (http_request, error) result" where
  "sign_request E region credentials time request =
    bind_result (case Option.bind (map_of (headers request) ''host'') header_to_str of
        Some h \<Rightarrow> Ok h
      | None \<Rightarrow> Err (Config [Txt ''upgrade request has no Host header to sign''])) (\<lambda>host.
    bind_result (from_sum (\<lambda>e. Config [Txt ''could not build SigV4 signing parameters: '', Str e])
      (signing_params E credentials region SERVICE_NAME time)) (\<lambda>params.
    bind_result (from_sum (\<lambda>e. Config [Txt ''could not build the signable request: '', Str e])
      (signable_request E ''GET'' (uri request) [(''host'', host)] [])) (\<lambda>signable.
    bind_result (from_sum (\<lambda>e. Config [Txt ''could not sign the data channel upgrade: '', Str e])
      (sigv4_sign E signable params)) (\<lambda>instructions.
    bind_result (insert_headers E instructions (headers request)) (\<lambda>hs.
    Ok (request\<lparr>headers := hs\<rparr>))))))"

definition signer_sign ::
    "'z endpoint_ext_scheme \<Rightarrow> nat \<Rightarrow> string \<Rightarrow> http_request \<Rightarrow> (http_request, error) result" where
  "signer_sign E n region request =
    bind_result (from_sum (\<lambda>e. Aws [Txt ''could not resolve credentials to sign the data channel: '', Str e] None)
      (provide_credentials E n)) (\<lambda>credentials.
    sign_request E region credentials (system_time E n) request)"

section \<open>Dialling\<close>

definition CONNECT_ATTEMPTS :: nat where "CONNECT_ATTEMPTS = 3"

text \<open>A signer is known by its region. Attempt \<open>n\<close> takes the draws with that number.\<close>

definition prepare_upgrade ::
    "'z endpoint_ext_scheme \<Rightarrow> nat \<Rightarrow> string \<Rightarrow> string option \<Rightarrow> (http_request, error) result" where
  "prepare_upgrade E n raw signer =
    bind_result (upgrade_request E n raw) (\<lambda>request.
      case signer of
        Some region \<Rightarrow> if is_presigned E raw then Ok request else signer_sign E n region request
      | None \<Rightarrow> Ok request)"

text \<open>
  The loop over the attempts, with \<open>remaining\<close> attempts to go: the outcome, the requests presented
  to the gateway, and the pauses taken in between.
\<close>

fun dial_loop ::
    "'z endpoint_ext_scheme \<Rightarrow> string \<Rightarrow> string option \<Rightarrow> nat \<Rightarrow> duration
      \<Rightarrow> (unit, error) result \<times> http_request list \<times> duration list" where
  "dial_loop E raw signer 0 backoff = (Panic, [], [])"
| "dial_loop E raw signer (Suc remaining) backoff =
    (let attempt = CONNECT_ATTEMPTS - remaining in
     case prepare_upgrade E attempt raw signer of
       Err e \<Rightarrow> (Err e, [], [])
     | Panic \<Rightarrow> (Panic, [], [])
     | Ok request \<Rightarrow>
         case connect_async E attempt request of
           Inr _ \<Rightarrow> (Ok (), [request], [])
         | Inl e \<Rightarrow>
             if \<not> is_io_error e \<or> attempt = CONNECT_ATTEMPTS then
               (Err (Transport [Txt ''could not open the SSM WebSocket: '', Str (dial_text e)]), [request], [])
             else
               let (r, reqs, pauses) = dial_loop E raw signer remaining (backoff * 2)
               in (r, request # reqs, backoff # pauses))"

definition dial ::
    "'z endpoint_ext_scheme \<Rightarrow> string \<Rightarrow> string option
      \<Rightarrow> (unit, error) result \<times> http_request list \<times> duration list" where
  "dial E raw signer = dial_loop E raw signer CONNECT_ATTEMPTS (millis 200)"

section \<open>Facts about dialling\<close>

lemma from_sum_not_Panic [simp]: "from_sum f x \<noteq> Panic"
  by (cases x) auto

lemma from_sum_Ok [simp]: "from_sum f x = Ok y \<longleftrightarrow> x = Inr y"
  by (cases x) auto

lemma insert_headers_not_Panic: "insert_headers E new hs \<noteq> Panic"
  by (induction E new hs rule: insert_headers.induct) (auto simp: bind_result_eq_Panic)

lemma prepare_upgrade_not_Panic: "prepare_upgrade E n raw signer \<noteq> Panic"
  by (auto simp: prepare_upgrade_def upgrade_request_def signer_sign_def sign_request_def
      bind_result_eq_Panic insert_headers_not_Panic split: option.splits if_splits)

lemma insert_headers_keeps:
  "insert_headers E new hs = Ok hs' \<Longrightarrow> map_of hs k = Some v \<Longrightarrow>
   (\<forall>(n, x) \<in> set new. header_name E n \<noteq> Inr k) \<Longrightarrow> map_of hs' k = Some v"
proof (induction E new hs rule: insert_headers.induct)
  case (2 E n w rem hs)
  then show ?case by (auto simp: update_conv')
qed simp

lemma dial_loop_counts:
  assumes "dial_loop E raw signer remaining backoff = (r, reqs, pauses)"
    and "0 < remaining" and "remaining \<le> CONNECT_ATTEMPTS"
  shows "r \<noteq> Panic \<and> length reqs \<le> remaining
    \<and> (\<forall>i < length pauses. pauses ! i = backoff * 2 ^ i) \<and> length pauses < remaining
    \<and> (\<forall>i < length reqs. prepare_upgrade E (CONNECT_ATTEMPTS - remaining + i + 1) raw signer = Ok (reqs ! i))
    \<and> (\<forall>i < length pauses. \<exists>e. connect_async E (CONNECT_ATTEMPTS - remaining + i + 1) (reqs ! i) = Inl e
         \<and> is_io_error e)"
  using assms
proof (induction E raw signer remaining backoff arbitrary: r reqs pauses rule: dial_loop.induct)
  case (2 E raw signer remaining backoff)
  let ?a = "CONNECT_ATTEMPTS - remaining"
  have a: "CONNECT_ATTEMPTS - Suc remaining + 1 = ?a" using 2(4) by simp
  show ?case
  proof (cases "prepare_upgrade E ?a raw signer")
    case (Ok request)
    note req = this
    show ?thesis
    proof (cases "connect_async E ?a request")
      case (Inl e)
      show ?thesis
      proof (cases "\<not> is_io_error e \<or> ?a = CONNECT_ATTEMPTS")
        case True
        with 2(2) req Inl a show ?thesis by (auto simp: Let_def)
      next
        case False
        then have rem: "0 < remaining" using 2(4) by (cases remaining) auto
        obtain r1 reqs1 p1 where rec: "dial_loop E raw signer remaining (backoff * 2) = (r1, reqs1, p1)"
          by (cases "dial_loop E raw signer remaining (backoff * 2)")
        have eq: "r = r1" "reqs = request # reqs1" "pauses = backoff # p1"
          using 2(2) req Inl False rec by (auto simp: Let_def)
        note IH = 2(1) [OF refl req Inl False rec rem] 
        have IH': "r1 \<noteq> Panic \<and> length reqs1 \<le> remaining
          \<and> (\<forall>i < length p1. p1 ! i = backoff * 2 * 2 ^ i) \<and> length p1 < remaining
          \<and> (\<forall>i < length reqs1. prepare_upgrade E (?a + i + 1) raw signer = Ok (reqs1 ! i))
          \<and> (\<forall>i < length p1. \<exists>e. connect_async E (?a + i + 1) (reqs1 ! i) = Inl e \<and> is_io_error e)"
          using IH 2(4) by simp
        have "\<forall>i < length pauses. pauses ! i = backoff * 2 ^ i"
          using IH' eq(3) by (auto simp: less_Suc_eq_0_disj)
        with IH' eq req Inl False a 2(4) show ?thesis
          by (auto simp: less_Suc_eq_0_disj)
      qed
    qed (use 2 req a in \<open>auto simp: Let_def\<close>)
  qed (use 2 prepare_upgrade_not_Panic in \<open>auto simp: Let_def\<close>)
qed simp

section \<open>Properties\<close>


text \<open>A concrete environment: URLs are \<open>scheme://host\<close> without query; the second dial succeeds.\<close>

definition toy_endpoint_ext :: endpoint_ext where
  "toy_endpoint_ext =
    \<lparr>url_parse = (\<lambda>s. if prefix ''wss://'' s
        then Inr \<lparr>scheme = ''wss'', host_str = Some (drop 6 s), query_pairs = [], url_rest = []\<rparr>
        else Inl ''relative URL without a base''),
     url_render = (\<lambda>u. scheme u @ ''://'' @ the (host_str u)),
     into_client_request = (\<lambda>n s. Inr \<lparr>uri = s, headers = [(''host'', drop 6 s)]\<rparr>),
     provide_credentials = (\<lambda>n. Inr ''key''), system_time = (\<lambda>n. n),
     signing_params = (\<lambda>c r s t. Inr s), signable_request = (\<lambda>m u h b. Inr u),
     sigv4_sign = (\<lambda>r p. Inr [(''authorization'', p)]), header_name = Inr, header_value = Inr,
     connect_async = (\<lambda>n r. if n = 1 then Inl \<lparr>is_io_error = True, dial_text = ''refused''\<rparr> else Inr ())\<rparr>"


text \<open>
  The label test of the default policy is weaker than its description: it also accepts an
  AWS host name that a customer chooses, here a storage bucket's.
\<close>

theorem endpoint_policy_accepts_bucket_host:
  "validate_endpoint toy_endpoint_ext AwsOnly ''wss://ssmmessages-x.s3.amazonaws.com'' = Ok ()"
  by (simp add: validate_endpoint_def toy_endpoint_ext_def suffix_def)

text \<open>
  Dialling always ends: at most three upgrade requests are presented, each built anew for its
  attempt, only I/O failures are retried, and the pauses double from 200 ms. A presigned URL is
  never signed a second time.
\<close>

theorem dial_bounded_and_fresh:
  assumes "dial E raw signer = (r, reqs, pauses)"
  shows "r \<noteq> Panic \<and> length reqs \<le> 3 \<and> length pauses \<le> 2
    \<and> (\<forall>i < length pauses. pauses ! i = millis 200 * 2 ^ i
         \<and> (\<exists>e. connect_async E (i + 1) (reqs ! i) = Inl e \<and> is_io_error e))
    \<and> (\<forall>i < length reqs. prepare_upgrade E (i + 1) raw signer = Ok (reqs ! i)
         \<and> (is_presigned E raw \<longrightarrow> upgrade_request E (i + 1) raw = Ok (reqs ! i)))"
proof -
  note facts = dial_loop_counts [OF assms [unfolded dial_def]]
  have "is_presigned E raw \<Longrightarrow> prepare_upgrade E n raw signer = Ok q \<Longrightarrow> upgrade_request E n raw = Ok q"
    for n q
    by (auto simp: prepare_upgrade_def split: option.splits)
  then show ?thesis
    using facts by (auto simp: CONNECT_ATTEMPTS_def)
qed

theorem dial_bounded_and_fresh_witness:
  "\<exists>reqs. dial toy_endpoint_ext ''wss://h'' (Some ''eu'') = (Ok (), reqs, [millis 200]) \<and> length reqs \<le> 3
     \<and> (\<forall>i < length reqs. prepare_upgrade toy_endpoint_ext (i + 1) ''wss://h'' (Some ''eu'') = Ok (reqs ! i))"
proof -
  obtain r reqs pauses where d: "dial toy_endpoint_ext ''wss://h'' (Some ''eu'') = (r, reqs, pauses)"
    by (cases "dial toy_endpoint_ext ''wss://h'' (Some ''eu'')")
  moreover have "r = Ok () \<and> pauses = [millis 200]"
    using d by (auto simp: dial_def CONNECT_ATTEMPTS_def numeral_3_eq_3 prepare_upgrade_def
        upgrade_request_def is_presigned_def signer_sign_def sign_request_def toy_endpoint_ext_def Let_def header_to_str_def)
  ultimately show ?thesis
    using dial_bounded_and_fresh [OF d] by auto
qed

text \<open>
  The URL that reaches the log carries no token: every query parameter named \<^verbatim>\<open>tokenValue\<close>, in
  any spelling of upper and lower case, is gone and the others are kept in order.
\<close>

theorem sanitized_url_has_no_token:
  assumes "url_parse E raw = Inr u"
  shows "\<exists>u'. sanitize_url E raw = url_render E u' \<and> scheme u' = scheme u \<and> host_str u' = host_str u
    \<and> (\<forall>(k, v) \<in> set (query_pairs u'). \<not> eq_ignore_ascii_case k ''tokenValue'')
    \<and> (\<forall>(k, v) \<in> set (query_pairs u). \<not> eq_ignore_ascii_case k ''tokenValue'' \<longrightarrow> (k, v) \<in> set (query_pairs u'))
    \<and> subseq (query_pairs u') (query_pairs u)"
  using assms by (auto simp: sanitize_url_def Let_def intro!: exI)

theorem sanitized_url_has_no_token_witness:
  "\<exists>u'. sanitize_url toy_endpoint_ext ''wss://h'' = url_render toy_endpoint_ext u' \<and> scheme u' = ''wss''"
  using sanitized_url_has_no_token [of toy_endpoint_ext "''wss://h''"
      "\<lparr>scheme = ''wss'', host_str = Some ''h'', query_pairs = [], url_rest = []\<rparr>"]
  by (auto simp: toy_endpoint_ext_def)

end
