(* ===== verification/Connection.thy ===== *)
theory Connection
  imports Outbound Endpoint
begin

text \<open>
  \<^verbatim>\<open>src/connection.rs\<close>: the reader task with the routing of inbound messages, the heartbeat and
  retransmission tasks, and the opening of the channel. Each task's loop body is one definition;
  its first component says whether the task goes on. The outbound half is in theory Outbound, the
  endpoint policy and the dialling in theory Endpoint.
\<close>

section \<open>State and environment\<close>

text \<open>
  The reader's own state. It is parked in the middle of a message when a reply it has to send must
  wait, for room with the frame it has built or for the lock without one; it then reads no other frame.
  What is left to do once the reply is out depends on what was answered.
\<close>

datatype after_reply = Refused msg | Accepted | Answered

record reader_state = channel_state +
  handshake :: handshake_handler
  handshake_started :: "instant option"
  reader_parked :: "(bytes option \<times> payload_type \<times> bytes \<times> after_reply) option"

record open_data_channel_input =
  message_schema_version :: string
  request_id :: string
  token_value :: string
  client_id :: string
  open_client_version :: string

record conn_ext = handshake_ext +
  open_accepted :: "string \<Rightarrow> string + unit"

text \<open>The documents of this file: the explanation in a \<^verbatim>\<open>channel_closed\<close> message, which may be missing, and the open message.\<close>

definition channel_closed_from_slice :: "'e json_ext_scheme \<Rightarrow> bytes \<Rightarrow> (string option, string) result" where
  "channel_closed_from_slice E bs =
    from_slice E ''ChannelClosed'' (read_struct1 ''Output'' (read_option read_string) (Some None)) bs"

definition open_to_json :: "open_data_channel_input \<Rightarrow> json" where
  "open_to_json i = JObj
    [(''MessageSchemaVersion'', JStr (message_schema_version i)), (''RequestId'', JStr (request_id i)),
     (''TokenValue'', JStr (token_value i)), (''ClientId'', JStr (client_id i)),
     (''ClientVersion'', JStr (open_client_version i))]"

definition open_to_string :: "'e json_ext_scheme \<Rightarrow> open_data_channel_input \<Rightarrow> string + string" where
  "open_to_string E i = json_print E (open_to_json i)"

definition MESSAGE_SCHEMA_VERSION :: string where "MESSAGE_SCHEMA_VERSION = ''1.0''"
definition RETRANSMIT_TICK :: duration where "RETRANSMIT_TICK = millis 100"

section \<open>Inbound payloads\<close>

definition decrypt_if_needed ::
    "'e crypto_ext_scheme \<Rightarrow> client_message \<Rightarrow> 'z channel_state_scheme \<Rightarrow> (bytes, error) result" where
  "decrypt_if_needed E m s =
    (case stream_crypto (stream s) of
       Some c \<Rightarrow> if is_encrypted_inbound (payload_type m) then decrypt E c (payload m) else Ok (payload m)
     | None \<Rightarrow> Ok (payload m))"

definition truncate :: "string \<Rightarrow> nat \<Rightarrow> string" where
  "truncate text n = take_chars n text"

definition channel_closed_detail :: "'e conn_ext_scheme \<Rightarrow> bytes \<Rightarrow> string option" where
  "channel_closed_detail E pl =
    (let text = (case channel_closed_from_slice E pl of
         Ok out \<Rightarrow> (case out of Some t \<Rightarrow> t | None \<Rightarrow> [])
       | _ \<Rightarrow> from_utf8_lossy pl);
         trimmed = truncate (trim text) 500
     in if trimmed = [] then None else Some trimmed)"

fun join_msgs :: "msg list \<Rightarrow> msg" where
  "join_msgs [] = []"
| "join_msgs [m] = m"
| "join_msgs (m # ms) = m @ [Txt ''; ''] @ join_msgs ms"

fun malformed :: "string \<Rightarrow> ('a, string) result \<Rightarrow> ('a, error) result" where
  "malformed what (Ok a) = Ok a"
| "malformed what (Err e) = Err (Protocol [Txt (''malformed '' @ what @ '': ''), Str e])"
| "malformed what Panic = Panic"

fun json_error :: "('a, string) result \<Rightarrow> ('a, error) result" where
  "json_error (Ok a) = Ok a"
| "json_error (Err e) = Err (Serialization e)"
| "json_error Panic = Panic"

section \<open>Delivering one message\<close>

definition deliver_output ::
    "'e crypto_ext_scheme \<Rightarrow> client_message \<Rightarrow> reader_state \<Rightarrow> unit io \<times> reader_state" where
  "deliver_output E m r =
    (let r1 = (if is_sendable (core r) then r else r\<lparr>core := set_sendable True (core r)\<rparr>) in
     if payload m = [] then (Done (Ok ()), r1)
     else bind_io (Done (decrypt_if_needed E m r1), r1) (\<lambda>p r1.
       (Done (Ok ()), r1\<lparr>core := emit_output p (core r1)\<rparr>)))"

text \<open>The tail of the handshake branch, in two parts: what a request that was carried out leaves
  behind, and the reply.\<close>

definition handshake_accepted :: "reader_state \<Rightarrow> reader_state" where
  "handshake_accepted r =
    (let r1 = r\<lparr>core := set_agent_version (agent_version (handshake r)) (core r)\<rparr> in
     case crypto (handshake r1) of
       Some c \<Rightarrow> r1\<lparr>stream := set_crypto c (stream r1)\<rparr>
     | None \<Rightarrow> r1)"

fun go_on_after :: "after_reply \<Rightarrow> reader_state \<Rightarrow> unit io \<times> reader_state" where
  "go_on_after (Refused errors) r = (Done (Err (Unsupported errors)), r)"
| "go_on_after Accepted r = (Done (Ok ()), handshake_accepted r)"
| "go_on_after Answered r = (Done (Ok ()), r)"

definition park_reader ::
    "bytes option \<Rightarrow> payload_type \<Rightarrow> bytes \<Rightarrow> after_reply \<Rightarrow> reader_state \<Rightarrow> reader_state" where
  "park_reader held pt pl after r =
    r\<lparr>reader_parked := Some (held, pt, pl, after), sequence_locked := (sequence_locked r \<or> held \<noteq> None)\<rparr>"

definition send_reply ::
    "'e conn_ext_scheme \<Rightarrow> payload_type \<Rightarrow> bytes \<Rightarrow> after_reply \<Rightarrow> reader_state \<Rightarrow> unit io \<times> reader_state" where
  "send_reply E pt pl after r =
    (case send_payload E pt pl r of
       (Waits held, r1) \<Rightarrow> (Waits held, park_reader held pt pl after r1)
     | (Done x, r1) \<Rightarrow> bind_io (Done x, r1) (\<lambda>_. go_on_after after))"

definition answer_handshake ::
    "'e conn_ext_scheme \<Rightarrow> handshake_response \<Rightarrow> reader_state \<Rightarrow> unit io \<times> reader_state" where
  "answer_handshake E response r =
    (let failed = (hs_state (handshake r) = Failed); errors = join_msgs (resp_errors response) in
     bind_io (Done (response_payload E response), r) (\<lambda>pl r.
       send_reply E HandshakeResponse pl (if failed then Refused errors else Accepted) r))"

definition deliver_handshake_request ::
    "'e conn_ext_scheme \<Rightarrow> client_message \<Rightarrow> reader_state \<Rightarrow> unit io \<times> reader_state" where
  "deliver_handshake_request E m r =
    bind_io (Done (malformed ''HandshakeRequest'' (request_from_slice E (payload m))), r) (\<lambda>request r.
     let r1 = r\<lparr>handshake_started := (case handshake_started r of None \<Rightarrow> Some (clock r) | Some t \<Rightarrow> Some t)\<rparr>;
         (answer, h) = on_request E (draws r1) request (handshake r1);
         r2 = r1\<lparr>handshake := h, draws := draws r1 + length (requested_client_actions request)\<rparr>
     in bind_io (Done answer, r2) (\<lambda>answer r2.
       case answer of
         None \<Rightarrow> (Done (Ok ()), r2)
       | Some response \<Rightarrow> answer_handshake E response r2))"

definition deliver_handshake_complete ::
    "'e conn_ext_scheme \<Rightarrow> client_message \<Rightarrow> reader_state \<Rightarrow> unit io \<times> reader_state" where
  "deliver_handshake_complete E m r =
    bind_io (Done (malformed ''HandshakeComplete'' (complete_from_slice E (payload m))), r) (\<lambda>complete r.
     let (b, h) = on_complete complete (handshake r); r1 = r\<lparr>handshake := h\<rparr> in
     bind_io (Done b, r1) (\<lambda>b r1.
       (Done (Ok ()), r1\<lparr>handshake_started := None,
          core := set_sendable True (set_session_banner b (core r1))\<rparr>)))"

definition deliver_challenge ::
    "'e conn_ext_scheme \<Rightarrow> client_message \<Rightarrow> reader_state \<Rightarrow> unit io \<times> reader_state" where
  "deliver_challenge E m r =
    bind_io (Done (malformed ''encryption challenge'' (parse_challenge E (payload m))), r) (\<lambda>challenge r.
     let r1 = r\<lparr>draws := Suc (draws r)\<rparr> in
     bind_io (Done (answer_challenge E (draws r) challenge (handshake r)), r1) (\<lambda>answer r1.
     bind_io (Done (json_error (print_challenge E answer)), r1) (\<lambda>pl r1.
       send_reply E EncChallengeResponse pl Answered r1)))"

definition deliver_exit_code ::
    "'e crypto_ext_scheme \<Rightarrow> client_message \<Rightarrow> reader_state \<Rightarrow> unit io \<times> reader_state" where
  "deliver_exit_code E m r =
    bind_io (Done (decrypt_if_needed E m r), r) (\<lambda>p r.
     let code = (case from_utf8 p of Some text \<Rightarrow> parse_i32 (trim text) | None \<Rightarrow> None) in
     (Done (Ok ()), r\<lparr>core := set_exit_code code (core r)\<rparr>))"

definition deliver_flag :: "client_message \<Rightarrow> reader_state \<Rightarrow> unit io \<times> reader_state" where
  "deliver_flag m r =
    (Done (Ok ()),
     if from_payload (payload m) = Some TerminateSession
     then close_core (AgentClosed (exit_code (core r)) None) r
     else r)"

definition deliver ::
    "'e conn_ext_scheme \<Rightarrow> client_message \<Rightarrow> reader_state \<Rightarrow> unit io \<times> reader_state" where
  "deliver E m r =
    (case payload_type m of
       Output \<Rightarrow> deliver_output E m r
     | StdErr \<Rightarrow> deliver_output E m r
     | Undefined \<Rightarrow> deliver_output E m r
     | HandshakeRequest \<Rightarrow> deliver_handshake_request E m r
     | HandshakeComplete \<Rightarrow> deliver_handshake_complete E m r
     | EncChallengeRequest \<Rightarrow> deliver_challenge E m r
     | ExitCode \<Rightarrow> deliver_exit_code E m r
     | Flag \<Rightarrow> deliver_flag m r
     | Error \<Rightarrow> (Done (Ok ()), r)
     | _ \<Rightarrow> (Done (Ok ()), r))"

section \<open>What delivering leaves alone\<close>

lemma track_and_write_stream:
  "\<exists>b n. stream (snd (track_and_write f s)) = (stream s)\<lparr>outgoing := b, stream_sequence := n\<rparr>"
proof -
  have "\<exists>b n. stream s = (stream s)\<lparr>outgoing := b, stream_sequence := n\<rparr>"
    by (intro exI [of _ "outgoing (stream s)"] exI [of _ "stream_sequence (stream s)"]) simp
  then show ?thesis
    by (auto simp: track_and_write_def Let_def split_beta split: bool.splits)
qed

lemma send_payload_stream:
  "\<exists>b n. stream (snd (send_payload E pt pl s)) = (stream s)\<lparr>outgoing := b, stream_sequence := n\<rparr>"
proof -
  have keep: "\<exists>b n. stream s = (stream s)\<lparr>outgoing := b, stream_sequence := n\<rparr>"
    by (intro exI [of _ "outgoing (stream s)"] exI [of _ "stream_sequence (stream s)"]) simp
  obtain r s1 where sp: "seal_payload E pt pl s = (r, s1)" by (cases "seal_payload E pt pl s")
  obtain n where s1: "s1 = s\<lparr>draws := n\<rparr>" using seal_payload_kept [OF sp] by blast
  from keep show ?thesis
    using sp s1 track_and_write_stream [where s = "s\<lparr>draws := Suc n\<rparr>"]
    by (cases r) (auto simp: send_payload_def build_outbound_def)
qed

lemma send_payload_inbound [simp]:
  "incoming (stream (snd (send_payload E pt pl s))) = incoming (stream s)"
  "expected (stream (snd (send_payload E pt pl s))) = expected (stream s)"
  "stream_crypto (stream (snd (send_payload E pt pl s))) = stream_crypto (stream s)"
  using send_payload_stream [of E pt pl s] by auto

lemma parked_more: "channel_state.more r = channel_state.more s \<Longrightarrow> reader_parked r = reader_parked s"
  by (cases r; cases s) simp

lemma send_parked [simp]:
  "reader_parked (snd (track_and_write f r)) = reader_parked r"
  "reader_parked (snd (send_payload E pt pl r)) = reader_parked r"
  by (rule parked_more, simp)+

text \<open>A property of the state that every part of a sequence keeps is kept by the sequence.\<close>

lemma bind_io_keeps:
  assumes "P (snd c)" and "\<And>a s. P s \<Longrightarrow> P (snd (f a s))"
  shows "P (snd (bind_io c f))"
proof (cases c)
  case (Pair r s)
  then show ?thesis
  proof (cases r)
    case (Done res)
    with Pair assms show ?thesis by (cases res) auto
  qed (use Pair assms in auto)
qed

text \<open>
  Delivering changes the state by operations of the session core, by sends, by the handshake
  handler and by fixing the key. Whatever these keep, delivering any message keeps.
\<close>

locale delivery_invariant =
  fixes P :: "reader_state \<Rightarrow> bool" and E :: "'e conn_ext_scheme"
  assumes core_op: "P s \<Longrightarrow> P (s\<lparr>core := core_step op (core s)\<rparr>)"
    and sends: "P s \<Longrightarrow> send_payload E pt pl s = (x, s') \<Longrightarrow>
        P (case x of Waits held \<Rightarrow> park_reader held pt pl a s' | Done _ \<Rightarrow> s')"
    and fixes_key: "P s \<Longrightarrow> P (s\<lparr>stream := set_crypto c (stream s)\<rparr>)"
    and handler: "P s \<Longrightarrow> P (s\<lparr>handshake := h\<rparr>)"
    and started: "P s \<Longrightarrow> P (s\<lparr>handshake_started := t\<rparr>)"
    and draw: "P s \<Longrightarrow> P (s\<lparr>draws := n\<rparr>)"
begin

lemma core_updates:
  assumes "P s"
  shows "P (s\<lparr>core := set_sendable b (core s)\<rparr>)" and "P (s\<lparr>core := emit_output d (core s)\<rparr>)"
    and "P (s\<lparr>core := set_agent_version v (core s)\<rparr>)"
    and "P (s\<lparr>core := set_session_banner t (core s)\<rparr>)"
    and "P (s\<lparr>core := set_exit_code x (core s)\<rparr>)" and "P (close_core q s)"
  using assms core_op [of s "SetSendable b"] core_op [of s "Emit d"] core_op [of s "SetVersion v"]
    core_op [of s "SetBanner t"] core_op [of s "SetExit x"] core_op [of s "CloseCore q"]
  by (simp_all add: close_core_def)

lemma keeps_output: "P r \<Longrightarrow> P (snd (deliver_output E m r))"
  unfolding deliver_output_def Let_def
  by (auto intro!: bind_io_keeps [where P = P] core_updates)

lemma keeps_accepted:
  assumes "P r"
  shows "P (handshake_accepted r)"
proof -
  let ?r = "r\<lparr>core := set_agent_version (agent_version (handshake r)) (core r)\<rparr>"
  have "P ?r" using assms by (rule core_updates)
  then show ?thesis
    using fixes_key [of ?r] by (auto simp: handshake_accepted_def Let_def split: option.split)
qed

lemma keeps_go_on: "P r \<Longrightarrow> P (snd (go_on_after a r))"
  by (cases a) (simp_all add: keeps_accepted)

lemma keeps_reply: "P r \<Longrightarrow> P (snd (send_reply E pt pl a r))"
proof -
  assume r: "P r"
  obtain x r1 where x: "send_payload E pt pl r = (x, r1)" by (cases "send_payload E pt pl r")
  show ?thesis
    using sends [OF r x, of a] x
    by (auto simp: send_reply_def intro!: bind_io_keeps [where P = P] keeps_go_on split: io.splits)
qed

lemma keeps_answer: "P r \<Longrightarrow> P (snd (answer_handshake E resp r))"
  unfolding answer_handshake_def Let_def
  by (auto intro!: bind_io_keeps [where P = P] keeps_reply)

lemma keeps_handshake_request: "P r \<Longrightarrow> P (snd (deliver_handshake_request E m r))"
  unfolding deliver_handshake_request_def Let_def split_beta
  by (auto intro!: bind_io_keeps [where P = P] started handler draw keeps_answer split: option.split)

lemma keeps_handshake_complete: "P r \<Longrightarrow> P (snd (deliver_handshake_complete E m r))"
proof -
  assume r: "P r"
  have "P (s\<lparr>handshake_started := None, core := set_sendable True (set_session_banner b (core s))\<rparr>)"
    if "P s" for s b
    using core_updates(1) [OF core_updates(4) [OF started [OF that, of None]], of True b] by simp
  with r show ?thesis
    unfolding deliver_handshake_complete_def Let_def split_beta
    by (auto intro!: bind_io_keeps [where P = P] handler)
qed

lemma keeps_challenge: "P r \<Longrightarrow> P (snd (deliver_challenge E m r))"
  unfolding deliver_challenge_def Let_def
  by (auto intro!: bind_io_keeps [where P = P] draw keeps_reply)

lemma keeps_exit_code: "P r \<Longrightarrow> P (snd (deliver_exit_code E m r))"
  unfolding deliver_exit_code_def Let_def
  by (auto intro!: bind_io_keeps [where P = P] core_updates)

lemma keeps_deliver: "P r \<Longrightarrow> P (snd (deliver E m r))"
  by (auto simp: deliver_def deliver_flag_def split: payload_type.split
      intro: keeps_output keeps_handshake_request keeps_handshake_complete keeps_challenge
        keeps_exit_code core_updates)

end

definition same_inbound :: "continuity \<Rightarrow> reader_state \<Rightarrow> bool" where
  "same_inbound k s \<longleftrightarrow> incoming (stream s) = incoming k \<and> expected (stream s) = expected k"

lemma same_inbound_sent:
  assumes "same_inbound k s" and "send_payload E pt pl s = (x, s')"
  shows "same_inbound k (case x of Waits held \<Rightarrow> park_reader held pt pl a s' | Done _ \<Rightarrow> s')"
  using assms send_payload_inbound [of E pt pl s]
  by (auto simp: same_inbound_def park_reader_def split: io.split)

interpretation inbound: delivery_invariant "same_inbound k" E
  by unfold_locales (simp_all add: same_inbound_sent, simp_all add: same_inbound_def set_crypto_def)

lemma deliver_inbound [simp]:
  "incoming (stream (snd (deliver E m r))) = incoming (stream r)"
  "expected (stream (snd (deliver E m r))) = expected (stream r)"
  using inbound.keeps_deliver [of "stream r" r E m] by (simp_all add: same_inbound_def)

section \<open>Routing\<close>

definition send_ack ::
    "'e wire_ext_scheme \<Rightarrow> client_message \<Rightarrow> bool \<Rightarrow> 'z channel_state_scheme \<Rightarrow> 'z channel_state_scheme" where
  "send_ack E m sequential s =
    (case build_ack E (draws s) m sequential of
       Ok reply \<Rightarrow> snd (try_write (Binary (serialize reply)) (s\<lparr>draws := Suc (draws s)\<rparr>))
     | _ \<Rightarrow> s\<lparr>draws := Suc (draws s)\<rparr>)"

definition advance_expected :: "reader_state \<Rightarrow> i64 \<times> reader_state" where
  "advance_expected r =
    (let n = expected (stream r) + 1 in (n, r\<lparr>stream := (stream r)\<lparr>expected := n\<rparr>\<rparr>))"

text \<open>Drain whatever the gap was holding back.\<close>

function drain :: "'e conn_ext_scheme \<Rightarrow> i64 \<Rightarrow> reader_state \<Rightarrow> unit io \<times> reader_state" where
  "drain E next r =
    (case inc_take next (incoming (stream r)) of
       (None, b) \<Rightarrow> (Done (Ok ()), r\<lparr>stream := (stream r)\<lparr>incoming := b\<rparr>\<rparr>)
     | (Some m, b) \<Rightarrow>
         (case deliver E m (r\<lparr>stream := (stream r)\<lparr>incoming := b\<rparr>\<rparr>) of
            (Done (Ok _), r1) \<Rightarrow> (let (next', r2) = advance_expected r1 in drain E next' r2)
          | (res, r1) \<Rightarrow> (res, r1)))"
  by pat_completeness auto

lemma inc_take_shrinks:
  assumes "(Some m, b') = inc_take s b"
  shows "length (messages b') < length (messages b)"
proof -
  from assms have "map_of (messages b) s = Some m" and b': "messages b' = AList.delete s (messages b)"
    by (simp_all add: inc_take_def)
  then have "s \<in> fst ` set (messages b)" by (force dest: map_of_SomeD)
  then show ?thesis unfolding b' by (rule length_AList_delete_present)
qed

lemma deliver_eq_inbound:
  assumes "(x, r') = deliver E m r"
  shows "incoming (stream r') = incoming (stream r)" and "expected (stream r') = expected (stream r)"
  using deliver_inbound [of E m r] unfolding assms [symmetric] by simp_all

termination drain
  by (relation "measure (\<lambda>(E, next, r). length (messages (incoming (stream r))))")
    (auto simp: advance_expected_def Let_def dest!: inc_take_shrinks deliver_eq_inbound(1))

declare drain.simps [simp del]

definition route_stream_data ::
    "'e conn_ext_scheme \<Rightarrow> client_message \<Rightarrow> reader_state \<Rightarrow> unit io \<times> reader_state" where
  "route_stream_data E m r =
    (if sint (sequence_number m) < sint (expected (stream r)) then (Done (Ok ()), r)
     else if sint (expected (stream r)) < sint (sequence_number m) then
       (case inc_insert m (incoming (stream r)) of
          (True, b) \<Rightarrow> (Done (Ok ()), send_ack E m False (r\<lparr>stream := (stream r)\<lparr>incoming := b\<rparr>\<rparr>))
        | (False, _) \<Rightarrow> (Done (Ok ()), r))
     else
       bind_io (deliver E m (send_ack E m True r)) (\<lambda>_ r1.
         let (next, r2) = advance_expected r1 in drain E next r2))"

definition route :: "'e conn_ext_scheme \<Rightarrow> client_message \<Rightarrow> reader_state \<Rightarrow> unit io \<times> reader_state" where
  "route E m r =
    (case message_type m of
       OutputStreamData \<Rightarrow> route_stream_data E m r
     | Acknowledge \<Rightarrow>
         bind_io (Done (parse_ack E m), r) (\<lambda>content r.
           let (known, b) = acknowledge (clock r) (ack_sequence_number content) (outgoing (stream r))
           in (Done (Ok ()), r\<lparr>stream := (stream r)\<lparr>outgoing := b\<rparr>\<rparr>))
     | StartPublication \<Rightarrow> (Done (Ok ()), r\<lparr>core := set_sendable True (core r)\<rparr>)
     | PausePublication \<Rightarrow> (Done (Ok ()), r\<lparr>core := set_sendable False (core r)\<rparr>)
     | ChannelClosed \<Rightarrow>
         (Done (Ok ()),
          close_core (AgentClosed (exit_code (core r)) (channel_closed_detail E (payload m))) r)
     | InputStreamData \<Rightarrow> (Done (Ok ()), r))"

definition handle_text :: "string \<Rightarrow> reader_state \<Rightarrow> close_reason option \<times> reader_state" where
  "handle_text text r =
    (let t = trim text in
     if t = ''start_publication'' then (None, r\<lparr>core := set_sendable True (core r)\<rparr>)
     else if t = ''pause_publication'' then (None, r\<lparr>core := set_sendable False (core r)\<rparr>)
     else if t = ''channel_closed'' then (Some (AgentClosed (exit_code (core r)) None), r)
     else (None, r))"

section \<open>The tasks\<close>

text \<open>What the WebSocket source yields.\<close>

datatype ws_event = Frame ws_message | ReadError | StreamEnded

text \<open>How the loop goes on after a message: on an error the reader closes the session and ends.\<close>

definition after_route :: "unit io \<times> reader_state \<Rightarrow> bool \<times> reader_state" where
  "after_route p =
    (case p of
       (Done (Ok _), r) \<Rightarrow> (True, r)
     | (Done (Err e), r) \<Rightarrow> (False, close_core (Protocol_Failure (error_to_string e)) r)
     | (Done Panic, r) \<Rightarrow> (False, r)
     | (Waits _, r) \<Rightarrow> (True, r))"

definition reader_step :: "'e conn_ext_scheme \<Rightarrow> ws_event \<Rightarrow> reader_state \<Rightarrow> bool \<times> reader_state" where
  "reader_step E ev r =
    (if reader_parked r \<noteq> None then (True, r)
     else if closed_now r then (False, r)
     else
       let r0 = mark_inbound r in
       case ev of
         Frame (Binary data) \<Rightarrow>
           (case deserialize (sha256 E) data of
              Err e \<Rightarrow> (False, close_core (Protocol_Failure (error_to_string e)) r0)
            | Panic \<Rightarrow> (False, r0)
            | Ok m \<Rightarrow> after_route (route E m r0))
       | Frame (Text text) \<Rightarrow>
           (case handle_text text r0 of
              (Some reason, r1) \<Rightarrow> (False, close_core reason r1)
            | (None, r1) \<Rightarrow> (True, r1))
       | Frame (CloseFrame reason) \<Rightarrow>
           (False, close_core (AgentClosed (exit_code (core r0))
              (case reason of
                 Some s \<Rightarrow> if trim s = [] then None else Some (trim s)
               | None \<Rightarrow> None)) r0)
       | Frame _ \<Rightarrow> (True, r0)
       | ReadError \<Rightarrow> (False, close_core (Transport_Failure [Txt ''WebSocket read failed: '', Foreign]) r0)
       | StreamEnded \<Rightarrow> (False, close_core (Transport_Failure [Txt ''WebSocket stream ended'']) r0))"

text \<open>
  The reader in the middle of a reply. With the frame built it holds the lock and looks for room again; without it,
  it was waiting for the lock and sends now. Then it goes on with the message and with what the gap held back.
\<close>

definition retry_reply ::
    "'e conn_ext_scheme \<Rightarrow> bytes option \<Rightarrow> payload_type \<Rightarrow> bytes \<Rightarrow> after_reply \<Rightarrow> reader_state \<Rightarrow> unit io \<times> reader_state" where
  "retry_reply E held pt pl after r =
    (case held of
       None \<Rightarrow> send_reply E pt pl after r
     | Some f \<Rightarrow>
         (case track_and_write f r of
            (Waits w, r1) \<Rightarrow> (Waits w, park_reader w pt pl after r1)
          | (Done x, r1) \<Rightarrow> bind_io (Done x, r1\<lparr>sequence_locked := False\<rparr>) (\<lambda>_. go_on_after after)))"

definition reader_resume :: "'e conn_ext_scheme \<Rightarrow> reader_state \<Rightarrow> bool \<times> reader_state" where
  "reader_resume E r =
    (case reader_parked r of
       None \<Rightarrow> (True, r)
     | Some (held, pt, pl, after) \<Rightarrow>
         after_route (bind_io (retry_reply E held pt pl after (r\<lparr>reader_parked := None\<rparr>)) (\<lambda>_ r1.
           let (next, r2) = advance_expected r1 in drain E next r2)))"

section \<open>What the reader leaves alone\<close>

text \<open>
  Beyond delivering, the reader moves the reorder buffer and the expected number, takes
  acknowledgements, queues its own, and takes up a reply that had to wait. What these keep as well, every step of it keeps.
\<close>

locale reader_invariant = delivery_invariant P E for P :: "reader_state \<Rightarrow> bool" and E :: "'e conn_ext_scheme" +
  assumes takes: "P s \<Longrightarrow> P (s\<lparr>stream := (stream s)\<lparr>incoming := snd (inc_take n (incoming (stream s)))\<rparr>\<rparr>)"
    and inserts: "P s \<Longrightarrow> P (s\<lparr>stream := (stream s)\<lparr>incoming := snd (inc_insert m (incoming (stream s)))\<rparr>\<rparr>)"
    and advances: "P s \<Longrightarrow> P (s\<lparr>stream := (stream s)\<lparr>expected := e\<rparr>\<rparr>)"
    and acks: "P s \<Longrightarrow> P (s\<lparr>stream := (stream s)\<lparr>outgoing := snd (acknowledge t q (outgoing (stream s)))\<rparr>\<rparr>)"
    and queues: "P s \<Longrightarrow> P (s\<lparr>writer := snd (try_send fr (writer s))\<rparr>)"
    and marks: "P s \<Longrightarrow> P (s\<lparr>last_inbound := t\<rparr>)"
    and unparks: "P s \<Longrightarrow> P (s\<lparr>reader_parked := None\<rparr>)"
    and retries: "P s \<Longrightarrow> reader_parked s = Some (Some f, pt, pl, a) \<Longrightarrow>
        track_and_write f (s\<lparr>reader_parked := None\<rparr>) = (x, s') \<Longrightarrow>
        P (case x of Waits w \<Rightarrow> park_reader w pt pl a s' | Done _ \<Rightarrow> s'\<lparr>sequence_locked := False\<rparr>)"
begin

lemma keeps_advance: "P r \<Longrightarrow> P (snd (advance_expected r))"
  by (simp add: advance_expected_def Let_def advances)

lemma keeps_drain: "E' = E \<Longrightarrow> P r \<Longrightarrow> P (snd (drain E' n r))"
proof (induction E' n r rule: drain.induct)
  case (1 E' n r)
  obtain x b where tk: "inc_take n (incoming (stream r)) = (x, b)"
    by (cases "inc_take n (incoming (stream r))")
  let ?r0 = "r\<lparr>stream := (stream r)\<lparr>incoming := b\<rparr>\<rparr>"
  have r0: "P ?r0" using takes [OF 1(3), of n] tk by simp
  show ?case
  proof (cases x)
    case None
    then show ?thesis using r0 by (subst drain.simps) (simp add: tk)
  next
    case (Some m)
    obtain d r1 where dl: "deliver E' m ?r0 = (d, r1)" by (cases "deliver E' m ?r0")
    have r1: "P r1" using keeps_deliver [OF r0, of m] dl 1(2) by simp
    obtain n' r2 where adv: "advance_expected r1 = (n', r2)" by (cases "advance_expected r1")
    have r2: "P r2" using keeps_advance [OF r1] adv by simp
    have tk': "(Some m, b) = inc_take n (incoming (stream r))" using tk Some by simp
    show ?thesis
    proof (cases "d = Done (Ok ())")
      case True
      have "P (snd (drain E' n' r2))"
        using 1(1) [OF tk' refl dl [symmetric] True refl adv [symmetric] refl 1(2) r2] .
      then show ?thesis using True by (subst drain.simps) (simp add: tk Some dl adv)
    next
      case False
      then show ?thesis using r1
        by (subst drain.simps) (simp add: tk Some dl split: io.split result.split)
    qed
  qed
qed

lemma keeps_send_ack: "P r \<Longrightarrow> P (send_ack E m q r)"
  using draw [of r] queues [of "r\<lparr>draws := Suc (draws r)\<rparr>"]
  by (auto simp: send_ack_def try_write_def split_beta split: result.split)

lemma keeps_advance_drain: "P r \<Longrightarrow> P (snd (let (next, r2) = advance_expected r in drain E next r2))"
  using keeps_drain [OF refl] keeps_advance by (metis (no_types, lifting) case_prod_beta)

lemma keeps_route_stream: "P r \<Longrightarrow> P (snd (route_stream_data E m r))"
proof -
  assume r: "P r"
  obtain ok b where ins: "inc_insert m (incoming (stream r)) = (ok, b)"
    by (cases "inc_insert m (incoming (stream r))")
  have "P (send_ack E m q (r\<lparr>stream := (stream r)\<lparr>incoming := b\<rparr>\<rparr>))" for q
    using keeps_send_ack [OF inserts [OF r, of m]] ins by simp
  moreover have "P (snd (bind_io (deliver E m (send_ack E m True r)) (\<lambda>_ r1.
      let (next, r2) = advance_expected r1 in drain E next r2)))"
  proof (rule bind_io_keeps)
    show "P (snd (deliver E m (send_ack E m True r)))" by (intro keeps_deliver keeps_send_ack r)
    show "P s \<Longrightarrow> P (snd (let (next, r2) = advance_expected s in drain E next r2))" for s
      by (rule keeps_advance_drain)
  qed
  ultimately show ?thesis using r ins by (simp add: route_stream_data_def split: bool.split)
qed

lemma keeps_route: "P r \<Longrightarrow> P (snd (route E m r))"
proof -
  assume r: "P r"
  have "P (snd (bind_io (Done (parse_ack E m), r) (\<lambda>content r.
      let (known, b) = acknowledge (clock r) (ack_sequence_number content) (outgoing (stream r))
      in (Done (Ok ()), r\<lparr>stream := (stream r)\<lparr>outgoing := b\<rparr>\<rparr>))))"
    using r by (intro bind_io_keeps [where P = P]) (simp_all add: split_beta acks)
  then show ?thesis
    using r core_updates(1,6) [OF r] by (simp add: route_def keeps_route_stream split: message_type.split)
qed

lemma keeps_after_route: "P (snd p) \<Longrightarrow> P (snd (after_route p))"
  by (auto simp: after_route_def intro: core_updates(6) split: prod.split io.split result.split)

lemma keeps_reader_step: "P r \<Longrightarrow> P (snd (reader_step E ev r))"
proof -
  assume r: "P r"
  have m: "P (mark_inbound r)" unfolding mark_inbound_def by (rule marks [OF r])
  have handled: "P (snd (handle_text t (mark_inbound r)))" for t
    using core_updates(1) [OF m] m by (simp add: handle_text_def Let_def)
  have bin: "P (snd (reader_step E (Frame (Binary data)) r))" for data
  proof (cases "deserialize (sha256 E) data")
    case (Ok x)
    show ?thesis using r keeps_after_route [OF keeps_route [OF m, of x]] by (simp add: reader_step_def Ok Let_def)
  qed (use r m core_updates(6) [OF m] in \<open>simp_all add: reader_step_def\<close>)
  have "P (snd (reader_step E (Frame (Text t)) r))" for t
    using r m handled [of t] by (cases "handle_text t (mark_inbound r)")
      (auto simp: reader_step_def intro: core_updates(6) split: option.split)
  moreover have "P (snd (reader_step E (Frame (CloseFrame w)) r))" for w
    using r core_updates(6) [OF m] by (simp add: reader_step_def Let_def)
  ultimately show ?thesis
    using r m bin core_updates(6) [OF m]
    by (cases ev) (auto simp: reader_step_def Let_def split: ws_message.split)
qed

lemma keeps_retry:
  assumes "P r" and "reader_parked r = Some (held, pt, pl, a)"
  shows "P (snd (retry_reply E held pt pl a (r\<lparr>reader_parked := None\<rparr>)))"
proof (cases held)
  case None
  then show ?thesis using keeps_reply [OF unparks [OF assms(1)]] by (simp add: retry_reply_def)
next
  case (Some f)
  let ?r = "r\<lparr>reader_parked := None\<rparr>"
  obtain x r1 where x: "track_and_write f ?r = (x, r1)" by (cases "track_and_write f ?r")
  show ?thesis
    using retries [OF assms(1) _ x] assms(2) Some x
    by (auto simp: retry_reply_def intro!: bind_io_keeps [where P = P] keeps_go_on split: io.splits)
qed

lemma keeps_resume: "P r \<Longrightarrow> P (snd (reader_resume E r))"
  unfolding reader_resume_def
  by (auto intro!: keeps_after_route bind_io_keeps [where P = P] keeps_retry keeps_advance_drain [unfolded Let_def]
      split: option.split)

end

section \<open>Heartbeat and retransmission\<close>

text \<open>
  The heartbeat's timer: adding to an \<^verbatim>\<open>Instant\<close> panics when the sum is out of range (on Unix, when its seconds
  do not fit an \<^verbatim>\<open>i64\<close>), and \<^verbatim>\<open>interval_at\<close> panics for a period of zero.
\<close>

definition INSTANT_LIMIT :: instant where "INSTANT_LIMIT = secs (2 ^ 63)"

definition heartbeat_start :: "instant \<Rightarrow> duration \<Rightarrow> (unit, error) result" where
  "heartbeat_start now interval = (if INSTANT_LIMIT \<le> now + interval \<or> interval = 0 then Panic else Ok ())"

text \<open>One tick of the heartbeat and one of the retransmission scheduler.\<close>

definition heartbeat_step ::
    "duration \<Rightarrow> 'z channel_state_scheme \<Rightarrow> bool \<times> 'z channel_state_scheme" where
  "heartbeat_step idle_timeout s =
    (if closed_now s then (False, s)
     else if idle_timeout < idle_for s then (False, close_core (PeerUnresponsive (idle_for s)) s)
     else (True, snd (try_write (Ping []) s)))"

definition retransmit_step :: "'z channel_state_scheme \<Rightarrow> bool \<times> 'z channel_state_scheme" where
  "retransmit_step s =
    (if closed_now s then (False, s)
     else case poll_retransmit (clock s) (outgoing (stream s)) of
       (Idle, b) \<Rightarrow> (True, s\<lparr>stream := (stream s)\<lparr>outgoing := b\<rparr>\<rparr>)
     | (Resend sq w, b) \<Rightarrow>
         (case write_frame (Binary w) (s\<lparr>stream := (stream s)\<lparr>outgoing := b\<rparr>\<rparr>) of
            (Ok _, s1) \<Rightarrow> (True, s1)
          | (_, s1) \<Rightarrow> (False, s1))
     | (GaveUp sq n, b) \<Rightarrow>
         (False, close_core (DeliveryFailed sq n) (s\<lparr>stream := (stream s)\<lparr>outgoing := b\<rparr>\<rparr>)))"

section \<open>Opening the channel\<close>

record connection_params =
  par_session_id :: string
  par_target :: string
  stream_url :: string
  token :: string
  par_chunk_size :: nat
  par_endpoint_policy :: endpoint_policy
  signer :: "string option"
  par_continuity :: continuity
  par_heartbeat_interval :: duration
  par_idle_timeout :: duration
  kms_client :: bool

definition connect ::
    "'e conn_ext_scheme \<Rightarrow> 'n endpoint_ext_scheme \<Rightarrow> connection_params \<Rightarrow> session_core \<Rightarrow> instant
      \<Rightarrow> (reader_state, error) result" where
  "connect E N p c now =
    bind_result (validate_endpoint N (par_endpoint_policy p) (stream_url p)) (\<lambda>_.
    bind_result (fst (dial N (stream_url p) (signer p))) (\<lambda>_.
    let open_msg = \<lparr>message_schema_version = MESSAGE_SCHEMA_VERSION,
          request_id = uuid_to_string E (uuid_at E 0), token_value = token p,
          client_id = par_session_id p, open_client_version = CLIENT_PROTOCOL_VERSION\<rparr> in
    bind_result (from_sum Serialization (open_to_string E open_msg)) (\<lambda>open_json.
    bind_result (from_sum (\<lambda>e. Transport [Txt ''failed to open the data channel: '', Str e])
        (open_accepted E open_json)) (\<lambda>_.
    let s = (channel_new c (par_continuity p) (par_chunk_size p) now)\<lparr>on_socket := [Text open_json], draws := 1\<rparr>;
        h = (if kms_feature E \<and> kms_client p
             then with_kms \<lparr>ctx_session_id = par_session_id p, ctx_target_id = par_target p\<rparr>
             else handler_new)
    in Ok (channel_state.extend s
        \<lparr>handshake = h, handshake_started = None, reader_parked = None\<rparr>)))))"

end
