(* ===== verification/In_Order.thy ===== *)
theory In_Order
  imports Connection
begin

text \<open>
  The in-order delivery contract of the inbound stream. An abstract machine (\<open>arrive\<close>) says which
  messages an arriving message releases; the routing code refines it: it delivers exactly the
  released messages, one after the other, and moves the expected number and the reorder buffer as
  the machine does. What the machine promises then holds of the code.
\<close>

section \<open>The abstract machine\<close>

function released :: "i64 \<Rightarrow> incoming_buffer \<Rightarrow> client_message list \<times> i64 \<times> incoming_buffer" where
  "released next b =
    (case inc_take next b of
       (None, b') \<Rightarrow> ([], next, b')
     | (Some m, b') \<Rightarrow> (let (ms, e, b'') = released (next + 1) b' in (m # ms, e, b'')))"
  by pat_completeness auto
termination
  by (relation "measure (\<lambda>(next, b). length (messages b))") (auto dest: inc_take_shrinks)

declare released.simps [simp del]

definition arrive ::
    "client_message \<Rightarrow> i64 \<times> incoming_buffer \<Rightarrow> client_message list \<times> i64 \<times> incoming_buffer" where
  "arrive m st =
    (let (e, b) = st in
     if sint (sequence_number m) < sint e then ([], e, b)
     else if sint e < sint (sequence_number m) then ([], e, snd (inc_insert m b))
     else let (ms, e', b') = released (e + 1) b in (m # ms, e', b'))"

fun arrive_all ::
    "client_message list \<Rightarrow> i64 \<times> incoming_buffer \<Rightarrow> client_message list \<times> i64 \<times> incoming_buffer" where
  "arrive_all [] st = ([], st)"
| "arrive_all (m # ms) st =
    (let (ds, st1) = arrive m st; (ds', st2) = arrive_all ms st1 in (ds @ ds', st2))"

text \<open>Consecutive numbers from \<open>e\<close> on.\<close>

definition numbered_from :: "i64 \<Rightarrow> client_message list \<Rightarrow> bool" where
  "numbered_from e ms \<longleftrightarrow> (\<forall>i < length ms. sequence_number (ms ! i) = e + of_nat i)"

lemma numbered_from_simps [simp]:
  "numbered_from e []"
  "numbered_from e (m # ms) \<longleftrightarrow> sequence_number m = e \<and> numbered_from (e + 1) ms"
  by (auto simp: numbered_from_def All_less_Suc2 ac_simps)

lemma numbered_from_append [simp]:
  "numbered_from e (ms @ ns) \<longleftrightarrow> numbered_from e ms \<and> numbered_from (e + of_nat (length ms)) ns"
  by (induction ms arbitrary: e) (auto simp: ac_simps)

text \<open>Releasing takes the longest consecutive run that the buffer holds.\<close>

lemma released_spec:
  assumes "inc_inv b" and "released e b = (ms, e', b')"
  shows "numbered_from e ms \<and> e' = e + of_nat (length ms) \<and> inc_inv b'
    \<and> (\<forall>m \<in> set ms. inc_held b (sequence_number m) = Some m)
    \<and> inc_held b' e' = None \<and> inc_capacity b' = inc_capacity b \<and> length (messages b') \<le> length (messages b)
    \<and> (\<forall>s. inc_held b' s = (if s \<in> sequence_number ` set ms then None else inc_held b s))"
  using assms
proof (induction e b arbitrary: ms e' b' rule: released.induct)
  case (1 e b)
  obtain x b1 where tk: "inc_take e b = (x, b1)" by (cases "inc_take e b")
  have x: "x = inc_held b e" using ib.take_result [OF 1(2), of e] tk by simp
  have held: "inc_held b1 = (inc_held b)(e := None)" using ib.take_held [OF 1(2), of e] tk by simp
  have inv: "inc_inv b1" using ib.take_invar [OF 1(2), of e] tk by simp
  have cap: "inc_capacity b1 = inc_capacity b" using ib.take_limit [of e b] tk by simp
  have len: "length (messages b1) \<le> length (messages b)"
    using tk by (auto simp: inc_take_def length_AList_delete_le)
  have rel: "released e b = (case x of None \<Rightarrow> ([], e, b1)
      | Some m \<Rightarrow> (let (ms, e2, b2) = released (e + 1) b1 in (m # ms, e2, b2)))"
    by (subst released.simps) (simp add: tk split: option.split)
  show ?case
  proof (cases x)
    case None
    then have "ms = [] \<and> e' = e \<and> b' = b1" using 1(3) rel by simp
    then show ?thesis using held inv None x cap len by simp
  next
    case (Some m)
    obtain ms1 e2 b2 where rec: "released (e + 1) b1 = (ms1, e2, b2)" by (cases "released (e + 1) b1")
    have eq: "ms = m # ms1" "e' = e2" "b' = b2" using 1(3) rel Some rec by simp_all
    have seq: "sequence_number m = e" using ib.held_seq [OF 1(2)] x Some by simp
    have tk': "(Some m, b1) = inc_take e b" using tk Some by simp
    have IH: "numbered_from (e + 1) ms1 \<and> e2 = e + 1 + of_nat (length ms1) \<and> inc_inv b2
      \<and> (\<forall>m \<in> set ms1. inc_held b1 (sequence_number m) = Some m)
      \<and> inc_held b2 e2 = None \<and> inc_capacity b2 = inc_capacity b1 \<and> length (messages b2) \<le> length (messages b1)
      \<and> (\<forall>s. inc_held b2 s = (if s \<in> sequence_number ` set ms1 then None else inc_held b1 s))"
      using 1(1) [OF tk' refl inv rec] .
    have from_b: "\<forall>y \<in> set ms. inc_held b (sequence_number y) = Some y"
      using IH held seq x Some by (auto simp: eq split: if_splits)
    have left: "\<forall>s. inc_held b' s = (if s \<in> sequence_number ` set ms then None else inc_held b s)"
      using IH held seq by (simp add: eq)
    have none: "inc_held b' e' = None" unfolding eq using IH by blast
    have "numbered_from e ms" "e' = e + of_nat (length ms)" "inc_inv b'"
      "inc_capacity b' = inc_capacity b" "length (messages b') \<le> length (messages b)"
      using IH seq cap len by (simp_all add: eq ac_simps)
    with from_b left none show ?thesis by blast
  qed
qed

section \<open>What the machine promises\<close>

lemma arrive_spec:
  assumes "inc_inv b" and "arrive m (e, b) = (ds, e', b')"
  shows "numbered_from e ds \<and> e' = e + of_nat (length ds) \<and> inc_inv b'
    \<and> inc_capacity b' = inc_capacity b
    \<and> (\<forall>d \<in> set ds. d = m \<or> inc_held b (sequence_number d) = Some d)
    \<and> (\<forall>s d. inc_held b' s = Some d \<longrightarrow> d = m \<or> inc_held b s = Some d)"
proof -
  consider "sint (sequence_number m) < sint e" | "sint e < sint (sequence_number m)"
    | "sequence_number m = e" by (metis linorder_neqE signed_word_eqI)
  then show ?thesis
  proof cases
    case 2
    then have "ds = []" "e' = e" "b' = snd (inc_insert m b)" using assms(2) by (auto simp: arrive_def)
    moreover have "inc_held (snd (inc_insert m b)) = (inc_held b)(sequence_number m \<mapsto> m)
        \<or> snd (inc_insert m b) = b"
      using ib.insert_accept [OF assms(1), of m] ib.insert_refuse [OF assms(1), of m] by blast
    ultimately show ?thesis
      using ib.insert_invar [OF assms(1), of m] ib.insert_limit [of m b]
      by (auto split: if_splits)
  next
    case 3
    obtain ms e1 b1 where rel: "released (e + 1) b = (ms, e1, b1)" by (cases "released (e + 1) b")
    have "ds = m # ms" "e' = e1" "b' = b1" using assms(2) 3 rel by (auto simp: arrive_def)
    with released_spec [OF assms(1) rel] 3 show ?thesis by (auto simp: ac_simps split: if_splits)
  qed (use assms in \<open>auto simp: arrive_def\<close>)
qed

lemma arrive_all_spec:
  assumes "inc_inv b" and "arrive_all ms (e, b) = (ds, e', b')"
  shows "numbered_from e ds \<and> e' = e + of_nat (length ds) \<and> inc_inv b'
    \<and> inc_capacity b' = inc_capacity b
    \<and> (\<forall>d \<in> set ds. d \<in> set ms \<or> inc_held b (sequence_number d) = Some d)
    \<and> (\<forall>s d. inc_held b' s = Some d \<longrightarrow> d \<in> set ms \<or> inc_held b s = Some d)"
  using assms
proof (induction ms arbitrary: e b ds e' b')
  case (Cons m ms)
  obtain d1 e1 b1 where 1: "arrive m (e, b) = (d1, e1, b1)" by (cases "arrive m (e, b)")
  obtain d2 e2 b2 where 2: "arrive_all ms (e1, b1) = (d2, e2, b2)" by (cases "arrive_all ms (e1, b1)")
  have eq: "ds = d1 @ d2" "e' = e2" "b' = b2" using Cons.prems(2) 1 2 by simp_all
  note A = arrive_spec [OF Cons.prems(1) 1]
  have inv1: "inc_inv b1" using A by blast
  note IH = Cons.IH [OF inv1 2]
  have "\<forall>d \<in> set ds. d \<in> set (m # ms) \<or> inc_held b (sequence_number d) = Some d"
    using A IH unfolding eq set_append by (metis Un_iff list.set_intros)
  moreover have "\<forall>s d. inc_held b' s = Some d \<longrightarrow> d \<in> set (m # ms) \<or> inc_held b s = Some d"
    using A IH unfolding eq by (metis list.set_intros)
  ultimately show ?case using A IH by (simp add: eq ac_simps)
qed simp

text \<open>Numbers below the end of the signed range do not wrap.\<close>

lemma numbered_sint:
  assumes "0 \<le> sint e" and "numbered_from e ds" and "\<forall>d \<in> set ds. sint (sequence_number d) < 2 ^ 63 - 1"
  shows "sint (e + of_nat (length ds)) = sint e + int (length ds)
    \<and> (\<forall>d \<in> set ds. sint e \<le> sint (sequence_number d) \<and> sint (sequence_number d) < sint e + int (length ds))"
  using assms
proof (induction ds arbitrary: e)
  case (Cons d ds)
  have "sint (e + 1) = sint e + 1" using Cons.prems(2,3) by (intro sint_succ) auto
  with Cons.IH [of "e + 1"] Cons.prems show ?case by (auto simp: ac_simps)
qed simp

text \<open>
  Everything that has arrived and is still to be delivered is in the buffer, and the next message
  is not.
\<close>

definition caught_up :: "client_message set \<Rightarrow> i64 \<Rightarrow> incoming_buffer \<Rightarrow> bool" where
  "caught_up seen e b \<longleftrightarrow> inc_held b e = None
     \<and> (\<forall>m \<in> seen. sint e \<le> sint (sequence_number m) \<longrightarrow> inc_held b (sequence_number m) \<noteq> None)"

lemma arrive_caught_up:
  assumes inv: "inc_inv b" and up: "caught_up seen e b" and room: "length (messages b) < inc_capacity b"
    and arr: "arrive m (e, b) = (ds, e', b')" and e: "0 \<le> sint e"
    and small: "sint (sequence_number m) < 2 ^ 63 - 1"
    and held_small: "\<forall>s x. inc_held b s = Some x \<longrightarrow> sint s < 2 ^ 63 - 1"
  shows "caught_up (insert m seen) e' b' \<and> length (messages b') \<le> Suc (length (messages b))
    \<and> 0 \<le> sint e' \<and> (\<forall>s x. inc_held b' s = Some x \<longrightarrow> sint s < 2 ^ 63 - 1)"
proof -
  consider (less) "sint (sequence_number m) < sint e" | (greater) "sint e < sint (sequence_number m)"
    | (equal) "sequence_number m = e" by (metis linorder_neqE signed_word_eqI)
  then show ?thesis
  proof cases
    case less
    then have "ds = []" "e' = e" "b' = b" using arr by (auto simp: arrive_def)
    with less up e held_small show ?thesis by (auto simp: caught_up_def)
  next
    case greater
    then have eq: "e' = e" "b' = snd (inc_insert m b)" using arr by (auto simp: arrive_def)
    have "fst (inc_insert m b)"
      using ib.insert_refuse [OF inv, of m] room by (auto simp: inc_len_def)
    then have "inc_held b' = (inc_held b)(sequence_number m \<mapsto> m)"
      using ib.insert_accept [OF inv] eq by simp
    moreover have "length (messages b') \<le> Suc (length (messages b))"
      unfolding eq inc_insert_def
      by (cases "map_of (messages b) (sequence_number m)")
        (auto simp: length_update_absent length_update_present)
    ultimately show ?thesis
      using up greater e small held_small eq(1) by (auto simp: caught_up_def split: if_splits)
  next
    case equal
    obtain ms e1 b1 where rel: "released (e + 1) b = (ms, e1, b1)" by (cases "released (e + 1) b")
    have eq: "ds = m # ms" "e' = e1" "b' = b1" using arr equal rel by (auto simp: arrive_def)
    note R = released_spec [OF inv rel]
    have num: "numbered_from e ds" using R equal by (simp add: eq)
    have all_small: "\<forall>d \<in> set ds. sint (sequence_number d) < 2 ^ 63 - 1"
      using R held_small small by (auto simp: eq)
    have e': "e' = e + of_nat (length ds)" using R by (simp add: eq ac_simps)
    note S = numbered_sint [OF e num all_small]
    have keep: "inc_held b' s = inc_held b s" if "sint e' \<le> sint s" for s
    proof -
      have "s \<notin> sequence_number ` set ms" using S that unfolding e' eq by auto
      with R show ?thesis by (simp add: eq)
    qed
    have "inc_held b' e' = None" using R unfolding eq by blast
    moreover have "inc_held b' (sequence_number x) \<noteq> None"
      if "x \<in> insert m seen" "sint e' \<le> sint (sequence_number x)" for x
    proof -
      have "x \<noteq> m" using that S equal unfolding e' by (auto simp: eq)
      moreover have "sint e \<le> sint (sequence_number x)" using that(2) S unfolding e' by simp
      ultimately show ?thesis using up that keep by (auto simp: caught_up_def)
    qed
    moreover have "\<forall>s x. inc_held b' s = Some x \<longrightarrow> sint s < 2 ^ 63 - 1"
      using R held_small unfolding eq by (metis option.distinct(1))
    ultimately show ?thesis using R S e unfolding caught_up_def e' by (simp add: eq)
  qed
qed

lemma arrive_all_caught_up:
  assumes "inc_inv b" and "caught_up seen e b" and "length (messages b) + length ms \<le> inc_capacity b"
    and "arrive_all ms (e, b) = (ds, e', b')" and "0 \<le> sint e"
    and "\<forall>m \<in> set ms. sint (sequence_number m) < 2 ^ 63 - 1"
    and "\<forall>s x. inc_held b s = Some x \<longrightarrow> sint s < 2 ^ 63 - 1"
  shows "caught_up (set ms \<union> seen) e' b'"
  using assms
proof (induction ms arbitrary: e b seen ds)
  case (Cons m ms)
  obtain d1 e1 b1 where 1: "arrive m (e, b) = (d1, e1, b1)" by (cases "arrive m (e, b)")
  obtain d2 where 2: "arrive_all ms (e1, b1) = (d2, e', b')"
    using Cons.prems(4) 1 by (cases "arrive_all ms (e1, b1)") simp
  have "length (messages b) < inc_capacity b" using Cons.prems(3) by simp
  note A = arrive_caught_up [OF Cons.prems(1,2) this 1 Cons.prems(5) _ Cons.prems(7)]
  have A': "caught_up (insert m seen) e1 b1 \<and> length (messages b1) \<le> Suc (length (messages b))
    \<and> 0 \<le> sint e1 \<and> (\<forall>s x. inc_held b1 s = Some x \<longrightarrow> sint s < 2 ^ 63 - 1)"
    using A Cons.prems(6) by simp
  have S: "inc_inv b1" "inc_capacity b1 = inc_capacity b" using arrive_spec [OF Cons.prems(1) 1] by blast+
  have "caught_up (set ms \<union> insert m seen) e' b'"
    using A' S Cons.prems(3,6) by (intro Cons.IH [OF S(1) _ _ 2]) auto
  then show ?case by simp
qed simp

section \<open>The code refines the machine\<close>

definition with_inbound :: "i64 \<Rightarrow> incoming_buffer \<Rightarrow> reader_state \<Rightarrow> reader_state" where
  "with_inbound e b r = r\<lparr>stream := (stream r)\<lparr>expected := e, incoming := b\<rparr>\<rparr>"

lemma with_inbound_simps [simp]:
  "expected (stream (with_inbound e b r)) = e" "incoming (stream (with_inbound e b r)) = b"
  "stream_crypto (stream (with_inbound e b r)) = stream_crypto (stream r)"
  "core (with_inbound e b r) = core r" "frames (with_inbound e b r) = frames r"
  by (simp_all add: with_inbound_def frames_def)

text \<open>The messages \<open>ms\<close> are delivered successfully, one after the other; in between only the
  bookkeeping of the inbound stream moves.\<close>

inductive delivers :: "'e conn_ext_scheme \<Rightarrow> reader_state \<Rightarrow> client_message list \<Rightarrow> reader_state \<Rightarrow> bool"
  for E where
  none: "delivers E r [] (with_inbound e b r)"
| more: "deliver E m (with_inbound e b r) = (Done (Ok ()), r1) \<Longrightarrow> delivers E r1 ms r2 \<Longrightarrow>
    delivers E r (m # ms) r2"

inductive_simps delivers_Nil: "delivers E r [] r'"
inductive_simps delivers_Cons: "delivers E r (m # ms) r'"

lemma same_inbound_update: "with_inbound (expected (stream r)) (incoming (stream r)) r = r"
  by (simp add: with_inbound_def)

lemma incoming_update: "r\<lparr>stream := (stream r)\<lparr>incoming := b\<rparr>\<rparr> = with_inbound (expected (stream r)) b r"
  by (simp add: with_inbound_def)

lemma advance_update: "advance_expected r = (expected (stream r) + 1,
    with_inbound (expected (stream r) + 1) (incoming (stream r)) r)"
  by (simp add: advance_expected_def with_inbound_def Let_def)

lemma with_inbound_twice [simp]: "with_inbound e b (with_inbound e' b' r) = with_inbound e b r"
  by (simp add: with_inbound_def)

lemma delivers_with_inbound: "delivers E (with_inbound e b r) ms r' \<longleftrightarrow> delivers E r ms r'"
  by (cases ms) (auto simp: delivers_Nil delivers_Cons)

lemma drain_refines:
  assumes "drain E n r = (Done (Ok ()), r')" and "n = expected (stream r)"
    and "released n (incoming (stream r)) = (ms, e', b')"
  shows "delivers E r ms r' \<and> expected (stream r') = e' \<and> incoming (stream r') = b'"
  using assms
proof (induction E n r arbitrary: ms rule: drain.induct)
  case (1 E n r)
  obtain x b where tk: "inc_take n (incoming (stream r)) = (x, b)"
    by (cases "inc_take n (incoming (stream r))")
  show ?case
  proof (cases x)
    case None
    have "r' = with_inbound n b r"
      using 1(2) tk None 1(3) by (subst (asm) drain.simps) (simp add: incoming_update)
    moreover have "ms = [] \<and> e' = n \<and> b' = b"
      using 1(4) tk None by (subst (asm) released.simps) simp
    ultimately show ?thesis using delivers.none [of E r n b] by simp
  next
    case (Some m)
    let ?r0 = "r\<lparr>stream := (stream r)\<lparr>incoming := b\<rparr>\<rparr>"
    obtain d r1 where dl: "deliver E m ?r0 = (d, r1)" by (cases "deliver E m ?r0")
    have r1: "expected (stream r1) = n" "incoming (stream r1) = b"
      using deliver_eq_inbound [OF dl [symmetric]] 1(3) by simp_all
    let ?r2 = "with_inbound (n + 1) b r1"
    have adv: "advance_expected r1 = (n + 1, ?r2)" using r1 by (simp add: advance_update)
    have unf: "drain E n r = (case (d, r1) of (Done (Ok _), r1) \<Rightarrow> (let (next', r2) = advance_expected r1
        in drain E next' r2) | (res, r1) \<Rightarrow> (res, r1))"
      by (subst drain.simps) (simp add: tk Some dl)
    have d: "d = Done (Ok ())"
      using 1(2) unfolding unf by (cases d) (auto split: result.splits)
    have rec: "drain E (n + 1) ?r2 = (Done (Ok ()), r')" using 1(2) unfolding unf d by (simp add: adv)
    obtain ms1 e1 b1 where rel: "released (n + 1) b = (ms1, e1, b1)" by (cases "released (n + 1) b")
    have eq: "ms = m # ms1" "e' = e1" "b' = b1"
      using 1(4) by (subst (asm) released.simps; simp add: tk Some rel)+
    have "delivers E ?r2 ms1 r' \<and> expected (stream r') = e' \<and> incoming (stream r') = b'"
    proof (rule 1(1))
      show "(Some m, b) = inc_take n (incoming (stream r))" using tk Some by simp
      show "(d, r1) = deliver E m ?r0" using dl by simp
      show "(n + 1, ?r2) = advance_expected r1" using adv by simp
      show "released (n + 1) (incoming (stream ?r2)) = (ms1, e', b')" using rel eq by simp
    qed (use d rec in simp_all)
    then show ?thesis
      using delivers.more [of E m n b r r1 ms1 r'] dl d 1(3) eq(1)
      by (simp add: delivers_with_inbound incoming_update)
  qed
qed

lemma send_ack_kept [simp]:
  "core (send_ack E m q s) = core s" "stream (send_ack E m q s) = stream s"
  by (simp_all add: send_ack_def try_write_def split_beta split: result.split)

text \<open>A successful routing step delivers what the abstract machine releases, in that order.\<close>

lemma route_refines:
  assumes "route_stream_data E m r = (Done (Ok ()), r')"
    and "arrive m (expected (stream r), incoming (stream r)) = (ds, e', b')"
  shows "expected (stream r') = e' \<and> incoming (stream r') = b'
    \<and> (\<exists>r0. core r0 = core r \<and> stream_crypto (stream r0) = stream_crypto (stream r) \<and> delivers E r0 ds r')"
proof -
  let ?e = "expected (stream r)" and ?b = "incoming (stream r)"
  consider (less) "sint (sequence_number m) < sint ?e" | (greater) "sint ?e < sint (sequence_number m)"
    | (equal) "sequence_number m = ?e" by (metis linorder_neqE signed_word_eqI)
  then show ?thesis
  proof cases
    case less
    then have "ds = []" "e' = ?e" "b' = ?b" "r' = r"
      using assms by (auto simp: arrive_def route_stream_data_def)
    with delivers.none [of E r ?e ?b] show ?thesis by (auto simp: same_inbound_update)
  next
    case greater
    obtain ok b1 where ins: "inc_insert m ?b = (ok, b1)" by (cases "inc_insert m ?b")
    have d: "ds = []" "e' = ?e" "b' = b1" using assms(2) greater ins by (auto simp: arrive_def)
    show ?thesis
    proof (cases ok)
      case True
      let ?r1 = "r\<lparr>stream := (stream r)\<lparr>incoming := b1\<rparr>\<rparr>"
      have r': "r' = send_ack E m False ?r1"
        using assms(1) greater ins True by (auto simp: route_stream_data_def)
      have "delivers E r' [] r'"
        using delivers.none [of E r' "expected (stream r')" "incoming (stream r')"]
        by (simp add: same_inbound_update)
      with d r' show ?thesis by (intro conjI exI [of _ r']) simp_all
    next
      case False
      then have "r' = r" "b1 = ?b"
        using assms(1) greater ins by (auto simp: route_stream_data_def inc_insert_def split: if_splits)
      with d delivers.none [of E r ?e ?b] show ?thesis by (auto simp: same_inbound_update)
    qed
  next
    case equal
    let ?r0 = "send_ack E m True r"
    obtain d r1 where dl: "deliver E m ?r0 = (d, r1)" by (cases "deliver E m ?r0")
    have r1: "expected (stream r1) = ?e" "incoming (stream r1) = ?b"
      using deliver_eq_inbound [OF dl [symmetric]] by simp_all
    let ?r2 = "with_inbound (?e + 1) ?b r1"
    have route: "route_stream_data E m r = bind_io (d, r1) (\<lambda>_ r1.
        let (next, r2) = advance_expected r1 in drain E next r2)"
      using equal dl by (simp add: route_stream_data_def)
    have d: "d = Done (Ok ())"
      using assms(1) unfolding route
      by (cases d; cases "case d of Done x \<Rightarrow> x | Waits _ \<Rightarrow> Panic") auto
    have dr: "drain E (?e + 1) ?r2 = (Done (Ok ()), r')"
      using assms(1) r1 unfolding route d by (simp add: advance_update)
    obtain ms e1 b1 where rel: "released (?e + 1) ?b = (ms, e1, b1)" by (cases "released (?e + 1) ?b")
    have eq: "ds = m # ms" "e' = e1" "b' = b1" using assms(2) equal rel by (auto simp: arrive_def)
    have D: "delivers E ?r2 ms r' \<and> expected (stream r') = e1 \<and> incoming (stream r') = b1"
      by (rule drain_refines [OF dr]) (simp_all add: rel)
    have "deliver E m (with_inbound ?e ?b ?r0) = (Done (Ok ()), r1)"
      using dl d same_inbound_update [of ?r0] by simp
    then have "delivers E ?r0 ds r'"
      using D delivers.more [of E m ?e ?b ?r0 r1 ms r'] by (simp add: eq(1) delivers_with_inbound)
    with D eq show ?thesis by (intro conjI exI [of _ ?r0]) simp_all
  qed
qed

section \<open>What reaches the consumers\<close>

text \<open>The chunk that a message contributes to the output, decrypted if a key is in place.\<close>

definition is_output :: "client_message \<Rightarrow> bool" where
  "is_output m \<longleftrightarrow> message_type m = OutputStreamData \<and> payload_type m \<in> {Output, StdErr, Undefined}"

definition output_chunk :: "'e crypto_ext_scheme \<Rightarrow> session_crypto option \<Rightarrow> client_message \<Rightarrow> bytes list" where
  "output_chunk E key m =
    (if payload m = [] then []
     else case key of
       Some c \<Rightarrow> if is_encrypted_inbound (payload_type m)
         then (case decrypt E c (payload m) of Ok p \<Rightarrow> [p] | _ \<Rightarrow> []) else [payload m]
     | None \<Rightarrow> [payload m])"

lemma deliver_output_sends:
  assumes "payload_type m \<in> {Output, StdErr, Undefined}" and "deliver E m r = (Done (Ok ()), r')"
  shows "fanout (core r') = fold fanout_send (output_chunk E (stream_crypto (stream r)) m) (fanout (core r))
    \<and> stream_crypto (stream r') = stream_crypto (stream r)"
proof -
  let ?r1 = "if is_sendable (core r) then r else r\<lparr>core := set_sendable True (core r)\<rparr>"
  have out: "deliver_output E m r = (Done (Ok ()), r')"
    using assms by (auto simp: deliver_def)
  have same: "decrypt_if_needed E m ?r1 = decrypt_if_needed E m r"
    by (simp add: decrypt_if_needed_def)
  show ?thesis
  proof (cases "payload m = []")
    case True
    with out show ?thesis
      by (auto simp: deliver_output_def output_chunk_def set_sendable_def Let_def)
  next
    case False
    then obtain p where p: "decrypt_if_needed E m r = Ok p"
      using out same by (cases "decrypt_if_needed E m r") (auto simp: deliver_output_def Let_def)
    then have "output_chunk E (stream_crypto (stream r)) m = [p]"
      using False by (auto simp: decrypt_if_needed_def output_chunk_def split: option.splits if_splits)
    with False p same out show ?thesis
      by (auto simp: deliver_output_def Let_def emit_output_def set_sendable_def)
  qed
qed

lemma deliver_output_effect:
  assumes "is_output m" and "deliver E m r = (Done (Ok ()), r')"
  shows "fanout (core r') = fold fanout_send (output_chunk E (stream_crypto (stream r)) m) (fanout (core r))
    \<and> stream_crypto (stream r') = stream_crypto (stream r)"
  using deliver_output_sends [OF _ assms(2)] assms(1) by (simp add: is_output_def)

lemma delivers_output_effect:
  assumes "delivers E r ms r'" and "\<forall>m \<in> set ms. is_output m"
  shows "fanout (core r') = fold fanout_send (concat (map (output_chunk E (stream_crypto (stream r))) ms))
      (fanout (core r))
    \<and> stream_crypto (stream r') = stream_crypto (stream r)"
  using assms
proof (induction rule: delivers.induct)
  case (more m e b r r1 ms r2)
  have "is_output m" using more.prems by simp
  from deliver_output_effect [OF this more.hyps(1)] more.IH more.prems show ?case by simp
qed simp

text \<open>The reader's loop over inbound stream data, as long as it succeeds.\<close>

fun route_all :: "'e conn_ext_scheme \<Rightarrow> client_message list \<Rightarrow> reader_state \<Rightarrow> unit io \<times> reader_state" where
  "route_all E [] r = (Done (Ok ()), r)"
| "route_all E (m # ms) r = bind_io (route E m r) (\<lambda>_ r1. route_all E ms r1)"

lemma bind_io_eq_Ok:
  "bind_io c f = (Done (Ok ()), s') \<longleftrightarrow> (\<exists>a s. c = (Done (Ok a), s) \<and> f a s = (Done (Ok ()), s'))"
proof (cases c)
  case (Pair r s)
  then show ?thesis
  proof (cases r)
    case (Done x)
    then show ?thesis using Pair by (cases x) auto
  qed auto
qed

lemma route_all_refines:
  assumes "route_all E ms r = (Done (Ok ()), r')" and "inc_inv (incoming (stream r))"
    and "\<forall>m \<in> set ms. is_output m" and "\<forall>s m. inc_held (incoming (stream r)) s = Some m \<longrightarrow> is_output m"
    and "arrive_all ms (expected (stream r), incoming (stream r)) = (ds, e', b')"
  shows "expected (stream r') = e' \<and> incoming (stream r') = b'
    \<and> fanout (core r') = fold fanout_send (concat (map (output_chunk E (stream_crypto (stream r))) ds))
        (fanout (core r))"
  using assms
proof (induction ms arbitrary: r ds)
  case (Cons m ms)
  let ?e = "expected (stream r)" and ?b = "incoming (stream r)"
  obtain r1 where step: "route E m r = (Done (Ok ()), r1)" and rest: "route_all E ms r1 = (Done (Ok ()), r')"
    using Cons.prems(1) by (auto simp: bind_io_eq_Ok)
  obtain d1 e1 b1 where 1: "arrive m (?e, ?b) = (d1, e1, b1)" by (cases "arrive m (?e, ?b)")
  obtain d2 where 2: "arrive_all ms (e1, b1) = (d2, e', b')"
    using Cons.prems(5) 1 by (cases "arrive_all ms (e1, b1)") simp
  have ds: "ds = d1 @ d2" using Cons.prems(5) 1 2 by simp
  note A = arrive_spec [OF Cons.prems(2) 1]
  have m: "is_output m" using Cons.prems(3) by simp
  have "route_stream_data E m r = (Done (Ok ()), r1)"
    using step m by (simp add: route_def is_output_def)
  from route_refines [OF this 1] obtain r0 where R: "expected (stream r1) = e1" "incoming (stream r1) = b1"
    "core r0 = core r" "stream_crypto (stream r0) = stream_crypto (stream r)" "delivers E r0 d1 r1" by blast
  have "\<forall>d \<in> set d1. is_output d" using A m Cons.prems(4) by metis
  from delivers_output_effect [OF R(5) this]
  have F: "fanout (core r1) = fold fanout_send (concat (map (output_chunk E (stream_crypto (stream r))) d1))
      (fanout (core r))" "stream_crypto (stream r1) = stream_crypto (stream r)" using R by simp_all
  have inv1: "inc_inv (incoming (stream r1))" using A R(2) by blast
  have held1: "\<forall>s x. inc_held (incoming (stream r1)) s = Some x \<longrightarrow> is_output x"
    using A R(2) m Cons.prems(4) by metis
  have "expected (stream r') = e' \<and> incoming (stream r') = b'
    \<and> fanout (core r') = fold fanout_send (concat (map (output_chunk E (stream_crypto (stream r1))) d2))
        (fanout (core r1))"
    using Cons.prems(3) R(1,2) 2 by (intro Cons.IH [OF rest inv1 _ held1]) auto
  then show ?case by (simp add: ds F)
qed simp

text \<open>Without a key, delivering output never fails, so the loop gets through.\<close>

lemma deliver_output_ok:
  assumes "is_output m" and "stream_crypto (stream r) = None"
  shows "\<exists>r'. deliver E m r = (Done (Ok ()), r')"
  using assms
  by (auto simp: deliver_def is_output_def deliver_output_def decrypt_if_needed_def Let_def)

lemma drain_ok:
  assumes "inc_inv (incoming (stream r))" and "\<forall>s m. inc_held (incoming (stream r)) s = Some m \<longrightarrow> is_output m"
    and "stream_crypto (stream r) = None"
  shows "\<exists>r'. drain E n r = (Done (Ok ()), r')"
  using assms
proof (induction E n r rule: drain.induct)
  case (1 E n r)
  obtain x b where tk: "inc_take n (incoming (stream r)) = (x, b)"
    by (cases "inc_take n (incoming (stream r))")
  show ?case
  proof (cases x)
    case None
    then show ?thesis by (subst drain.simps) (simp add: tk)
  next
    case (Some m)
    let ?r0 = "r\<lparr>stream := (stream r)\<lparr>incoming := b\<rparr>\<rparr>"
    have m: "is_output m"
      using 1(3) ib.take_result [OF 1(2), of n] tk Some by simp
    obtain r1 where dl: "deliver E m ?r0 = (Done (Ok ()), r1)"
      using deliver_output_ok [OF m, of ?r0 E] 1(4) by auto
    have r1: "incoming (stream r1) = b" "stream_crypto (stream r1) = None"
      using deliver_eq_inbound(1) [OF dl [symmetric]] deliver_output_effect [OF m dl] 1(4) by simp_all
    obtain n' r2 where adv: "advance_expected r1 = (n', r2)" by (cases "advance_expected r1")
    have r2: "incoming (stream r2) = b" "stream_crypto (stream r2) = None"
      using adv r1 by (auto simp: advance_update)
    have "inc_inv b" and held: "inc_held b = (inc_held (incoming (stream r)))(n := None)"
      using ib.take_invar [OF 1(2), of n] ib.take_held [OF 1(2), of n] tk by simp_all
    then have "\<exists>r'. drain E n' r2 = (Done (Ok ()), r')"
      using 1(3) r2 by (intro 1(1) [OF _ _ dl [symmetric] refl refl adv [symmetric]])
        (auto simp: tk Some split: if_splits)
    then show ?thesis by (subst drain.simps) (simp add: tk Some dl adv)
  qed
qed

lemma route_ok:
  assumes "is_output m" and "inc_inv (incoming (stream r))" and "stream_crypto (stream r) = None"
    and "\<forall>s x. inc_held (incoming (stream r)) s = Some x \<longrightarrow> is_output x"
  shows "\<exists>r'. route E m r = (Done (Ok ()), r') \<and> stream_crypto (stream r') = None"
proof -
  obtain r1 where dl: "deliver E m (send_ack E m True r) = (Done (Ok ()), r1)"
    using deliver_output_ok [OF assms(1), of "send_ack E m True r" E] assms(3) by auto
  have r1: "incoming (stream r1) = incoming (stream r)" "stream_crypto (stream r1) = None"
    using deliver_eq_inbound(1) [OF dl [symmetric]] deliver_output_effect [OF assms(1) dl] assms(3) by simp_all
  let ?r2 = "with_inbound (expected (stream r1) + 1) (incoming (stream r1)) r1"
  obtain r3 where dr: "drain E (expected (stream r1) + 1) ?r2 = (Done (Ok ()), r3)"
    using drain_ok [of ?r2 E "expected (stream r1) + 1"] assms(2,4) r1 by auto
  have ex: "\<exists>r'. route_stream_data E m r = (Done (Ok ()), r')"
    using dl dr by (auto simp: route_stream_data_def advance_update split: prod.splits bool.splits)
  then obtain r' where r': "route_stream_data E m r = (Done (Ok ()), r')" by blast
  obtain ds e' b' where a: "arrive m (expected (stream r), incoming (stream r)) = (ds, e', b')"
    by (cases "arrive m (expected (stream r), incoming (stream r))")
  have "\<forall>d \<in> set ds. is_output d" using arrive_spec [OF assms(2) a] assms(1,4) by metis
  then have "stream_crypto (stream r') = None"
    using route_refines [OF r' a] delivers_output_effect assms(3) by metis
  with r' assms(1) show ?thesis by (simp add: route_def is_output_def)
qed

lemma route_all_ok:
  assumes "\<forall>m \<in> set ms. is_output m" and "inc_inv (incoming (stream r))" and "stream_crypto (stream r) = None"
    and "\<forall>s x. inc_held (incoming (stream r)) s = Some x \<longrightarrow> is_output x"
  shows "\<exists>r'. route_all E ms r = (Done (Ok ()), r')"
  using assms
proof (induction ms arbitrary: r)
  case (Cons m ms)
  have m: "is_output m" using Cons.prems(1) by simp
  obtain r1 where r1: "route E m r = (Done (Ok ()), r1)" "stream_crypto (stream r1) = None"
    using route_ok [OF m Cons.prems(2-4)] by blast
  then have rs: "route_stream_data E m r = (Done (Ok ()), r1)"
    using m by (simp add: route_def is_output_def)
  obtain ds e' b' where a: "arrive m (expected (stream r), incoming (stream r)) = (ds, e', b')"
    by (cases "arrive m (expected (stream r), incoming (stream r))")
  note A = arrive_spec [OF Cons.prems(2) a] and R = route_refines [OF rs a]
  have "inc_inv (incoming (stream r1))" using A R by blast
  moreover have "\<forall>s x. inc_held (incoming (stream r1)) s = Some x \<longrightarrow> is_output x"
    using A R m Cons.prems(4) by metis
  ultimately show ?case
    using Cons.IH [of r1] Cons.prems(1) r1 by simp
qed simp

section \<open>A concrete channel for the witnesses\<close>

definition toy_conn_ext :: conn_ext where
  "toy_conn_ext = handshake_ext.extend toy_handshake_ext
    \<lparr>open_accepted = (\<lambda>s. Inr ())\<rparr>"

lemma toy_open [simp]: "open_to_string toy_conn_ext i = Inr ''{}''"
  by (simp add: open_to_string_def open_to_json_def toy_conn_ext_def toy_handshake_ext_def toy_crypto_ext_def
      toy_wire_ext_def wire_ext.defs crypto_ext.defs handshake_ext.defs)

lemma toy_open_accepted [simp]: "open_accepted toy_conn_ext t = Inr ()"
  by (simp add: toy_conn_ext_def handshake_ext.defs)

definition toy_reader :: reader_state where
  "toy_reader = channel_state.extend toy_channel
    \<lparr>handshake = handler_new, handshake_started = None, reader_parked = None\<rparr>"

definition toy_output :: "i64 \<Rightarrow> bytes \<Rightarrow> client_message" where
  "toy_output n p = new_message toy_digest 0 (replicate 16 0) OutputStreamData n Output p"

lemma toy_output_simps [simp]:
  "is_output (toy_output n p)" "sequence_number (toy_output n p) = n" "payload (toy_output n p) = p"
  by (simp_all add: is_output_def toy_output_def new_message_def)

lemma toy_reader_simps [simp]:
  "stream toy_reader = continuity_fresh" "stream_crypto continuity_fresh = None"
  "expected continuity_fresh = 0" "messages (incoming continuity_fresh) = []"
  "inc_inv (incoming continuity_fresh)" "inc_capacity (incoming continuity_fresh) = 10000"
  by (simp_all add: toy_reader_def toy_channel_def channel_new_def continuity_fresh_def
      channel_state.defs inc_inv_new MESSAGE_BUFFER_CAPACITY_def)
    (simp_all add: inc_new_def)

section \<open>Properties\<close>

text \<open>
  In-order, exactly-once delivery. Whatever order the agent's output messages arrive in, with
  whatever duplicates and retransmissions, the consumers are handed the contents of messages with
  consecutive sequence numbers, beginning with the number the session expects, each once; every
  one of them did arrive or was held from before; and the expected number has moved past exactly
  those.
\<close>

theorem output_delivered_in_order:
  assumes "route_all E ms r = (Done (Ok ()), r')" and "inc_inv (incoming (stream r))"
    and "\<forall>m \<in> set ms. is_output m" and "\<forall>s m. inc_held (incoming (stream r)) s = Some m \<longrightarrow> is_output m"
  shows "\<exists>ds. (\<forall>i < length ds. sequence_number (ds ! i) = expected (stream r) + of_nat i)
    \<and> (\<forall>d \<in> set ds. d \<in> set ms \<or> inc_held (incoming (stream r)) (sequence_number d) = Some d)
    \<and> expected (stream r') = expected (stream r) + of_nat (length ds)
    \<and> fanout (core r') =
        fold fanout_send (concat (map (output_chunk E (stream_crypto (stream r))) ds)) (fanout (core r))"
proof -
  obtain ds e' b' where a: "arrive_all ms (expected (stream r), incoming (stream r)) = (ds, e', b')"
    by (cases "arrive_all ms (expected (stream r), incoming (stream r))")
  from arrive_all_spec [OF assms(2) a] route_all_refines [OF assms a] show ?thesis
    by (intro exI [of _ ds]) (simp add: numbered_from_def)
qed

theorem output_delivered_in_order_witness:
  "\<exists>r' (ds :: client_message list). route_all toy_conn_ext [toy_output 1 [5], toy_output 0 [4], toy_output 1 [5]] toy_reader
       = (Done (Ok ()), r')
     \<and> (\<forall>i < length ds. sequence_number (ds ! i) = of_nat i)
     \<and> expected (stream r') = of_nat (length ds)"
proof -
  let ?ms = "[toy_output 1 [5], toy_output 0 [4], toy_output 1 [5]]"
  have out: "\<forall>m \<in> set ?ms. is_output m" by simp
  obtain r' where run: "route_all toy_conn_ext ?ms toy_reader = (Done (Ok ()), r')"
    using route_all_ok [OF out, of toy_reader toy_conn_ext] by auto
  have inv: "inc_inv (incoming (stream toy_reader))"
    and held: "\<forall>s m. inc_held (incoming (stream toy_reader)) s = Some m \<longrightarrow> is_output m" by simp_all
  obtain ds :: "client_message list" where "\<forall>i < length ds. sequence_number (ds ! i) = expected (stream toy_reader) + of_nat i"
    "expected (stream r') = expected (stream toy_reader) + of_nat (length ds)"
    using output_delivered_in_order [OF run inv out held] by blast
  with run show ?thesis by (intro exI [of _ r'] exI [of _ ds]) simp
qed



text \<open>
  A message is acknowledged or otherwise acted on only if it is kept: when routing an inbound
  stream message changes anything at all, that message has been delivered or is in the reorder
  buffer. One that is refused for want of room, or that was processed before, leaves the state as
  it was.
\<close>

theorem acted_on_only_if_kept:
  assumes "route_stream_data E m r = (Done (Ok ()), r')" and "inc_inv (incoming (stream r))" and "r' \<noteq> r"
  shows "inc_held (incoming (stream r')) (sequence_number m) = Some m
    \<or> (sequence_number m = expected (stream r)
       \<and> (\<exists>ds e b r0. arrive m (expected (stream r), incoming (stream r)) = (m # ds, e, b)
            \<and> core r0 = core r \<and> delivers E r0 (m # ds) r'))"
proof -
  let ?e = "expected (stream r)" and ?b = "incoming (stream r)"
  consider (less) "sint (sequence_number m) < sint ?e" | (greater) "sint ?e < sint (sequence_number m)"
    | (equal) "sequence_number m = ?e" by (metis linorder_neqE signed_word_eqI)
  then show ?thesis
  proof cases
    case less
    with assms show ?thesis by (auto simp: route_stream_data_def)
  next
    case greater
    obtain ok b1 where ins: "inc_insert m ?b = (ok, b1)" by (cases "inc_insert m ?b")
    with assms(1,3) greater have ok: "ok" "r' = send_ack E m False (r\<lparr>stream := (stream r)\<lparr>incoming := b1\<rparr>\<rparr>)"
      by (auto simp: route_stream_data_def split: bool.splits)
    then show ?thesis
      using ib.insert_accept [OF assms(2), of m] ins by simp
  next
    case equal
    obtain ms e1 b1 where rel: "released (?e + 1) ?b = (ms, e1, b1)" by (cases "released (?e + 1) ?b")
    have arr: "arrive m (?e, ?b) = (m # ms, e1, b1)" using equal rel by (simp add: arrive_def)
    from route_refines [OF assms(1) arr] equal arr show ?thesis by blast
  qed
qed

theorem acted_on_only_if_kept_witness:
  "\<exists>r'. route_stream_data toy_conn_ext (toy_output 3 [5]) toy_reader = (Done (Ok ()), r')
     \<and> inc_held (incoming (stream r')) 3 = Some (toy_output 3 [5])"
proof -
  let ?m = "toy_output 3 [5]"
  obtain r' where run: "route toy_conn_ext ?m toy_reader = (Done (Ok ()), r')"
    using route_ok [of ?m toy_reader toy_conn_ext] by auto
  then have rs: "route_stream_data toy_conn_ext ?m toy_reader = (Done (Ok ()), r')"
    by (simp add: route_def toy_output_def new_message_def)
  obtain ds e b where a: "arrive ?m (0, incoming continuity_fresh) = (ds, e, b)"
    by (cases "arrive ?m (0, incoming continuity_fresh)")
  have "messages b \<noteq> []"
    using a by (auto simp: arrive_def inc_insert_def)
  then have "r' \<noteq> toy_reader"
    using route_refines [OF rs] a by auto
  from acted_on_only_if_kept [OF rs _ this] rs show ?thesis by auto
qed

text \<open>
  A dropped acknowledgement is never made up for. When the writer's queue is full, delivering
  the expected message sends no acknowledgement for it; and every later retransmission of it is
  dropped without one, because it is then below the expected number.
\<close>

theorem dropped_ack_never_repeated:
  assumes "sequence_number m = expected (stream r)" and "sint (expected (stream r)) < 2 ^ 63 - 1"
    and "depth (writer r) \<le> length (queued (writer r))" and "is_output m"
    and "messages (incoming (stream r)) = []" and "route E m r = (Done (Ok ()), r1)"
  shows "frames r1 = frames r
    \<and> (\<forall>r2. sint (expected (stream r1)) \<le> sint (expected (stream r2)) \<longrightarrow> route E m r2 = (Done (Ok ()), r2))"
proof -
  let ?e = "expected (stream r)"
  have rs: "route_stream_data E m x = route E m x" for x
    using assms(4) by (simp add: route_def is_output_def)
  obtain ms e1 b1 where rel: "released (?e + 1) (incoming (stream r)) = (ms, e1, b1)"
    by (cases "released (?e + 1) (incoming (stream r))")
  have "ms = []" "e1 = ?e + 1"
    using rel assms(5) by (subst (asm) released.simps; simp add: inc_take_def)+
  then have arr: "arrive m (?e, incoming (stream r)) = ([m], ?e + 1, b1)"
    using rel assms(1) by (simp add: arrive_def)
  have "expected (stream r1) = ?e + 1"
    using route_refines [of E m r r1, OF _ arr] assms(6) rs by simp
  then have later: "sint (expected (stream r1)) = sint ?e + 1"
    using sint_succ [OF assms(2)] by simp
  have stale: "route E m r2 = (Done (Ok ()), r2)" if "sint (expected (stream r1)) \<le> sint (expected (stream r2))" for r2
    using that later assms(1) rs [of r2] by (simp add: route_stream_data_def)
  have ack: "frames (send_ack E m True r) = frames r"
    using assms(3)
    by (simp add: send_ack_def try_write_def try_send_def frames_def split: result.split)
  have deliver_frames: "frames (snd (deliver E m x)) = frames x" for x
  proof -
    let ?x = "if is_sendable (core x) then x else x\<lparr>core := set_sendable True (core x)\<rparr>"
    have "deliver E m x = deliver_output E m x"
      using assms(4) by (auto simp: deliver_def is_output_def)
    then show ?thesis
      by (cases "decrypt_if_needed E m ?x") (auto simp: deliver_output_def Let_def frames_def)
  qed
  obtain d r0 where dl: "deliver E m (send_ack E m True r) = (d, r0)"
    by (cases "deliver E m (send_ack E m True r)")
  have "frames r0 = frames r" using deliver_frames [of "send_ack E m True r"] ack dl by simp
  moreover have "incoming (stream r0) = incoming (stream r)" "expected (stream r0) = ?e"
    using deliver_eq_inbound [OF dl [symmetric]] by simp_all
  moreover have "drain E n x = (Done (Ok ()), x\<lparr>stream := (stream x)\<lparr>incoming := incoming (stream x)\<rparr>\<rparr>)"
    if "messages (incoming (stream x)) = []" for n x
    using that by (subst drain.simps) (simp add: inc_take_def)
  ultimately have "frames r1 = frames r"
    using assms(1,5,6) rs [of r] dl
    by (auto simp: route_stream_data_def bind_io_eq_Ok advance_update)
  with stale show ?thesis by blast
qed

theorem dropped_ack_never_repeated_witness:
  "\<exists>r r1. route toy_conn_ext (toy_output 0 [4]) r = (Done (Ok ()), r1) \<and> frames r1 = frames r
     \<and> route toy_conn_ext (toy_output 0 [4]) r1 = (Done (Ok ()), r1)"
proof -
  let ?r = "toy_reader\<lparr>writer := (new_channel 1)\<lparr>queued := [Ping []]\<rparr>\<rparr>"
  obtain r1 where run: "route toy_conn_ext (toy_output 0 [4]) ?r = (Done (Ok ()), r1)"
    using route_ok [of "toy_output 0 [4]" ?r toy_conn_ext] by auto
  from dropped_ack_never_repeated [OF _ _ _ _ _ run] run show ?thesis
    by (intro exI [of _ ?r] exI [of _ r1]) simp
qed

end
