(* ===== verification/Tasks.thy ===== *)
theory Tasks
  imports In_Order
begin

text \<open>
  The tasks of one data channel (\<^verbatim>\<open>src/connection.rs\<close>) running together. \<open>channel_step\<close> interleaves
  the loop bodies of the five tasks with the caller, the consumers, the clock and the socket, in
  any order; the invariants below hold in every state that can be reached from an opened channel,
  on a fresh session or one resumed from another channel's state.
\<close>

section \<open>The combined system\<close>

inductive channel_step :: "'e conn_ext_scheme \<Rightarrow> duration \<Rightarrow> reader_state \<Rightarrow> reader_state \<Rightarrow> bool"
  for E idle_timeout where
  reader: "channel_step E idle_timeout r (snd (reader_step E ev r))"
| resume: "channel_step E idle_timeout r (snd (reader_resume E r))"
| writer: "channel_step E idle_timeout r (snd (writer_step r))"
| command: "channel_step E idle_timeout r (snd (command_step E r))"
| retransmit: "channel_step E idle_timeout r (snd (retransmit_step r))"
| heartbeat: "channel_step E idle_timeout r (snd (heartbeat_step idle_timeout r))"
| dispatch: "channel_step E idle_timeout r (r\<lparr>commands := snd (try_send c (commands r))\<rparr>)"
| terminate: "channel_step E idle_timeout r (close_core Terminated r)"
| consumer: "channel_step E idle_timeout r (r\<lparr>core := core_step (ReadStream i) (core r)\<rparr>)"
| subscriber: "channel_step E idle_timeout r (r\<lparr>core := core_step SubscribeCore (core r)\<rparr>)"
| unsubscribe: "channel_step E idle_timeout r (r\<lparr>core := core_step (DropReader i) (core r)\<rparr>)"
| time: "clock r \<le> t \<Longrightarrow> channel_step E idle_timeout r (r\<lparr>clock := t\<rparr>)"
| socket_fails: "channel_step E idle_timeout r (r\<lparr>sink_broken := True\<rparr>)"

inductive channel_reach :: "'e conn_ext_scheme \<Rightarrow> duration \<Rightarrow> reader_state \<Rightarrow> reader_state \<Rightarrow> bool"
  for E idle_timeout r0 where
  start: "channel_reach E idle_timeout r0 r0"
| step: "channel_reach E idle_timeout r0 r \<Longrightarrow> channel_step E idle_timeout r r' \<Longrightarrow>
    channel_reach E idle_timeout r0 r'"

section \<open>Invariants of the shared state\<close>

text \<open>
  The unacknowledged messages carry numbers that were issued, in the order in which they were
  issued and each at most once.
\<close>

definition issued_in_order :: "continuity \<Rightarrow> bool" where
  "issued_in_order k \<longleftrightarrow> (\<exists>n. stream_sequence k = of_nat n
     \<and> subseq (map sequence (pending (outgoing k))) (map of_nat [0..<n]))"

definition stream_inv :: "continuity \<Rightarrow> bool" where
  "stream_inv k \<longleftrightarrow> issued_in_order k \<and> out_inv (outgoing k) \<and> inc_inv (incoming k)"

text \<open>The writer only stops once the session is closed.\<close>

definition chan_inv :: "'z channel_state_scheme \<Rightarrow> bool" where
  "chan_inv s \<longleftrightarrow> core_inv (core s) \<and> stream_inv (stream s)
     \<and> (rx_gone (writer s) \<longrightarrow> closed_now s) \<and> \<not> tx_gone (writer s) \<and> 0 < depth (writer s)
     \<and> length (queued (writer s)) \<le> depth (writer s)"

lemma stream_inv_fresh: "stream_inv continuity_fresh"
  unfolding stream_inv_def issued_in_order_def continuity_fresh_def
  by (simp add: out_inv_new inc_inv_new) (auto simp: out_new_def intro: exI [of _ 0])

lemma issued_track:
  assumes "issued_in_order k" and "track t w (stream_sequence k) (outgoing k) = (True, b)"
  shows "issued_in_order (k\<lparr>outgoing := b, stream_sequence := stream_sequence k + 1\<rparr>)"
proof -
  obtain n where n: "stream_sequence k = of_nat n"
    "subseq (map sequence (pending (outgoing k))) (map of_nat [0..<n])"
    using assms(1) unfolding issued_in_order_def by blast
  have "map sequence (pending b) = map sequence (pending (outgoing k)) @ [of_nat n]"
    using assms(2) n(1) by (auto simp: track_def split: if_splits)
  with n show ?thesis
    unfolding issued_in_order_def
    by (intro exI [of _ "Suc n"]) (simp add: list_emb_append_mono)
qed

lemma acknowledge_subseq:
  "subseq (map sequence (pending (snd (acknowledge t s b)))) (map sequence (pending b))"
proof (cases "List.extract (\<lambda>p. sequence p = s) (pending b)")
  case (Some x)
  obtain ys y zs where x: "x = (ys, y, zs)" by (cases x)
  then have "pending b = ys @ y # zs" using Some extract_Some_split by fastforce
  then show ?thesis using Some x by (auto simp: acknowledge_def Let_def intro: list_emb_append_mono)
qed (simp add: acknowledge_def)

lemma poll_sequences: "map sequence (pending (snd (poll_retransmit t b))) = map sequence (pending b)"
  by (auto simp: poll_retransmit_def Let_def split: list.split)

lemma issued_shrink:
  assumes "issued_in_order k" and "subseq (map sequence (pending b)) (map sequence (pending (outgoing k)))"
  shows "issued_in_order (k\<lparr>outgoing := b\<rparr>)"
  using assms unfolding issued_in_order_def by (auto dest: subseq_order.trans)

lemma stream_inv_track:
  assumes "stream_inv k" and "track t w (stream_sequence k) (outgoing k) = (True, b)"
  shows "stream_inv (k\<lparr>outgoing := b, stream_sequence := stream_sequence k + 1\<rparr>)"
  using assms issued_track [of k t w b] out_inv_track [of "outgoing k" t w "stream_sequence k"]
  by (simp add: stream_inv_def)

lemma stream_inv_acknowledge:
  "stream_inv k \<Longrightarrow> stream_inv (k\<lparr>outgoing := snd (acknowledge t s (outgoing k))\<rparr>)"
  by (simp add: stream_inv_def issued_shrink acknowledge_subseq out_inv_acknowledge)

lemma stream_inv_poll:
  "stream_inv k \<Longrightarrow> stream_inv (k\<lparr>outgoing := snd (poll_retransmit t (outgoing k))\<rparr>)"
  by (simp add: stream_inv_def issued_shrink poll_sequences out_inv_poll)

lemma stream_inv_inbound:
  "stream_inv k \<Longrightarrow> inc_inv b \<Longrightarrow> stream_inv (k\<lparr>expected := e, incoming := b\<rparr>)"
  by (simp add: stream_inv_def issued_in_order_def)

lemma stream_inv_key: "stream_inv k \<Longrightarrow> stream_inv (set_crypto c k)"
  by (simp add: stream_inv_def issued_in_order_def set_crypto_def)

section \<open>Every task keeps the invariants\<close>

lemma chan_inv_core_op: "chan_inv s \<Longrightarrow> chan_inv (s\<lparr>core := core_step op (core s)\<rparr>)"
  using core_inv_step [of "core s" op] closed_core_stable [of "core s" op] by (auto simp: chan_inv_def)

lemma chan_inv_close: "chan_inv s \<Longrightarrow> chan_inv (close_core q s)"
  using chan_inv_core_op [of s "CloseCore q"] by (simp add: close_core_def)

lemma chan_inv_irrelevant [simp]:
  "chan_inv (s\<lparr>draws := n\<rparr>) = chan_inv s" "chan_inv (s\<lparr>clock := t\<rparr>) = chan_inv s"
  "chan_inv (s\<lparr>sink_broken := q\<rparr>) = chan_inv s" "chan_inv (s\<lparr>commands := cs\<rparr>) = chan_inv s"
  "chan_inv (s\<lparr>held_command := hc\<rparr>) = chan_inv s" "chan_inv (s\<lparr>sending := sg\<rparr>) = chan_inv s"
  "chan_inv (s\<lparr>sequence_locked := sl\<rparr>) = chan_inv s" "chan_inv (s\<lparr>last_inbound := li\<rparr>) = chan_inv s"
  by (simp_all add: chan_inv_def)

lemma chan_inv_reader_fields [simp]:
  "chan_inv (r\<lparr>handshake := h\<rparr>) = chan_inv r" "chan_inv (r\<lparr>handshake_started := hs\<rparr>) = chan_inv r"
  "chan_inv (r\<lparr>reader_parked := rp\<rparr>) = chan_inv r"
  by (simp_all add: chan_inv_def)

lemma chan_inv_stream: "chan_inv s \<Longrightarrow> stream_inv k \<Longrightarrow> chan_inv (s\<lparr>stream := k\<rparr>)"
  by (simp add: chan_inv_def)

lemma chan_inv_streamD: "chan_inv s \<Longrightarrow> stream_inv (stream s)"
  by (simp add: chan_inv_def)

lemma chan_inv_try_send:
  assumes "chan_inv s"
  shows "chan_inv (s\<lparr>writer := snd (try_send m (writer s))\<rparr>)"
  using assms ch.never_over_bound(1) [of "writer s" m] by (simp add: chan_inv_def)

lemma chan_inv_stop:
  assumes "chan_inv s" and "closed_now s"
  shows "chan_inv (stop_writer s)"
  using assms by (simp add: chan_inv_def stop_writer_def)

lemma chan_inv_writer_step: "chan_inv s \<Longrightarrow> chan_inv (snd (writer_step s))"
proof -
  assume inv: "chan_inv s"
  have got: "chan_inv (s\<lparr>writer := (writer s)\<lparr>queued := q\<rparr>\<rparr>)" if "queued (writer s) = m # q" for m q
    using inv that by (simp add: chan_inv_def)
  have fail: "chan_inv (stop_writer (close_core c (s\<lparr>writer := (writer s)\<lparr>queued := q\<rparr>\<rparr>)))"
    if "queued (writer s) = m # q" for c m q
    using chan_inv_close [OF got [OF that]] by (rule chan_inv_stop) (simp add: close_core_def core_close_def)
  have sock: "chan_inv (x\<lparr>on_socket := os\<rparr>) = chan_inv x" for x :: "'a channel_state_scheme" and os
    by (simp add: chan_inv_def)
  have "\<not> tx_gone (writer s)" using inv by (simp add: chan_inv_def)
  with inv got fail sock chan_inv_stop [OF inv] show ?thesis
    by (auto simp: writer_step_def recv_def Let_def split: list.split)
qed

lemma chan_inv_write_frame: "chan_inv s \<Longrightarrow> chan_inv (snd (write_frame m s))"
proof -
  assume inv: "chan_inv s"
  let ?s1 = "if length (queued (writer s)) < depth (writer s) then s else snd (writer_step s)"
  have "chan_inv ?s1" using inv chan_inv_writer_step [OF inv] by simp
  then have "chan_inv ?s1 \<and> chan_inv (?s1\<lparr>writer := snd (try_send m (writer ?s1))\<rparr>)"
    using chan_inv_try_send by blast
  then show ?thesis
    by (auto simp: write_frame_def Let_def split: prod.split send_outcome.split)
qed

lemma chan_inv_track_and_write: "chan_inv s \<Longrightarrow> chan_inv (snd (track_and_write f s))"
proof -
  assume inv: "chan_inv s"
  obtain ok b where tr: "track (clock s) f (stream_sequence (stream s)) (outgoing (stream s)) = (ok, b)"
    by (cases "track (clock s) f (stream_sequence (stream s)) (outgoing (stream s))")
  show ?thesis
  proof (cases ok)
    case True
    have "stream_inv ((stream s)\<lparr>outgoing := b, stream_sequence := stream_sequence (stream s) + 1\<rparr>)"
      using stream_inv_track [OF chan_inv_streamD [OF inv]] tr True by simp
    from chan_inv_write_frame [OF chan_inv_stream [OF inv this]] tr True show ?thesis
      by (simp add: track_and_write_def Let_def split_beta)
  qed (use inv tr in \<open>simp add: track_and_write_def Let_def\<close>)
qed

lemma chan_inv_send_payload: "chan_inv s \<Longrightarrow> chan_inv (snd (send_payload E pt pl s))"
proof -
  assume inv: "chan_inv s"
  obtain x s1 where sp: "seal_payload E pt pl s = (x, s1)" by (cases "seal_payload E pt pl s")
  have s1: "chan_inv s1" using seal_payload_kept [OF sp] inv by auto
  then have "chan_inv (snd (track_and_write f (s1\<lparr>draws := n\<rparr>)))" for f n
    using chan_inv_track_and_write [of "s1\<lparr>draws := n\<rparr>"] by simp
  with s1 sp show ?thesis by (cases x) (simp_all add: send_payload_def build_outbound_def)
qed

lemma chan_inv_send_stream: "chan_inv s \<Longrightarrow> chan_inv (snd (snd (send_stream_data E data s)))"
proof (induction E data s rule: send_stream_data.induct)
  case (1 E data s)
  show ?case
  proof (cases "data = [] \<or> chunk_size s = 0")
    case True
    then show ?thesis using 1(2) by (simp add: send_stream_data.simps [of E data s])
  next
    case False
    then have ne: "data \<noteq> []" "0 < chunk_size s" by auto
    obtain x s1 where sp: "send_payload E Output (take (chunk_size s) data) s = (x, s1)"
      by (cases "send_payload E Output (take (chunk_size s) data) s")
    have s1: "chan_inv s1" using chan_inv_send_payload [OF 1(2), of E Output "take (chunk_size s) data"] sp by simp
    show ?thesis
      using send_stream_data_step [OF ne sp] 1(1) [OF False sp [symmetric] _ refl s1] s1 by simp
  qed
qed

lemma chan_inv_after_send: "chan_inv s \<Longrightarrow> chan_inv (snd (after_send x rest s))"
  by (auto simp: after_send_def Let_def intro!: chan_inv_close split: io.split result.split option.split)

lemma chan_inv_command_step: "chan_inv s \<Longrightarrow> chan_inv (snd (command_step E s))"
proof -
  assume inv: "chan_inv s"
  have run: "chan_inv (snd (let (r, rest, s1) = send_stream_data E bs x in after_send r rest s1))"
    if "chan_inv x" for bs x
    using chan_inv_after_send [OF chan_inv_send_stream [OF that, of E bs]]
    by (simp add: split_beta)
  have ctl: "chan_inv (snd (let (r, s1) = send_payload E pt bs s in after_send r [] s1))" for pt bs
    using chan_inv_after_send [OF chan_inv_send_payload [OF inv, of E pt bs]] by (simp add: split_beta)
  show ?thesis
  proof (cases "sending s")
    case None
    with inv run [OF inv] ctl show ?thesis
      by (auto simp: command_step_def split: option.split prod.split recv_outcome.split command.split)
  next
    case (Some x)
    obtain f rest where x: "x = (f, rest)" by (cases x)
    obtain y s1 where tw: "track_and_write f s = (y, s1)" by (cases "track_and_write f s")
    have s1: "chan_inv s1" using chan_inv_track_and_write [OF inv, of f] tw by simp
    then have s1': "chan_inv (s1\<lparr>sending := None, sequence_locked := False\<rparr>)" by simp
    show ?thesis
      using run [OF s1', of rest] chan_inv_after_send [OF s1, of y rest]
      by (auto simp: command_step_def Some x tw split: io.split result.split)
  qed
qed

lemma chan_inv_heartbeat: "chan_inv s \<Longrightarrow> chan_inv (snd (heartbeat_step i s))"
  using chan_inv_try_send [of s "Ping []"]
  by (auto simp: heartbeat_step_def try_write_def split_beta intro: chan_inv_close)

lemma chan_inv_retransmit: "chan_inv s \<Longrightarrow> chan_inv (snd (retransmit_step s))"
proof -
  assume inv: "chan_inv s"
  let ?s1 = "s\<lparr>stream := (stream s)\<lparr>outgoing := snd (poll_retransmit (clock s) (outgoing (stream s)))\<rparr>\<rparr>"
  have "chan_inv ?s1" by (intro chan_inv_stream inv stream_inv_poll chan_inv_streamD)
  then have "chan_inv ?s1 \<and> (\<forall>q. chan_inv (close_core q ?s1)) \<and> (\<forall>m. chan_inv (snd (write_frame m ?s1)))"
    using chan_inv_close chan_inv_write_frame by blast
  with inv show ?thesis
    by (cases "poll_retransmit (clock s) (outgoing (stream s))")
      (auto simp: retransmit_step_def split_beta split: retransmit_action.split prod.split result.split
        dest: spec [of _ "Binary _"])
qed

text \<open>The library lemma on delivering carries the invariant through the reader.\<close>

lemma chan_inv_inc: "chan_inv r \<Longrightarrow> inc_inv (incoming (stream r))"
  by (simp add: chan_inv_def stream_inv_def)

lemma chan_inv_inbound: "chan_inv r \<Longrightarrow> inc_inv b \<Longrightarrow> chan_inv (r\<lparr>stream := (stream r)\<lparr>incoming := b\<rparr>\<rparr>)"
  using stream_inv_inbound [of "stream r" b "expected (stream r)"] by (simp add: chan_inv_stream chan_inv_streamD)

lemma chan_inv_park [simp]: "chan_inv (park_reader held pt pl a r) = chan_inv r"
  by (simp add: park_reader_def)

lemma chan_inv_sent:
  "chan_inv s \<Longrightarrow> send_payload E pt pl s = (x, s') \<Longrightarrow>
    chan_inv (case x of Waits held \<Rightarrow> park_reader held pt pl a s' | Done _ \<Rightarrow> s')"
  using chan_inv_send_payload [of s E pt pl] by (auto split: io.split)

lemma chan_inv_retried:
  "chan_inv s \<Longrightarrow> track_and_write f (s\<lparr>reader_parked := None\<rparr>) = (x, s') \<Longrightarrow>
    chan_inv (case x of Waits w \<Rightarrow> park_reader w pt pl a s' | Done _ \<Rightarrow> s'\<lparr>sequence_locked := False\<rparr>)"
  using chan_inv_track_and_write [of "s\<lparr>reader_parked := None\<rparr>" f] by (auto split: io.split)

interpretation shared: reader_invariant chan_inv E
proof unfold_locales
  fix s :: reader_state and op and pt and pl and c and n and m and e and t and q
  assume inv: "chan_inv s"
  show "chan_inv (s\<lparr>core := core_step op (core s)\<rparr>)" by (rule chan_inv_core_op [OF inv])
  show "chan_inv (s\<lparr>stream := set_crypto c (stream s)\<rparr>)"
    by (intro chan_inv_stream stream_inv_key chan_inv_streamD inv)
  show "chan_inv (s\<lparr>stream := (stream s)\<lparr>incoming := snd (inc_take n (incoming (stream s)))\<rparr>\<rparr>)"
    using ib.take_invar [OF chan_inv_inc [OF inv], of n] by (intro chan_inv_inbound inv)
  show "chan_inv (s\<lparr>stream := (stream s)\<lparr>incoming := snd (inc_insert m (incoming (stream s)))\<rparr>\<rparr>)"
    using ib.insert_invar [OF chan_inv_inc [OF inv], of m] by (intro chan_inv_inbound inv)
  show "chan_inv (s\<lparr>stream := (stream s)\<lparr>expected := e\<rparr>\<rparr>)"
    using stream_inv_inbound [OF chan_inv_streamD [OF inv] chan_inv_inc [OF inv], of e]
    by (intro chan_inv_stream inv) simp
  show "chan_inv (s\<lparr>stream := (stream s)\<lparr>outgoing := snd (acknowledge t q (outgoing (stream s)))\<rparr>\<rparr>)"
    by (intro chan_inv_stream stream_inv_acknowledge chan_inv_streamD inv)
qed (simp_all add: chan_inv_try_send chan_inv_sent chan_inv_retried)

lemma chan_inv_step:
  assumes "channel_step E i r r'" and "chan_inv r"
  shows "chan_inv r'"
  using assms
  by (induction rule: channel_step.induct)
    (auto simp: shared.keeps_reader_step shared.keeps_resume chan_inv_writer_step chan_inv_command_step chan_inv_retransmit
      chan_inv_heartbeat chan_inv_close chan_inv_core_op simp del: core_step.simps)

lemma chan_inv_reach: "channel_reach E i r0 r \<Longrightarrow> chan_inv r0 \<Longrightarrow> chan_inv r"
  by (induction rule: channel_reach.induct) (auto intro: chan_inv_step)

section \<open>Third-party code that does not panic\<close>

definition no_panic :: "'e conn_ext_scheme \<Rightarrow> bool" where
  "no_panic E \<longleftrightarrow> (\<forall>s. base64_decode E s \<noteq> Panic)"

lemma documents_not_Panic [simp]:
  "ack_from_slice E bs \<noteq> Panic" "ack_to_vec E c \<noteq> Panic" "request_from_slice E bs \<noteq> Panic"
  "response_to_vec E x \<noteq> Panic" "complete_from_slice E bs \<noteq> Panic" "challenge_from_slice E bs \<noteq> Panic"
  "challenge_to_vec E s \<noteq> Panic"
  by (simp_all add: ack_from_slice_def ack_to_vec_def request_from_slice_def response_to_vec_def complete_from_slice_def
      challenge_from_slice_def challenge_to_vec_def)

definition calm :: "'a io \<times> 's \<Rightarrow> bool" where
  "calm c \<longleftrightarrow> fst c \<noteq> Done Panic"

lemma calm_simps [simp]:
  "calm (Done x, s) \<longleftrightarrow> x \<noteq> Panic" "calm (Waits w, s)"
  "calm (send_payload E pt pl s')"
  by (simp_all add: calm_def send_payload_not_Panic)

lemma bind_io_calm:
  assumes "calm c" and "\<And>a s. calm (f a s)"
  shows "calm (bind_io c f)"
proof (cases c)
  case (Pair r s)
  then show ?thesis
  proof (cases r)
    case (Done x)
    with Pair assms show ?thesis by (cases x) auto
  qed (use Pair in simp)
qed

lemma outcome_no_Panic:
  "malformed w x = Panic \<longleftrightarrow> x = Panic" "json_error y = Panic \<longleftrightarrow> y = Panic"
  by (cases x; simp) (cases y; simp)

lemma crypto_no_Panic: "decrypt E c f \<noteq> Panic" "encrypt E n c p \<noteq> Panic"
  by (auto simp: decrypt_def encrypt_def Let_def split: option.split)

lemma reply_sent_calm: "x \<noteq> Panic \<Longrightarrow> calm (bind_io (Done x, s) (\<lambda>_. go_on_after a))"
  by (rule bind_io_calm) (simp, cases a, simp_all)

lemma send_reply_calm: "calm (send_reply E pt pl a r)"
  using send_payload_not_Panic [of E pt pl r]
  by (auto simp: send_reply_def intro!: reply_sent_calm split: prod.split io.split)

lemma retry_reply_calm: "calm (retry_reply E held pt pl a r)"
  using track_and_write_not_Panic [where s = r]
  by (auto simp: retry_reply_def intro!: reply_sent_calm send_reply_calm split: option.split prod.split io.split
      dest: meta_spec [of _ "the held"])

lemma deliver_calm:
  assumes "no_panic E"
  shows "calm (deliver E m r)"
proof -
  have dec: "decrypt_if_needed E x s \<noteq> Panic" for x and s :: reader_state
    by (auto simp: decrypt_if_needed_def crypto_no_Panic split: option.split)
  have chal: "parse_challenge E b \<noteq> Panic" "print_challenge E c \<noteq> Panic"
      "response_payload E resp \<noteq> Panic" for b c resp
    using assms
    by (auto simp: no_panic_def parse_challenge_def base64_deserialize_def print_challenge_def
        response_payload_def bind_result_eq_Panic split: option.splits result.splits)
  have "calm (deliver_output E m r)"
    by (auto simp: deliver_output_def Let_def dec intro!: bind_io_calm)
  moreover have "calm (deliver_handshake_request E m r)"
    unfolding deliver_handshake_request_def Let_def split_beta
    using assms chal
    by (auto simp: no_panic_def outcome_no_Panic on_request_def Let_def split_beta answer_handshake_def
        intro!: bind_io_calm send_reply_calm split: option.split)
  moreover have "calm (deliver_handshake_complete E m r)"
    unfolding deliver_handshake_complete_def Let_def split_beta
    using assms
    by (auto simp: no_panic_def outcome_no_Panic on_complete_def intro!: bind_io_calm)
  moreover have "calm (deliver_challenge E m r)"
    unfolding deliver_challenge_def Let_def
    using chal
    by (auto simp: outcome_no_Panic answer_challenge_def bind_result_eq_Panic crypto_no_Panic
        intro!: bind_io_calm send_reply_calm split: option.split)
  moreover have "calm (deliver_exit_code E m r)"
    by (auto simp: deliver_exit_code_def Let_def dec intro!: bind_io_calm)
  ultimately show ?thesis
    by (simp add: deliver_def deliver_flag_def split: payload_type.split)
qed

lemma drain_calm:
  assumes "no_panic E"
  shows "calm (drain E n r)"
  using assms
proof (induction E n r rule: drain.induct)
  case (1 E n r)
  obtain x b where tk: "inc_take n (incoming (stream r)) = (x, b)"
    by (cases "inc_take n (incoming (stream r))")
  show ?case
  proof (cases x)
    case None
    then show ?thesis by (subst drain.simps) (simp add: tk)
  next
    case (Some m)
    let ?r0 = "r\<lparr>stream := (stream r)\<lparr>incoming := b\<rparr>\<rparr>"
    obtain d r1 where dl: "deliver E m ?r0 = (d, r1)" by (cases "deliver E m ?r0")
    obtain n' r2 where adv: "advance_expected r1 = (n', r2)" by (cases "advance_expected r1")
    have tk': "(Some m, b) = inc_take n (incoming (stream r))" using tk Some by simp
    show ?thesis
    proof (cases "d = Done (Ok ())")
      case True
      have "calm (drain E n' r2)"
        using 1(1) [OF tk' refl dl [symmetric] True refl adv [symmetric] refl 1(2)] .
      then show ?thesis using True by (subst drain.simps) (simp add: tk Some dl adv)
    next
      case False
      have "d \<noteq> Done Panic" using deliver_calm [OF 1(2), of m ?r0] dl by (cases d) simp_all
      then show ?thesis using False
        by (subst drain.simps) (auto simp: tk Some dl split: io.split result.split)
    qed
  qed
qed

lemma route_calm:
  assumes "no_panic E"
  shows "calm (route E m r)"
proof -
  have "calm (bind_io (deliver E m x) (\<lambda>_ r1. let (next, r2) = advance_expected r1 in drain E next r2))" for x
    by (rule bind_io_calm)
      (simp_all add: deliver_calm [OF assms] drain_calm [OF assms] split_beta)
  then have "calm (route_stream_data E m r)"
    by (simp add: route_stream_data_def split: prod.split bool.split)
  moreover have "parse_ack E m \<noteq> Panic"
    using assms by (auto simp: parse_ack_def no_panic_def split: result.splits)
  ultimately show ?thesis
    by (auto simp: route_def split_beta intro!: bind_io_calm split: message_type.split)
qed

section \<open>How the tasks end\<close>

lemma close_core_closes [simp]: "closed_now (close_core q s)"
  by (simp add: close_core_def core_close_def)

lemma after_route_exit: "calm p \<Longrightarrow> after_route p = (False, r') \<Longrightarrow> closed_now r'"
  by (cases p) (auto simp: after_route_def split: io.splits result.splits)

lemma advance_drain_calm: "no_panic E \<Longrightarrow> calm (let (next, r2) = advance_expected r in drain E next r2)"
  by (simp add: drain_calm split_beta)

lemma resume_exit:
  assumes "no_panic E"
  shows "reader_resume E r = (False, r') \<longrightarrow> closed_now r'"
  by (auto simp: reader_resume_def split: option.split
      intro!: after_route_exit [OF bind_io_calm [OF retry_reply_calm advance_drain_calm [OF assms]]])

lemma reader_exit:
  assumes "no_panic E"
  shows "reader_step E ev r = (False, r') \<longrightarrow> closed_now r'"
proof (cases ev)
  case (Frame w)
  then show ?thesis
  proof (cases w)
    case (Binary data)
    note ev = Frame [unfolded Binary]
    show ?thesis
    proof (cases "deserialize (sha256 E) data")
      case (Ok x)
      with ev show ?thesis
        using after_route_exit [OF route_calm [OF assms, of x "mark_inbound r"]] by (auto simp: reader_step_def)
    qed (use ev deserialize_total in \<open>auto simp: reader_step_def\<close>)
  next
    case (Text t)
    with Frame show ?thesis by (auto simp: reader_step_def split: prod.splits option.splits)
  qed (auto simp: reader_step_def Let_def)
qed (auto simp: reader_step_def Let_def)

text \<open>A frame is refused only by a writer that has stopped, and that one has seen the session closed.\<close>

lemma write_frame_Err:
  assumes "chan_inv s" and "write_frame m s = (Err e, s')"
  shows "closed_now s'"
proof -
  let ?s1 = "if length (queued (writer s)) < depth (writer s) then s else snd (writer_step s)"
  have inv: "chan_inv ?s1" using assms(1) chan_inv_writer_step [OF assms(1)] by simp
  have s': "s' = ?s1" and refused: "fst (try_send m (writer ?s1)) \<noteq> Sent"
    using assms(2) by (auto simp: write_frame_def Let_def split: prod.splits send_outcome.splits)
  have "rx_gone (writer ?s1) \<or> depth (writer ?s1) \<le> length (queued (writer ?s1))"
    using refused by (auto simp: try_send_def split: if_splits)
  moreover have "rx_gone (writer ?s1)" if "depth (writer ?s1) \<le> length (queued (writer ?s1))"
  proof (rule ccontr)
    assume open0: "\<not> rx_gone (writer ?s1)"
    with that have "\<not> length (queued (writer s)) < depth (writer s)" by auto
    with open0 that assms(1) show False
      by (auto simp: writer_step_def stop_writer_def recv_def Let_def chan_inv_def
          split: list.splits if_splits)
  qed
  ultimately show ?thesis using inv s' by (auto simp: chan_inv_def)
qed

lemma retransmit_exit:
  assumes "chan_inv r"
  shows "retransmit_step r = (False, r') \<longrightarrow> closed_now r'"
proof -
  let ?s1 = "r\<lparr>stream := (stream r)\<lparr>outgoing := snd (poll_retransmit (clock r) (outgoing (stream r)))\<rparr>\<rparr>"
  have inv: "chan_inv ?s1" by (intro chan_inv_stream assms stream_inv_poll chan_inv_streamD)
  obtain a b where poll: "poll_retransmit (clock r) (outgoing (stream r)) = (a, b)"
    by (cases "poll_retransmit (clock r) (outgoing (stream r))")
  show ?thesis
  proof (cases a)
    case (Resend sq w)
    obtain x s2 where wr: "write_frame (Binary w) ?s1 = (x, s2)" by (cases "write_frame (Binary w) ?s1")
    then have "x \<noteq> Panic" using write_frame_not_Panic [of "Binary w" ?s1] by simp
    with wr write_frame_Err [OF inv, of "Binary w"] poll Resend show ?thesis
      by (cases x) (auto simp: retransmit_step_def)
  qed (use poll in \<open>auto simp: retransmit_step_def\<close>)
qed

lemma after_send_exit:
  assumes "after_send x left s = (False, s')" and "x \<noteq> Done Panic"
  shows "closed_now s'"
  using assms by (auto simp: after_send_def Let_def split: io.splits result.splits option.splits if_splits)

lemma send_stream_calm: "fst (send_stream_data E data s) \<noteq> Done Panic"
proof (induction E data s rule: send_stream_data.induct)
  case (1 E data s)
  show ?case
  proof (cases "data = [] \<or> chunk_size s = 0")
    case True
    then show ?thesis by (simp add: send_stream_data.simps [of E data s])
  next
    case False
    then have ne: "data \<noteq> []" "0 < chunk_size s" by auto
    obtain x s1 where sp: "send_payload E Output (take (chunk_size s) data) s = (x, s1)"
      by (cases "send_payload E Output (take (chunk_size s) data) s")
    then have "x \<noteq> Done Panic"
      using send_payload_not_Panic [of E Output "take (chunk_size s) data" s] by simp
    then show ?thesis
      using send_stream_data_step [OF ne sp] 1(1) [OF False sp [symmetric] _ refl] by simp
  qed
qed

lemma command_exit:
  "command_step E r = (False, r') \<longrightarrow> closed_now r' \<or> tx_gone (commands r)"
proof -
  have run: "closed_now s'" if "(let (x, left, s1) = send_stream_data E bs s in after_send x left s1) = (False, s')"
    for bs s s'
    using that send_stream_calm [of E bs s] by (auto simp: split_beta dest: after_send_exit)
  have ctl: "closed_now s'" if "(let (x, s1) = send_payload E pt bs s in after_send x [] s1) = (False, s')"
    for pt bs s s'
    using that send_payload_not_Panic [of E pt bs s] by (auto simp: split_beta dest: after_send_exit)
  show ?thesis
  proof (cases "sending r")
    case None
    with run ctl show ?thesis
      by (auto simp: command_step_def recv_def split: option.splits list.splits command.splits if_splits)
  next
    case (Some x)
    obtain f left where x: "x = (f, left)" by (cases x)
    obtain y s1 where tw: "track_and_write f r = (y, s1)" by (cases "track_and_write f r")
    then have "y \<noteq> Done Panic" using track_and_write_not_Panic [of f r] by simp
    with run show ?thesis
      by (auto simp: command_step_def Some x tw dest: after_send_exit split: io.splits result.splits)
  qed
qed

section \<open>Properties\<close>

text \<open>
  (C4) There is no state in which the session looks alive but nothing is running. In every state
  that the tasks can reach together, if one of them takes its last step, the session is closed
  after it; for the command task also if the last handle to the session is gone. This is about tasks
  that have started: a heartbeat whose timer cannot be made never does.
\<close>

theorem task_exit_means_closed:
  assumes "channel_reach E idle_timeout r0 r" and "chan_inv r0" and "no_panic E"
  shows "(reader_step E ev r = (False, r') \<longrightarrow> closed_now r')
    \<and> (reader_resume E r = (False, r') \<longrightarrow> closed_now r')
    \<and> (writer_step r = (False, r') \<longrightarrow> closed_now r')
    \<and> (heartbeat_step idle_timeout r = (False, r') \<longrightarrow> closed_now r')
    \<and> (retransmit_step r = (False, r') \<longrightarrow> closed_now r')
    \<and> (command_step E r = (False, r') \<longrightarrow> closed_now r' \<or> tx_gone (commands r))"
proof -
  have inv: "chan_inv r" by (rule chan_inv_reach [OF assms(1,2)])
  then have w: "rx_gone (writer r) \<Longrightarrow> closed_now r" "\<not> tx_gone (writer r)" by (auto simp: chan_inv_def)
  have "reader_step E ev r = (False, r') \<longrightarrow> closed_now r'"
    by (rule reader_exit [OF assms(3)])
  moreover have "reader_resume E r = (False, r') \<longrightarrow> closed_now r'"
    by (rule resume_exit [OF assms(3)])
  moreover have "writer_step r = (False, r') \<longrightarrow> closed_now r'"
    using w
    by (auto simp: writer_step_def stop_writer_def Let_def recv_def split: list.splits if_splits)
  moreover have "heartbeat_step idle_timeout r = (False, r') \<longrightarrow> closed_now r'"
    by (auto simp: heartbeat_step_def split: if_splits)
  moreover have "retransmit_step r = (False, r') \<longrightarrow> closed_now r'"
    by (rule retransmit_exit [OF inv])
  moreover have "command_step E r = (False, r') \<longrightarrow> closed_now r' \<or> tx_gone (commands r)"
    by (rule command_exit)
  ultimately show ?thesis by blast
qed

lemma toy_no_panic: "no_panic toy_conn_ext"
  by (simp add: no_panic_def toy_conn_ext_def toy_handshake_ext_def handshake_ext.defs crypto_ext.defs)

lemma chan_inv_new:
  assumes "core_inv c" and "stream_inv k"
  shows "chan_inv (channel_new c k chunk now)"
  using assms by (simp add: chan_inv_def channel_new_def WRITER_QUEUE_DEPTH_def)

lemma toy_chan_inv: "chan_inv toy_reader"
proof -
  have "chan_inv toy_channel"
    unfolding toy_channel_def by (intro chan_inv_new core_inv_new stream_inv_fresh)
  then show ?thesis by (simp add: chan_inv_def toy_reader_def channel_state.defs)
qed

theorem task_exit_means_closed_witness:
  "\<exists>r'. heartbeat_step (secs 120) (toy_reader\<lparr>clock := secs 150\<rparr>) = (False, r') \<and> closed_now r'"
proof -
  let ?r = "toy_reader\<lparr>clock := secs 150\<rparr>"
  have reach: "channel_reach toy_conn_ext (secs 120) toy_reader ?r"
    by (rule channel_reach.step [OF channel_reach.start])
      (rule channel_step.time, simp add: toy_reader_def toy_channel_def channel_new_def channel_state.defs)
  obtain b r' where hb: "heartbeat_step (secs 120) ?r = (b, r')" by (cases "heartbeat_step (secs 120) ?r")
  have "b = False"
    using hb by (auto simp: heartbeat_step_def idle_for_def elapsed_def toy_reader_def toy_channel_def
        channel_new_def core_new_def channel_state.defs)
  with hb task_exit_means_closed [OF reach toy_chan_inv toy_no_panic, where r' = r'] show ?thesis by blast
qed



text \<open>
  When a silent peer is found dead. If the timer can be made, with ticks every \<open>interval\<close> from the last inbound frame on,
  no tick up to \<open>idle_timeout\<close> closes the session, and the first tick after it does, reporting the
  silence; that is within \<open>idle_timeout + interval\<close>, but in general not within \<open>idle_timeout\<close>.
\<close>

theorem dead_peer_detection_time:
  assumes "heartbeat_start (clock s) interval = Ok ()" and "\<not> closed_now s" and "k = idle_timeout div interval + 1"
  shows "(\<forall>j. j * interval \<le> idle_timeout \<longrightarrow>
      (\<exists>s'. heartbeat_step idle_timeout (s\<lparr>clock := last_inbound s + j * interval\<rparr>) = (True, s')
         \<and> \<not> closed_now s'))
    \<and> (\<exists>s'. heartbeat_step idle_timeout (s\<lparr>clock := last_inbound s + k * interval\<rparr>) = (False, s')
         \<and> close_reason (core s') = Some (PeerUnresponsive (k * interval)))
    \<and> idle_timeout < k * interval \<and> k * interval \<le> idle_timeout + interval"
proof -
  have late: "idle_timeout < k * interval" "k * interval \<le> idle_timeout + interval"
    using assms(1,3)
    by (simp_all add: heartbeat_start_def algebra_simps dividend_less_times_div split: if_splits)
  have "\<exists>s'. heartbeat_step idle_timeout (s\<lparr>clock := last_inbound s + j * interval\<rparr>) = (True, s')
         \<and> \<not> closed_now s'" if "j * interval \<le> idle_timeout" for j
    using that assms(2)
    by (auto simp: heartbeat_step_def idle_for_def elapsed_def try_write_def split_beta)
  moreover have "\<exists>s'. heartbeat_step idle_timeout (s\<lparr>clock := last_inbound s + k * interval\<rparr>) = (False, s')
         \<and> close_reason (core s') = Some (PeerUnresponsive (k * interval))"
    using late(1) assms(2)
    by (auto simp: heartbeat_step_def idle_for_def elapsed_def close_core_def core_close_def)
  ultimately show ?thesis using late by blast
qed

theorem dead_peer_detection_time_witness:
  "\<exists>s'. heartbeat_step (secs 120) (toy_reader\<lparr>clock := last_inbound toy_reader + 5 * secs 30\<rparr>) = (False, s')
     \<and> close_reason (core s') = Some (PeerUnresponsive (secs 150))"
proof -
  have "\<not> closed_now toy_reader"
    by (simp add: toy_reader_def toy_channel_def channel_new_def core_new_def channel_state.defs)
  moreover have "heartbeat_start (clock toy_reader) (secs 30) = Ok ()"
    by (simp add: heartbeat_start_def INSTANT_LIMIT_def toy_reader_def toy_channel_def channel_new_def
        channel_state.defs)
  ultimately show ?thesis
    using dead_peer_detection_time [of toy_reader "secs 30" 5 "secs 120"] by simp
qed

text \<open>
  (C16) Opening a channel. It succeeds only for an endpoint that the policy admits; the first frame
  on the socket is then the open message with the session's token, nothing else has been sent; and
  the channel goes on with exactly the stream state it was given, counters, backlog, reorder buffer
  and key included, so that every state it can reach satisfies the channel invariant.
\<close>

theorem connect_authenticates_and_continues:
  assumes "connect E N p c now = Ok r" and "core_inv c" and "stream_inv (par_continuity p)"
  shows "validate_endpoint N (par_endpoint_policy p) (stream_url p) = Ok ()
    \<and> (\<exists>open_msg json. open_to_string E open_msg = Inr json \<and> token_value open_msg = token p
         \<and> client_id open_msg = par_session_id p \<and> frames r = [Text json])
    \<and> stream r = par_continuity p \<and> 1 \<le> chunk_size r \<and> chunk_size r \<le> MAX_PAYLOAD_SIZE
    \<and> (\<forall>idle r'. channel_reach E idle r r' \<longrightarrow> chan_inv r')"
proof -
  let ?m = "\<lparr>message_schema_version = MESSAGE_SCHEMA_VERSION,
          request_id = uuid_to_string E (uuid_at E 0), token_value = token p,
          client_id = par_session_id p, open_client_version = CLIENT_PROTOCOL_VERSION\<rparr>"
  obtain json h where v: "validate_endpoint N (par_endpoint_policy p) (stream_url p) = Ok ()"
    and j: "open_to_string E ?m = Inr json"
    and r: "r = channel_state.extend
        ((channel_new c (par_continuity p) (par_chunk_size p) now)\<lparr>on_socket := [Text json], draws := 1\<rparr>)
        \<lparr>handshake = h, handshake_started = None, reader_parked = None\<rparr>"
    using assms(1) by (auto simp: connect_def Let_def)
  have "chan_inv (channel_new c (par_continuity p) (par_chunk_size p) now)"
    by (rule chan_inv_new [OF assms(2,3)])
  then have "chan_inv r" by (simp add: chan_inv_def r channel_state.defs channel_new_def)
  then have "\<forall>idle r'. channel_reach E idle r r' \<longrightarrow> chan_inv r'" by (blast intro: chan_inv_reach)
  moreover have "frames r = [Text json]" "stream r = par_continuity p"
    "1 \<le> chunk_size r" "chunk_size r \<le> MAX_PAYLOAD_SIZE"
    using clamp_bounds [of 1 MAX_PAYLOAD_SIZE "par_chunk_size p"]
    by (simp_all add: r frames_def channel_state.defs channel_new_def MAX_PAYLOAD_SIZE_def)
  ultimately show ?thesis using v j by (intro conjI exI [of _ ?m] exI [of _ json]) auto
qed

definition toy_params :: connection_params where
  "toy_params = \<lparr>par_session_id = ''s'', par_target = ''i-1'', stream_url = ''wss://ssmmessages.x.amazonaws.com'',
    token = ''t'', par_chunk_size = 0, par_endpoint_policy = AwsOnly, signer = None,
    par_continuity = continuity_fresh, par_heartbeat_interval = 1, par_idle_timeout = 2, kms_client = False\<rparr>"

lemma toy_connects: "\<exists>r. connect toy_conn_ext toy_endpoint_ext toy_params (core_new ''s'' 4) 0 = Ok r"
proof -
  have "validate_endpoint toy_endpoint_ext AwsOnly ''wss://ssmmessages.x.amazonaws.com'' = Ok ()"
    by (simp add: validate_endpoint_def toy_endpoint_ext_def suffix_def)
  moreover have "fst (dial toy_endpoint_ext ''wss://ssmmessages.x.amazonaws.com'' None) = Ok ()"
    by (simp add: dial_def CONNECT_ATTEMPTS_def numeral_3_eq_3 prepare_upgrade_def upgrade_request_def
        toy_endpoint_ext_def Let_def)
  ultimately show ?thesis
    by (simp add: connect_def toy_params_def Let_def)
qed

theorem connect_authenticates_and_continues_witness:
  "\<exists>r. connect toy_conn_ext toy_endpoint_ext toy_params (core_new ''s'' 4) 0 = Ok r \<and> chan_inv r"
proof -
  obtain r where r: "connect toy_conn_ext toy_endpoint_ext toy_params (core_new ''s'' 4) 0 = Ok r"
    using toy_connects ..
  have "stream_inv (par_continuity toy_params)" by (simp add: stream_inv_fresh toy_params_def)
  with connect_authenticates_and_continues [OF r core_inv_new] have "chan_inv r"
    using channel_reach.start by blast
  with r show ?thesis by blast
qed

end
