(* ===== verification/Documents.thy ===== *)
theory Documents
  imports Rust_Strings
begin

text \<open>
  \<^verbatim>\<open>src/documents.rs\<close>: the managed documents a session can be started with, as one datatype with a
  constructor per implementation of the trait \<^verbatim>\<open>SsmDocument\<close>. The parameters of a document are the
  association list that the call to \<^verbatim>\<open>params\<close> builds its map from; its keys are distinct.
\<close>

section \<open>Decimal numbers\<close>

text \<open>\<^verbatim>\<open>u16::to_string\<close>.\<close>

fun decimal :: "nat \<Rightarrow> string" where
  "decimal n =
    (if n < 10 then [char_of (48 + n)] else decimal (n div 10) @ [char_of (48 + n mod 10)])"

declare decimal.simps [simp del]

lemma digits_value_snoc: "digits_value (ds @ [c]) = digits_value ds * 10 + (of_char c - 48)"
  by (simp add: digits_value_def)

lemma of_char_digit: "d < 10 \<Longrightarrow> (of_char (char_of (48 + d :: nat)) :: int) = 48 + int d"
proof -
  assume "d < 10"
  then have d: "(of_char (char_of (48 + d)) :: nat) = 48 + d" by simp
  have "(of_char (char_of (48 + d)) :: int) = int (of_char (char_of (48 + d)))"
    by (simp only: of_nat_of_char)
  then show ?thesis using d by simp
qed

lemma digits_value_decimal: "digits_value (decimal n) = int n"
proof (induction n rule: decimal.induct)
  case (1 n)
  then show ?case
    by (cases "n < 10")
      (simp_all add: decimal.simps [of n] digits_value_snoc of_char_digit digits_value_def [of "[_]"] zdiv_int zmod_int)
qed

lemma decimal_inject [simp]: "decimal m = decimal n \<longleftrightarrow> m = n"
  using digits_value_decimal by (metis of_nat_eq_iff)

section \<open>The documents\<close>

datatype session_type = StandardStream | Port

datatype ssm_document =
    ShellSession
  | PortForwardingSession (remote_port: u16)
  | PortForwardingToRemoteHost (host: string) (host_port: u16)
  | SshSession (ssh_port: u16)
  | InteractiveCommand (command_line: string)
  | NonInteractiveCommand (command_line: string)

definition ssh_new :: ssm_document where
  "ssh_new = SshSession 22"

definition interactive_command_new :: "string \<Rightarrow> ssm_document" where
  "interactive_command_new line = InteractiveCommand line"

definition non_interactive_command_new :: "string \<Rightarrow> ssm_document" where
  "non_interactive_command_new line = NonInteractiveCommand line"

fun document_name :: "ssm_document \<Rightarrow> string" where
  "document_name ShellSession = ''''"
| "document_name (PortForwardingSession _) = ''AWS-StartPortForwardingSession''"
| "document_name (PortForwardingToRemoteHost _ _) = ''AWS-StartPortForwardingSessionToRemoteHost''"
| "document_name (SshSession _) = ''AWS-StartSSHSession''"
| "document_name (InteractiveCommand _) = ''AWS-StartInteractiveCommand''"
| "document_name (NonInteractiveCommand _) = ''AWS-StartNonInteractiveCommand''"

fun document_session_type :: "ssm_document \<Rightarrow> session_type" where
  "document_session_type (PortForwardingSession _) = Port"
| "document_session_type (PortForwardingToRemoteHost _ _) = Port"
| "document_session_type _ = StandardStream"

definition params :: "(string \<times> string) list \<Rightarrow> (string \<times> string list) list" where
  "params pairs = map (\<lambda>(k, v). (k, [v])) pairs"

fun parameters :: "ssm_document \<Rightarrow> (string \<times> string list) list" where
  "parameters ShellSession = []"
| "parameters (PortForwardingSession p) = params [(''portNumber'', decimal (unat p))]"
| "parameters (PortForwardingToRemoteHost h p) =
     params [(''host'', h), (''portNumber'', decimal (unat p))]"
| "parameters (SshSession p) = params [(''portNumber'', decimal (unat p))]"
| "parameters (InteractiveCommand c) = params [(''command'', c)]"
| "parameters (NonInteractiveCommand c) = params [(''command'', c)]"

lemma parameters_distinct: "distinct (map fst (parameters d))"
  by (cases d) (auto simp: params_def)

text \<open>
  What is sent to the service determines the document: two documents with the same name and the
  same parameters are the same document, ports included; and the name alone decides how the byte
  stream is to be read, so that exactly the two port-forwarding documents make a multiplexed
  session.
\<close>

theorem document_request_faithful:
  "(document_name d = document_name d' \<and> map_of (parameters d) = map_of (parameters d')) = (d = d')
   \<and> (document_session_type d = Port) =
      (document_name d \<in> {''AWS-StartPortForwardingSession'', ''AWS-StartPortForwardingSessionToRemoteHost''})"
proof
  show "(document_name d = document_name d' \<and> map_of (parameters d) = map_of (parameters d')) = (d = d')"
    by (cases d; cases d') (auto simp: params_def fun_eq_iff word_unat_eq_iff split: if_splits)
  show "(document_session_type d = Port) =
      (document_name d \<in> {''AWS-StartPortForwardingSession'', ''AWS-StartPortForwardingSessionToRemoteHost''})"
    by (cases d) auto
qed

end
