(* ===== verification/Session.thy ===== *)
theory Session
  imports Tasks Documents
begin

text \<open>
  \<^verbatim>\<open>src/session.rs\<close>: the session's configuration, the handle \<^verbatim>\<open>Session\<close> that callers hold, and the
  \<^verbatim>\<open>SessionManager\<close> that starts, resumes and releases sessions through the SSM service. The service
  is a parameter: what it answers to a call may depend on all calls made before, which are recorded
  in order. The same history selects the network and the agent that a data channel meets.
\<close>

section \<open>Configuration\<close>

definition MAX_TARGET_CHARS :: nat where "MAX_TARGET_CHARS = 400"
definition MAX_REASON_CHARS :: nat where "MAX_REASON_CHARS = 256"

record document_spec =
  spec_name :: string
  spec_parameters :: "(string \<times> string list) list"
  spec_session_type :: session_type

definition document_spec_new :: "ssm_document \<Rightarrow> document_spec" where
  "document_spec_new d = \<lparr>spec_name = document_name d, spec_parameters = parameters d,
     spec_session_type = document_session_type d\<rparr>"

record session_config =
  cfg_target :: string
  cfg_document :: "document_spec option"
  cfg_reason :: "string option"
  cfg_ready_timeout :: duration
  cfg_heartbeat_interval :: duration
  cfg_idle_timeout :: duration
  cfg_payload_chunk_size :: nat
  cfg_output_buffer :: nat
  cfg_endpoint_policy :: endpoint_policy

definition config_default :: session_config where
  "config_default = \<lparr>cfg_target = [], cfg_document = None, cfg_reason = None,
     cfg_ready_timeout = secs 30, cfg_heartbeat_interval = secs 30, cfg_idle_timeout = secs 120,
     cfg_payload_chunk_size = DEFAULT_PAYLOAD_CHUNK_SIZE, cfg_output_buffer = DEFAULT_SUBSCRIBER_CAPACITY,
     cfg_endpoint_policy = AwsOnly\<rparr>"

definition config_new :: "string \<Rightarrow> session_config" where
  "config_new t = config_default\<lparr>cfg_target := t\<rparr>"

definition config_session_type :: "session_config \<Rightarrow> session_type" where
  "config_session_type c =
    (case cfg_document c of None \<Rightarrow> session_type.StandardStream | Some d \<Rightarrow> spec_session_type d)"

definition validate_reason :: "string option \<Rightarrow> (unit, error) result" where
  "validate_reason r =
    (case r of
       None \<Rightarrow> Ok ()
     | Some reason \<Rightarrow>
         let n = char_count reason in
         if n = 0 then Err (Config [Txt ''reason must not be empty; leave it unset instead''])
         else if n > MAX_REASON_CHARS then
           Err (Config [Txt ''reason is '', Num (int n), Txt '' characters; ssm:StartSession accepts at most '',
             Num (int MAX_REASON_CHARS)])
         else Ok ())"

definition validate_config :: "session_config \<Rightarrow> (unit, error) result" where
  "validate_config c =
    (if trim (cfg_target c) = [] then Err (Config [Txt ''target must not be empty''])
     else if char_count (cfg_target c) > MAX_TARGET_CHARS then
       Err (Config [Txt ''target is '', Num (int (char_count (cfg_target c))),
         Txt '' characters; ssm:StartSession accepts at most '', Num (int MAX_TARGET_CHARS)])
     else bind_result (validate_reason (cfg_reason c)) (\<lambda>_.
       if cfg_payload_chunk_size c = 0 then Err (Config [Txt ''payload_chunk_size must be at least 1''])
       else if cfg_payload_chunk_size c > MAX_PAYLOAD_SIZE then
         Err (Config [Txt ''payload_chunk_size '', Num (int (cfg_payload_chunk_size c)), Txt '' exceeds the '',
           Num (int MAX_PAYLOAD_SIZE), Txt ''-byte protocol limit''])
       else if cfg_idle_timeout c \<le> cfg_heartbeat_interval c then
         Err (Config [Txt ''idle_timeout ('', Dur (cfg_idle_timeout c), Txt '') must exceed heartbeat_interval ('',
           Dur (cfg_heartbeat_interval c),
           Txt ''), otherwise a healthy connection is declared dead between pings''])
       else Ok ()))"

section \<open>The service\<close>

record start_request =
  req_target :: string
  req_document_name :: "string option"
  req_parameters :: "(string \<times> string list) list option"
  req_reason :: "string option"

record session_response =
  resp_session_id :: "string option"
  resp_stream_url :: "string option"
  resp_token_value :: "string option"

datatype api_call = StartSession start_request | ResumeSession string | TerminateSession string

record aws_ext =
  start_api :: "api_call list \<Rightarrow> start_request \<Rightarrow> sdk_error + session_response"
  resume_api :: "api_call list \<Rightarrow> string \<Rightarrow> sdk_error + session_response"
  terminate_api :: "api_call list \<Rightarrow> string \<Rightarrow> sdk_error + unit"
  net_env :: "api_call list \<Rightarrow> endpoint_ext"
  conn_env :: "api_call list \<Rightarrow> conn_ext"
  time_env :: "api_call list \<Rightarrow> instant"

section \<open>The session handle\<close>

text \<open>
  The shared core, the command queue's sending end and the continuity of \<^verbatim>\<open>Session\<close> are parts of the
  channel's state. \<open>sess_tasks\<close> is the number of task handles it still holds, \<open>sess_ssm\<close> whether it
  has a client for the service.
\<close>

record session =
  chan :: reader_state
  sess_config :: session_config
  sess_ssm :: bool
  sess_tasks :: nat

record session_opening =
  op_session_id :: string
  op_config :: session_config
  op_stream_url :: string
  op_token :: string
  op_ssm :: bool
  op_signer :: "string option"
  op_continuity :: continuity
  op_kms :: bool

definition session_open ::
    "conn_ext \<Rightarrow> endpoint_ext \<Rightarrow> instant \<Rightarrow> session_opening \<Rightarrow> (session, error) result" where
  "session_open E N now p =
    (let cfg = op_config p;
         c = core_new (op_session_id p) (cfg_output_buffer cfg)
     in bind_result (connect E N
          \<lparr>par_session_id = op_session_id p, par_target = cfg_target cfg, stream_url = op_stream_url p,
           token = op_token p, par_chunk_size = cfg_payload_chunk_size cfg,
           par_endpoint_policy = cfg_endpoint_policy cfg, signer = op_signer p,
           par_continuity = op_continuity p, par_heartbeat_interval = cfg_heartbeat_interval cfg,
           par_idle_timeout = cfg_idle_timeout cfg, kms_client = op_kms p\<rparr> c now)
        (\<lambda>r. Ok \<lparr>chan = r, sess_config = cfg, sess_ssm = op_ssm p, sess_tasks = 5\<rparr>))"

definition attach ::
    "conn_ext \<Rightarrow> endpoint_ext \<Rightarrow> instant \<Rightarrow> string \<Rightarrow> string \<Rightarrow> string \<Rightarrow> session_config
      \<Rightarrow> (session, error) result" where
  "attach E N now sid url tok cfg =
    bind_result (validate_config cfg) (\<lambda>_.
    session_open E N now \<lparr>op_session_id = sid, op_config = cfg, op_stream_url = url, op_token = tok,
      op_ssm = False, op_signer = None, op_continuity = continuity_fresh, op_kms = False\<rparr>)"

abbreviation sess_core :: "session \<Rightarrow> session_core" where
  "sess_core s \<equiv> core (chan s)"

abbreviation sess_closed :: "session \<Rightarrow> bool" where
  "sess_closed s \<equiv> is_closed (sess_core s)"

abbreviation sess_id :: "session \<Rightarrow> string" where
  "sess_id s \<equiv> session_id (sess_core s)"

definition sess_agent_version :: "session \<Rightarrow> string option" where
  "sess_agent_version s = core_agent_version (sess_core s)"

definition sess_banner :: "session \<Rightarrow> string option" where
  "sess_banner s = banner (sess_core s)"

definition sess_exit_code :: "session \<Rightarrow> int option" where
  "sess_exit_code s = exit_code (sess_core s)"

definition sess_ready :: "session \<Rightarrow> bool" where
  "sess_ready s \<longleftrightarrow> is_sendable (sess_core s)"

definition sess_close_reason :: "session \<Rightarrow> close_reason option" where
  "sess_close_reason s = close_reason (sess_core s)"

definition sess_encrypted :: "session \<Rightarrow> bool" where
  "sess_encrypted s \<longleftrightarrow> stream_crypto (stream (chan s)) \<noteq> None"

definition closed_error :: "session \<Rightarrow> error" where
  "closed_error s = SessionClosed
    (case close_reason (sess_core s) of
       None \<Rightarrow> [Txt ''session is closing'']
     | Some r \<Rightarrow> reason_to_string r)"

text \<open>
  \<^verbatim>\<open>wait_ready\<close> looks at the state again whenever it is woken; \<open>expired\<close> says whether the deadline has
  passed. Nothing decided yet is \<^term>\<open>Waits None\<close>.
\<close>

definition wait_ready :: "bool \<Rightarrow> session \<Rightarrow> unit io" where
  "wait_ready expired s =
    (if is_sendable (sess_core s) \<or> sess_closed s then
       (if is_sendable (sess_core s) then Done (Ok ()) else Done (Err (closed_error s)))
     else if expired then Done (Err (Timeout (cfg_ready_timeout (sess_config s))))
     else Waits None)"

text \<open>\<^verbatim>\<open>dispatch\<close>: a full queue makes the caller wait for room or for the end of the session.\<close>

definition dispatch :: "command \<Rightarrow> session \<Rightarrow> unit io \<times> session" where
  "dispatch cmd s =
    (if sess_closed s then (Done (Err (closed_error s)), s)
     else case try_send cmd (commands (chan s)) of
       (Sent, q) \<Rightarrow> (Done (Ok ()), s\<lparr>chan := (chan s)\<lparr>commands := q\<rparr>\<rparr>)
     | (ReceiverGone, _) \<Rightarrow> (Done (Err (closed_error s)), s)
     | (QueueFull, _) \<Rightarrow> (Waits None, s))"

definition session_send :: "bytes \<Rightarrow> session \<Rightarrow> unit io \<times> session" where
  "session_send data s = dispatch (Data data) s"

text \<open>The size of the terminal as a document; printing JSON is an argument.\<close>

definition size_to_vec :: "(json \<Rightarrow> string + string) \<Rightarrow> u16 \<Rightarrow> u16 \<Rightarrow> string + bytes" where
  "size_to_vec printer cols rows =
    (case printer (JObj [(''cols'', JInt (uint cols)), (''rows'', JInt (uint rows))]) of
       Inl e \<Rightarrow> Inl e
     | Inr text \<Rightarrow> Inr (as_bytes text))"

definition send_terminal_size ::
    "(json \<Rightarrow> string + string) \<Rightarrow> u16 \<Rightarrow> u16 \<Rightarrow> session \<Rightarrow> unit io \<times> session" where
  "send_terminal_size printer cols rows s =
    (case size_to_vec printer cols rows of
       Inl e \<Rightarrow> (Done (Err (Serialization e)), s)
     | Inr pl \<Rightarrow> dispatch (Control Size pl) s)"

definition session_output :: "session \<Rightarrow> nat \<times> session" where
  "session_output s =
    (let (i, c) = core_subscribe (sess_core s) in (i, s\<lparr>chan := (chan s)\<lparr>core := c\<rparr>\<rparr>))"

definition sess_close :: "close_reason \<Rightarrow> session \<Rightarrow> session" where
  "sess_close r s = s\<lparr>chan := close_core r (chan s)\<rparr>"

definition join_tasks :: "session \<Rightarrow> session" where
  "join_tasks s = s\<lparr>sess_tasks := 0\<rparr>"

definition terminate :: "api_call list \<Rightarrow> session \<Rightarrow> (unit, error) result \<times> api_call list \<times> session" where
  "terminate calls s =
    (let first = (\<not> sess_closed s);
         s1 = join_tasks (sess_close Terminated s)
     in (Ok (), if first \<and> sess_ssm s then calls @ [TerminateSession (sess_id s)] else calls, s1))"

definition session_drop :: "session \<Rightarrow> session" where
  "session_drop s = (sess_close Terminated s)\<lparr>sess_tasks := 0\<rparr>"

section \<open>The session manager\<close>

record session_manager =
  mgr_signer :: "string option"
  mgr_kms :: bool

definition from_conf :: "bool \<Rightarrow> string option \<Rightarrow> session_manager" where
  "from_conf has_credentials region =
    \<lparr>mgr_signer = (if has_credentials then region else None), mgr_kms = True\<rparr>"

text \<open>
  Loading the SDK's configuration is a parameter: for the region it is pinned to, if any, it tells whether
  there is a credentials provider and which region is in effect.
\<close>

type_synonym sdk_loader = "string option \<Rightarrow> bool \<times> string option"

definition manager_new :: "sdk_loader \<Rightarrow> (session_manager, error) result" where
  "manager_new load = (case load None of (credentials, reg) \<Rightarrow> Ok (from_conf credentials reg))"

definition manager_for_region :: "sdk_loader \<Rightarrow> string \<Rightarrow> (session_manager, error) result" where
  "manager_for_region load r = (case load (Some r) of (credentials, reg) \<Rightarrow> Ok (from_conf credentials reg))"

definition build_start_request :: "session_config \<Rightarrow> start_request" where
  "build_start_request c =
    \<lparr>req_target = cfg_target c,
     req_document_name = (case cfg_document c of
         Some d \<Rightarrow> if spec_name d = [] then None else Some (spec_name d) | None \<Rightarrow> None),
     req_parameters = (case cfg_document c of
         Some d \<Rightarrow> if spec_parameters d = [] then None else Some (spec_parameters d) | None \<Rightarrow> None),
     req_reason = cfg_reason c\<rparr>"

definition ok_or :: "error \<Rightarrow> 'a option \<Rightarrow> ('a, error) result" where
  "ok_or e x = (case x of Some a \<Rightarrow> Ok a | None \<Rightarrow> Err e)"

definition response_fields :: "session_response \<Rightarrow> (string \<times> string \<times> string, error) result" where
  "response_fields r =
    bind_result (ok_or (Aws [Txt ''StartSession returned no session ID''] None) (resp_session_id r)) (\<lambda>sid.
    bind_result (ok_or (Aws [Txt ''StartSession returned no stream URL''] None) (resp_stream_url r)) (\<lambda>url.
    bind_result (ok_or (Aws [Txt ''StartSession returned no token''] None) (resp_token_value r)) (\<lambda>tok.
    Ok (sid, url, tok))))"

definition terminate_session ::
    "aws_ext \<Rightarrow> api_call list \<Rightarrow> string \<Rightarrow> (unit, error) result \<times> api_call list" where
  "terminate_session A calls sid =
    (case terminate_api A calls sid of Inl e \<Rightarrow> Err (from_sdk_error e) | Inr _ \<Rightarrow> Ok (), calls @ [TerminateSession sid])"

definition start_session ::
    "aws_ext \<Rightarrow> session_manager \<Rightarrow> session_config \<Rightarrow> api_call list
      \<Rightarrow> (session, error) result \<times> api_call list" where
  "start_session A m cfg calls =
    (case validate_config cfg of
       Err e \<Rightarrow> (Err e, calls)
     | Panic \<Rightarrow> (Panic, calls)
     | Ok _ \<Rightarrow>
         let rq = build_start_request cfg; calls1 = calls @ [StartSession rq] in
         case start_api A calls rq of
           Inl e \<Rightarrow> (Err (from_sdk_error e), calls1)
         | Inr response \<Rightarrow>
             case response_fields response of
               Err e \<Rightarrow> (Err e, calls1)
             | Panic \<Rightarrow> (Panic, calls1)
             | Ok (sid, url, tok) \<Rightarrow>
                 case session_open (conn_env A calls1) (net_env A calls1) (time_env A calls1)
                     \<lparr>op_session_id = sid, op_config = cfg, op_stream_url = url, op_token = tok,
                      op_ssm = True, op_signer = mgr_signer m, op_continuity = continuity_fresh,
                      op_kms = mgr_kms m\<rparr> of
                   Ok s \<Rightarrow> (Ok s, calls1)
                 | Err e \<Rightarrow> (Err e, snd (terminate_session A calls1 sid))
                 | Panic \<Rightarrow> (Panic, calls1))"

definition resume_session ::
    "aws_ext \<Rightarrow> session_manager \<Rightarrow> string \<Rightarrow> session_config \<Rightarrow> continuity \<Rightarrow> api_call list
      \<Rightarrow> (session option, error) result \<times> api_call list" where
  "resume_session A m sid cfg k calls =
    (case validate_config cfg of
       Err e \<Rightarrow> (Err e, calls)
     | Panic \<Rightarrow> (Panic, calls)
     | Ok _ \<Rightarrow>
         let calls1 = calls @ [ResumeSession sid] in
         case resume_api A calls sid of
           Inl e \<Rightarrow> (Err (from_sdk_error e), calls1)
         | Inr response \<Rightarrow>
             case (resp_stream_url response, resp_token_value response) of
               (Some url, Some tok) \<Rightarrow>
                 if tok = [] then (Ok None, calls1)
                 else
                   (bind_result (session_open (conn_env A calls1) (net_env A calls1) (time_env A calls1)
                      \<lparr>op_session_id = sid, op_config = cfg, op_stream_url = url, op_token = tok,
                       op_ssm = True, op_signer = mgr_signer m, op_continuity = k,
                       op_kms = mgr_kms m\<rparr>) (\<lambda>s. Ok (Some s)), calls1)
             | _ \<Rightarrow> (Ok None, calls1))"


section \<open>Configurations\<close>

text \<open>
  A configuration that passes means the same to the channel: the chunk size is used as it is, and
  the silence that ends a session is longer than the time between two pings.
\<close>

lemma validate_config_Ok:
  assumes "validate_config c = Ok ()"
  shows "clamp 1 MAX_PAYLOAD_SIZE (cfg_payload_chunk_size c) = cfg_payload_chunk_size c"
    and "cfg_heartbeat_interval c < cfg_idle_timeout c"
    and "char_count (cfg_target c) \<le> MAX_TARGET_CHARS"
    and "cfg_target c \<noteq> []"
proof -
  have trim_Nil: "trim [] = []"
  proof -
    have "find (\<lambda>p. False) ps = None" for ps :: "string list" by (induction ps) auto
    then have "trim_start_matches ps [] = []" for ps by (subst trim_start_matches.simps) simp
    then show ?thesis by (simp add: trim_def trim_matches_def trim_end_matches_def)
  qed
  show "clamp 1 MAX_PAYLOAD_SIZE (cfg_payload_chunk_size c) = cfg_payload_chunk_size c"
    using assms by (auto simp: validate_config_def clamp_def split: if_splits)
  show "cfg_heartbeat_interval c < cfg_idle_timeout c" "char_count (cfg_target c) \<le> MAX_TARGET_CHARS"
    using assms by (auto simp: validate_config_def split: if_splits)
  show "cfg_target c \<noteq> []"
    using assms trim_Nil by (auto simp: validate_config_def split: if_splits)
qed

lemma validate_config_not_Panic [simp]: "validate_config c \<noteq> Panic"
  by (auto simp: validate_config_def validate_reason_def Let_def bind_result_eq_Panic split: option.splits)

section \<open>Opening\<close>

lemma dial_not_Panic: "fst (dial N raw sg) \<noteq> Panic"
  using dial_loop_counts [of N raw sg CONNECT_ATTEMPTS "millis 200"]
  by (cases "dial N raw sg") (auto simp: dial_def CONNECT_ATTEMPTS_def)

lemma validate_endpoint_not_Panic: "validate_endpoint N q raw \<noteq> Panic"
  by (auto simp: validate_endpoint_def bind_result_eq_Panic Let_def split: option.splits)

lemma session_open_not_Panic: "session_open E N now p \<noteq> Panic"
  by (auto simp: session_open_def connect_def Let_def bind_result_eq_Panic dial_not_Panic
      validate_endpoint_not_Panic)

text \<open>What an opened session is, and that its channel invariant holds from then on.\<close>

lemma session_open_Ok:
  assumes "session_open E N now p = Ok s" and "stream_inv (op_continuity p)"
  shows "sess_id s = op_session_id p" and "\<not> sess_closed s" and "sess_config s = op_config p"
    and "sess_ssm s = op_ssm p" and "stream (chan s) = op_continuity p"
    and "validate_endpoint N (cfg_endpoint_policy (op_config p)) (op_stream_url p) = Ok ()"
    and "\<exists>open_msg json. open_to_string E open_msg = Inr json \<and> token_value open_msg = op_token p
           \<and> client_id open_msg = op_session_id p \<and> frames (chan s) = [Text json]"
    and "chan_inv (chan s)"
proof -
  let ?c = "core_new (op_session_id p) (cfg_output_buffer (op_config p))"
  let ?m = "\<lparr>message_schema_version = MESSAGE_SCHEMA_VERSION,
          request_id = uuid_to_string E (uuid_at E 0), token_value = op_token p,
          client_id = op_session_id p, open_client_version = CLIENT_PROTOCOL_VERSION\<rparr>"
  let ?new = "channel_new ?c (op_continuity p) (cfg_payload_chunk_size (op_config p)) now"
  obtain json h where j: "open_to_string E ?m = Inr json"
    and v: "validate_endpoint N (cfg_endpoint_policy (op_config p)) (op_stream_url p) = Ok ()"
    and s: "s = \<lparr>chan = channel_state.extend (?new\<lparr>on_socket := [Text json], draws := 1\<rparr>)
        \<lparr>handshake = h, handshake_started = None, reader_parked = None\<rparr>,
        sess_config = op_config p, sess_ssm = op_ssm p, sess_tasks = 5\<rparr>"
    using assms(1) by (auto simp: session_open_def connect_def Let_def)
  have "chan_inv ?new" by (rule chan_inv_new [OF core_inv_new assms(2)])
  then show "chan_inv (chan s)" by (simp add: chan_inv_def s channel_state.defs channel_new_def)
  show "validate_endpoint N (cfg_endpoint_policy (op_config p)) (op_stream_url p) = Ok ()" by (rule v)
  have fr: "frames (chan s) = [Text json]" by (simp add: s frames_def channel_state.defs channel_new_def)
  show "\<exists>open_msg json. open_to_string E open_msg = Inr json \<and> token_value open_msg = op_token p
           \<and> client_id open_msg = op_session_id p \<and> frames (chan s) = [Text json]"
    by (intro exI [of _ ?m] exI [of _ json]) (simp add: j fr)
qed (use assms in \<open>auto simp: session_open_def connect_def Let_def channel_state.defs channel_new_def core_new_def\<close>)

section \<open>Closing\<close>

text \<open>A call that ends on a closed session, leaving the counter unlocked.\<close>

definition settles :: "unit io \<times> 'z channel_state_scheme \<Rightarrow> bool" where
  "settles p \<longleftrightarrow> (case fst p of Done _ \<Rightarrow> True | Waits _ \<Rightarrow> False) \<and> closed_now (snd p)
     \<and> \<not> sequence_locked (snd p)"

lemma track_and_write_settles:
  assumes "closed_now s" and "\<not> sequence_locked s"
  shows "settles (track_and_write f s)"
  using assms
  by (auto simp: settles_def track_and_write_def Let_def split_beta write_frame_closed split: bool.split)

text \<open>On a closed session no send waits for room: it ends, one way or the other.\<close>

lemma send_payload_settles:
  assumes "closed_now s" and "\<not> sequence_locked s"
  shows "settles (send_payload E pt pl s)"
proof -
  obtain r s1 where s1: "seal_payload E pt pl s = (r, s1)" by (cases "seal_payload E pt pl s")
  then obtain n where n: "s1 = s\<lparr>draws := n\<rparr>" using seal_payload_kept by blast
  show ?thesis
    using assms track_and_write_settles [of "s1\<lparr>draws := Suc (draws s1)\<rparr>"]
    by (cases r) (simp_all add: send_payload_def s1 n build_outbound_def, simp_all add: settles_def)
qed

lemma send_stream_settles:
  assumes "closed_now s" and "\<not> sequence_locked s"
  shows "settles (fst (send_stream_data E data s), snd (snd (send_stream_data E data s)))"
  using assms
proof (induction E data s rule: send_stream_data.induct)
  case (1 E data s)
  show ?case
  proof (cases "data = [] \<or> chunk_size s = 0")
    case True
    with 1 show ?thesis by (simp add: send_stream_data.simps [of E data s] settles_def)
  next
    case False
    obtain x s1 where x: "send_payload E Output (take (chunk_size s) data) s = (x, s1)"
      by (cases "send_payload E Output (take (chunk_size s) data) s")
    have st: "settles (x, s1)" using send_payload_settles [OF 1(2,3)] x by metis
    show ?thesis
    proof (cases "x = Done (Ok ())")
      case True
      then show ?thesis
        using False x st 1(1) [OF False x [symmetric] True refl] by (simp add: send_stream_data.simps [of E data s] settles_def)
    next
      case other: False
      then have "send_stream_data E data s = (x, drop (chunk_size s) data, s1)"
        using False x
        by (simp add: send_stream_data.simps [of E data s] split: io.splits result.splits)
      then show ?thesis using st by simp
    qed
  qed
qed

text \<open>Every task of a closed session ends: at once, or, for a send under way, after that send.\<close>

lemma closed_tasks_end:
  assumes "closed_now r"
  shows "reader_parked r = None \<Longrightarrow> \<not> fst (reader_step E ev r)" and "\<not> fst (writer_step r)" and "\<not> fst (heartbeat_step i r)"
    and "\<not> fst (retransmit_step r)" and "sending r = None \<Longrightarrow> \<not> fst (command_step E r)"
  using assms
  by (simp_all add: reader_step_def writer_step_def heartbeat_step_def retransmit_step_def command_step_def)

lemma after_send_settles:
  "settles (x, s) \<Longrightarrow> after_send x rest s = (True, s') \<Longrightarrow> sending s' = None \<and> closed_now s'"
  by (auto simp: settles_def after_send_def Let_def split: io.splits result.splits)

lemma closed_command_two_steps:
  assumes "closed_now r" and "command_step E r = (True, r')"
  shows "closed_now r'" and "sending r' = None"
proof -
  obtain f rest where snd': "sending r = Some (f, rest)"
    using assms by (cases "sending r") (auto simp: command_step_def)
  obtain x s1 where x: "track_and_write f r = (x, s1)" by (cases "track_and_write f r")
  have s1: "closed_now s1" "\<nexists>w. x = Waits w"
    using assms(1) x
    by (auto simp: track_and_write_def Let_def split_beta split: bool.splits if_splits dest: write_frame_closed
        intro: write_frame_closed)
  let ?u = "s1\<lparr>sending := None, sequence_locked := False\<rparr>"
  have st: "settles (fst (send_stream_data E rest ?u), snd (snd (send_stream_data E rest ?u)))"
    by (rule send_stream_settles) (simp_all add: s1)
  have "sending r' = None \<and> closed_now r'"
  proof (cases "x = Done (Ok ())")
    case True
    then have "command_step E r = after_send (fst (send_stream_data E rest ?u))
        (fst (snd (send_stream_data E rest ?u))) (snd (snd (send_stream_data E rest ?u)))"
      using snd' x by (simp add: command_step_def split_beta)
    then show ?thesis using assms(2) after_send_settles [OF st] by simp
  next
    case False
    then have "command_step E r = after_send x rest s1"
      using snd' x by (auto simp: command_step_def split: io.splits result.splits)
    then show ?thesis
      using assms(2) s1 by (auto simp: after_send_def Let_def split: io.splits result.splits)
  qed
  then show "closed_now r'" and "sending r' = None" by simp_all
qed

text \<open>A reader in the middle of a reply finishes it, as on a closed session no send waits for room.\<close>

definition winding_down :: "reader_state \<Rightarrow> bool" where
  "winding_down r \<longleftrightarrow> closed_now r \<and> \<not> sequence_locked r \<and> reader_parked r = None"

interpretation ending: reader_invariant winding_down E
proof unfold_locales
  fix s s' :: reader_state and op pt pl x a
  assume w: "winding_down s"
  then show "winding_down (s\<lparr>core := core_step op (core s)\<rparr>)"
    using closed_core_stable [of "core s" op] by (simp add: winding_down_def)
  assume x: "send_payload E pt pl s = (x, s')"
  have "settles (x, s')" using send_payload_settles [of s E pt pl] w x by (simp add: winding_down_def)
  then show "winding_down (case x of Waits held \<Rightarrow> park_reader held pt pl a s' | Done _ \<Rightarrow> s')"
    using send_parked(2) [of E pt pl s] w x by (auto simp: settles_def winding_down_def split: io.splits)
qed (simp_all add: winding_down_def)

lemma closed_reader_finishes:
  assumes "closed_now r" and "reader_parked r = Some (held, w)" and "held \<noteq> None \<or> \<not> sequence_locked r"
  shows "winding_down (snd (reader_resume E r))"
proof -
  obtain pt pl a where w: "w = (pt, pl, a)" by (cases w)
  let ?r = "r\<lparr>reader_parked := None\<rparr>"
  have "winding_down (snd (retry_reply E held pt pl a ?r))"
  proof (cases held)
    case None
    then show ?thesis
      using ending.keeps_reply [of ?r E pt pl a] assms by (simp add: retry_reply_def winding_down_def)
  next
    case (Some f)
    obtain x r1 where x: "track_and_write f ?r = (x, r1)" by (cases "track_and_write f ?r")
    have "closed_now r1 \<and> (\<nexists>w. x = Waits w)"
      using assms(1) x
      by (auto simp: track_and_write_def Let_def split_beta intro!: write_frame_closed split: bool.splits)
    moreover have "reader_parked r1 = None" using send_parked(1) [of f ?r] x by simp
    ultimately have "winding_down (snd (bind_io (x, r1\<lparr>sequence_locked := False\<rparr>) (\<lambda>_. go_on_after a)))"
      by (intro bind_io_keeps [where P = winding_down] ending.keeps_go_on) (simp_all add: winding_down_def)
    then show ?thesis using Some x \<open>closed_now r1 \<and> _\<close> by (auto simp: retry_reply_def split: io.split)
  qed
  then have "winding_down (snd (bind_io (retry_reply E held pt pl a ?r) (\<lambda>_ r1.
      let (next, r2) = advance_expected r1 in drain E next r2)))"
    by (intro bind_io_keeps [where P = winding_down] ending.keeps_advance_drain)
  then show ?thesis using assms(2) w by (simp add: reader_resume_def ending.keeps_after_route)
qed

section \<open>Properties\<close>

definition toy_aws_ext :: aws_ext where
  "toy_aws_ext = \<lparr>
     start_api = (\<lambda>calls rq. Inr \<lparr>resp_session_id = Some ''s-1'',
        resp_stream_url = Some ''wss://ssmmessages.x.amazonaws.com'', resp_token_value = Some ''t''\<rparr>),
     resume_api = (\<lambda>calls sid. Inr \<lparr>resp_session_id = Some sid,
        resp_stream_url = Some ''wss://ssmmessages.x.amazonaws.com'',
        resp_token_value = (if sid = ''gone'' then None else Some ''t2'')\<rparr>),
     terminate_api = (\<lambda>calls sid. Inr ()),
     net_env = (\<lambda>calls. toy_endpoint_ext), conn_env = (\<lambda>calls. toy_conn_ext),
     time_env = (\<lambda>calls. 0)\<rparr>"

definition toy_manager :: session_manager where
  "toy_manager = from_conf False None"

definition toy_config :: session_config where
  "toy_config = config_new ''i-1''"

text \<open>The four ways in which starting a session can go.\<close>

lemma start_session_outcome:
  assumes "start_session A m cfg calls = (r, calls')"
  shows "(\<exists>s resp. r = Ok s \<and> validate_config cfg = Ok ()
        \<and> start_api A calls (build_start_request cfg) = Inr resp \<and> resp_session_id resp = Some (sess_id s)
        \<and> calls' = calls @ [StartSession (build_start_request cfg)]
        \<and> \<not> sess_closed s \<and> sess_ssm s \<and> sess_config s = cfg \<and> stream (chan s) = continuity_fresh
        \<and> chan_inv (chan s))
    \<or> (\<exists>e. r = Err e \<and> validate_config cfg = Err e \<and> calls' = calls)
    \<or> (\<exists>e. r = Err e \<and> calls' = calls @ [StartSession (build_start_request cfg)]
        \<and> ((\<exists>f. start_api A calls (build_start_request cfg) = Inl f \<and> e = from_sdk_error f)
           \<or> (\<exists>resp. start_api A calls (build_start_request cfg) = Inr resp \<and> response_fields resp = Err e)))
    \<or> (\<exists>e resp sid. r = Err e \<and> start_api A calls (build_start_request cfg) = Inr resp
        \<and> resp_session_id resp = Some sid
        \<and> calls' = calls @ [StartSession (build_start_request cfg), TerminateSession sid])"
proof (cases "validate_config cfg")
  case (Ok u)
  let ?rq = "build_start_request cfg"
  let ?calls1 = "calls @ [StartSession ?rq]"
  show ?thesis
  proof (cases "start_api A calls ?rq")
    case (Inl e)
    with assms Ok show ?thesis by (auto simp: start_session_def Let_def)
  next
    case (Inr resp)
    show ?thesis
    proof (cases "response_fields resp")
      case fields: (Ok x)
      obtain sid url tok where x: "x = (sid, url, tok)" by (cases x)
      then have sid: "resp_session_id resp = Some sid"
        using fields by (auto simp: response_fields_def ok_or_def split: option.splits)
      let ?op = "\<lparr>op_session_id = sid, op_config = cfg, op_stream_url = url, op_token = tok,
                      op_ssm = True, op_signer = mgr_signer m, op_continuity = continuity_fresh,
                      op_kms = mgr_kms m\<rparr>"
      show ?thesis
      proof (cases "session_open (conn_env A ?calls1) (net_env A ?calls1) (time_env A ?calls1) ?op")
        case opened: (Ok s)
        have "stream_inv (op_continuity ?op)" by (simp add: stream_inv_fresh)
        note facts = session_open_Ok [OF opened this]
        have "r = Ok s" "calls' = ?calls1"
          using assms Ok Inr fields x opened by (simp_all add: start_session_def Let_def)
        then show ?thesis using facts Ok Inr sid by auto
      next
        case (Err e)
        with assms Ok Inr fields x have "r = Err e" "calls' = ?calls1 @ [TerminateSession sid]"
          by (simp_all add: start_session_def Let_def terminate_session_def)
        then show ?thesis using Inr sid by auto
      qed (use session_open_not_Panic in blast)
    next
      case (Err e)
      with assms Ok Inr show ?thesis by (auto simp: start_session_def Let_def)
    next
      case Panic
      then show ?thesis by (auto simp: response_fields_def ok_or_def bind_result_eq_Panic split: option.splits)
    qed
  qed
next
  case (Err e)
  with assms show ?thesis by (auto simp: start_session_def)
qed simp

text \<open>
  (C11) Starting a session leaves nothing behind. If it succeeds, the configuration was valid, the
  service was called once, with the target, document and reason of the configuration, and the
  session is open under the identifier that the service returned, with a fresh stream. If it fails
  after the service has created a session and returned everything needed to use it, the last call
  releases that very session; if it fails earlier, nothing was created, or the response lacked a
  field. An invalid configuration is refused before any call.
\<close>

theorem start_session_leaves_no_orphan:
  assumes "start_session A m cfg calls = (r, calls')"
  shows "(\<exists>s resp. r = Ok s \<and> validate_config cfg = Ok ()
        \<and> start_api A calls (build_start_request cfg) = Inr resp \<and> resp_session_id resp = Some (sess_id s)
        \<and> calls' = calls @ [StartSession (build_start_request cfg)]
        \<and> \<not> sess_closed s \<and> sess_ssm s \<and> sess_config s = cfg \<and> stream (chan s) = continuity_fresh
        \<and> chan_inv (chan s))
    \<or> (\<exists>e. r = Err e \<and> validate_config cfg = Err e \<and> calls' = calls)
    \<or> (\<exists>e. r = Err e \<and> calls' = calls @ [StartSession (build_start_request cfg)]
        \<and> ((\<exists>f. start_api A calls (build_start_request cfg) = Inl f \<and> e = from_sdk_error f)
           \<or> (\<exists>resp. start_api A calls (build_start_request cfg) = Inr resp \<and> response_fields resp = Err e)))
    \<or> (\<exists>e resp sid. r = Err e \<and> start_api A calls (build_start_request cfg) = Inr resp
        \<and> resp_session_id resp = Some sid
        \<and> calls' = calls @ [StartSession (build_start_request cfg), TerminateSession sid])"
  using assms by (rule start_session_outcome)

lemma toy_config_valid: "validate_config toy_config = Ok ()"
proof -
  have "trim ''i-1'' \<noteq> []" by code_simp
  moreover have "char_count ''i-1'' \<le> MAX_TARGET_CHARS" by code_simp
  ultimately show ?thesis
    by (simp add: validate_config_def validate_reason_def toy_config_def config_new_def config_default_def
        DEFAULT_PAYLOAD_CHUNK_SIZE_def MAX_PAYLOAD_SIZE_def)
qed

lemma toy_session_opens:
  "\<exists>s. session_open toy_conn_ext toy_endpoint_ext now \<lparr>op_session_id = sid, op_config = toy_config,
     op_stream_url = ''wss://ssmmessages.x.amazonaws.com'', op_token = tok, op_ssm = ssm, op_signer = None,
     op_continuity = k, op_kms = b\<rparr> = Ok s"
proof -
  have v: "validate_endpoint toy_endpoint_ext AwsOnly ''wss://ssmmessages.x.amazonaws.com'' = Ok ()"
    by (simp add: validate_endpoint_def toy_endpoint_ext_def suffix_def)
  have d: "fst (dial toy_endpoint_ext ''wss://ssmmessages.x.amazonaws.com'' None) = Ok ()"
    by (simp add: dial_def CONNECT_ATTEMPTS_def numeral_3_eq_3 prepare_upgrade_def upgrade_request_def
        toy_endpoint_ext_def Let_def)
  show ?thesis
    using v d by (simp add: session_open_def connect_def Let_def
        toy_config_def config_new_def config_default_def)
qed

text \<open>
  Validation compares the heartbeat's interval with the idle timeout only. A configuration with an
  interval of zero passes, the session opens, and the task that should find a dead peer panics
  before its first tick.
\<close>

theorem zero_heartbeat_passes_validation:
  "validate_config (toy_config\<lparr>cfg_heartbeat_interval := 0\<rparr>) = Ok ()
   \<and> heartbeat_start now (cfg_heartbeat_interval (toy_config\<lparr>cfg_heartbeat_interval := 0\<rparr>)) = Panic"
  using toy_config_valid by (auto simp: validate_config_def heartbeat_start_def split: if_splits)

theorem start_session_leaves_no_orphan_witness:
  "\<exists>s. start_session toy_aws_ext toy_manager toy_config []
      = (Ok s, [StartSession (build_start_request toy_config)])
     \<and> sess_id s = ''s-1'' \<and> stream (chan s) = continuity_fresh"
proof -
  obtain s where "session_open toy_conn_ext toy_endpoint_ext 0 \<lparr>op_session_id = ''s-1'', op_config = toy_config,
     op_stream_url = ''wss://ssmmessages.x.amazonaws.com'', op_token = ''t'', op_ssm = True, op_signer = None,
     op_continuity = continuity_fresh, op_kms = True\<rparr> = Ok s"
    using toy_session_opens by blast
  then have s: "start_session toy_aws_ext toy_manager toy_config []
      = (Ok s, [StartSession (build_start_request toy_config)])"
    by (simp add: start_session_def toy_config_valid toy_aws_ext_def response_fields_def ok_or_def
        toy_manager_def from_conf_def)
  from start_session_leaves_no_orphan [OF s] show ?thesis
    using s by (auto simp: toy_aws_ext_def)
qed

text \<open>
  (C13) A resumed session carries on. It has the identifier that was asked for, the counters, the
  backlog, the reorder buffer and the key that it was handed, it authenticates with the new token
  before anything else is sent, and every state its tasks can reach satisfies the channel
  invariant, so that numbers continue without a gap or a repetition. The answer is none exactly if
  the service returns no address or no token, and a resume creates nothing that needs releasing.
\<close>

theorem resumed_session_continues:
  assumes "resume_session A m sid cfg k calls = (r, calls')" and "validate_config cfg = Ok ()"
    and "stream_inv k" and "resume_api A calls sid = Inr resp"
  shows "calls' = calls @ [ResumeSession sid]
    \<and> (r = Ok None \<longleftrightarrow> resp_stream_url resp = None \<or> resp_token_value resp \<in> {None, Some []})
    \<and> (\<forall>s. r = Ok (Some s) \<longrightarrow> sess_id s = sid \<and> stream (chan s) = k \<and> \<not> sess_closed s
        \<and> (\<exists>open_msg json. open_to_string (conn_env A calls') open_msg = Inr json
             \<and> Some (token_value open_msg) = resp_token_value resp \<and> frames (chan s) = [Text json])
        \<and> (\<forall>idle r'. channel_reach (conn_env A calls') idle (chan s) r' \<longrightarrow> chan_inv r'))"
proof (intro conjI allI impI)
  show calls': "calls' = calls @ [ResumeSession sid]"
    using assms by (auto simp: resume_session_def Let_def split: option.splits if_splits)
  show "r = Ok None \<longleftrightarrow> resp_stream_url resp = None \<or> resp_token_value resp \<in> {None, Some []}"
    using assms by (auto simp: resume_session_def Let_def split: option.splits if_splits)
  fix s
  assume "r = Ok (Some s)"
  then obtain url tok where tok: "resp_token_value resp = Some tok"
    and o: "session_open (conn_env A calls') (net_env A calls') (time_env A calls')
      \<lparr>op_session_id = sid, op_config = cfg, op_stream_url = url, op_token = tok,
       op_ssm = True, op_signer = mgr_signer m, op_continuity = k, op_kms = mgr_kms m\<rparr> = Ok s"
    using assms calls' by (auto simp: resume_session_def Let_def split: option.splits if_splits)
  note facts = session_open_Ok [OF o, simplified, OF assms(3)]
  show "sess_id s = sid" "stream (chan s) = k" "\<not> sess_closed s" using facts by auto
  show "\<exists>open_msg json. open_to_string (conn_env A calls') open_msg = Inr json
      \<and> Some (token_value open_msg) = resp_token_value resp \<and> frames (chan s) = [Text json]"
    using facts(7) tok by auto
  fix idle r'
  assume "channel_reach (conn_env A calls') idle (chan s) r'"
  then show "chan_inv r'" using facts(8) by (rule chan_inv_reach)
qed

theorem resumed_session_continues_witness:
  "\<exists>s. resume_session toy_aws_ext toy_manager ''s-1'' toy_config continuity_fresh []
      = (Ok (Some s), [ResumeSession ''s-1'']) \<and> sess_id s = ''s-1'' \<and> stream (chan s) = continuity_fresh"
proof -
  obtain s where "session_open toy_conn_ext toy_endpoint_ext 0 \<lparr>op_session_id = ''s-1'', op_config = toy_config,
     op_stream_url = ''wss://ssmmessages.x.amazonaws.com'', op_token = ''t2'', op_ssm = True, op_signer = None,
     op_continuity = continuity_fresh, op_kms = True\<rparr> = Ok s"
    using toy_session_opens by blast
  then have s: "resume_session toy_aws_ext toy_manager ''s-1'' toy_config continuity_fresh []
      = (Ok (Some s), [ResumeSession ''s-1''])"
    by (simp add: resume_session_def toy_config_valid toy_aws_ext_def toy_manager_def from_conf_def)
  have "resume_api toy_aws_ext [] ''s-1'' = Inr \<lparr>resp_session_id = Some ''s-1'',
      resp_stream_url = Some ''wss://ssmmessages.x.amazonaws.com'', resp_token_value = Some ''t2''\<rparr>"
    by (simp add: toy_aws_ext_def)
  from resumed_session_continues [OF s toy_config_valid stream_inv_fresh this] show ?thesis
    using s by auto
qed

text \<open>
  (C29) Terminating a session. It never fails; afterwards the session is closed, with the reason it
  was closed for before, if it was, no task handle is held, and every task ends with its next step, the command
  task at the latest after the send it is in the middle of, and a reader that is in the middle of a reply finishes
  it as soon as it has the lock on the counter, without waiting for room.
  Terminating it again changes nothing and makes no call. The service is told to release the
  session exactly if the session was still open and has a client: a session that had already been
  lost is not released.
\<close>

theorem terminate_ends_session:
  assumes "terminate calls s = (r, calls', s')"
  shows "r = Ok () \<and> sess_closed s' \<and> sess_tasks s' = 0 \<and> sess_id s' = sess_id s
    \<and> (close_reason (sess_core s') = (if sess_closed s then close_reason (sess_core s) else Some Terminated))
    \<and> calls' = (if sess_closed s \<or> \<not> sess_ssm s then calls else calls @ [TerminateSession (sess_id s)])
    \<and> terminate calls' s' = (Ok (), calls', s')
    \<and> (reader_parked (chan s') = None \<longrightarrow> \<not> fst (reader_step E ev (chan s')))
    \<and> (\<forall>held w. reader_parked (chan s') = Some (held, w) \<and> (held \<noteq> None \<or> \<not> sequence_locked (chan s'))
         \<longrightarrow> reader_parked (snd (reader_resume E (chan s'))) = None \<and> closed_now (snd (reader_resume E (chan s'))))
    \<and> \<not> fst (writer_step (chan s')) \<and> \<not> fst (heartbeat_step i (chan s')) \<and> \<not> fst (retransmit_step (chan s'))
    \<and> (fst (command_step E (chan s')) \<longrightarrow> \<not> fst (command_step E (snd (command_step E (chan s')))))"
proof -
  have s': "s' = s\<lparr>chan := close_core Terminated (chan s), sess_tasks := 0\<rparr>"
    using assms by (auto simp: terminate_def Let_def join_tasks_def sess_close_def)
  have closed: "closed_now (chan s')" by (simp add: s')
  have "fst (command_step E (chan s')) \<Longrightarrow> \<not> fst (command_step E (snd (command_step E (chan s'))))"
    using closed_command_two_steps [OF closed, of E] closed_tasks_end(5)
    by (cases "command_step E (chan s')") auto
  moreover have "reader_parked (chan s') = None \<Longrightarrow> \<not> fst (reader_step E ev (chan s'))" "\<not> fst (writer_step (chan s'))"
    "\<not> fst (heartbeat_step i (chan s'))" "\<not> fst (retransmit_step (chan s'))"
    by (rule closed_tasks_end [OF closed]; assumption?)+
  moreover have "reader_parked (snd (reader_resume E (chan s'))) = None \<and> closed_now (snd (reader_resume E (chan s')))"
    if "reader_parked (chan s') = Some (held, w)" "held \<noteq> None \<or> \<not> sequence_locked (chan s')" for held w
    using closed_reader_finishes [OF closed that, of E] by (simp add: winding_down_def)
  moreover have "r = Ok () \<and> sess_closed s' \<and> sess_tasks s' = 0 \<and> sess_id s' = sess_id s
    \<and> (close_reason (sess_core s') = (if sess_closed s then close_reason (sess_core s) else Some Terminated))
    \<and> calls' = (if sess_closed s \<or> \<not> sess_ssm s then calls else calls @ [TerminateSession (sess_id s)])
    \<and> terminate calls' s' = (Ok (), calls', s')"
    using assms
    by (auto simp: terminate_def Let_def s' join_tasks_def sess_close_def close_core_def core_close_def)
  ultimately show ?thesis by blast
qed

theorem terminate_ends_session_witness:
  "\<exists>s s'. terminate [] s = (Ok (), [TerminateSession ''s-1''], s')
     \<and> terminate [TerminateSession ''s-1''] s' = (Ok (), [TerminateSession ''s-1''], s')"
proof -
  let ?s = "\<lparr>chan = toy_reader, sess_config = toy_config, sess_ssm = True, sess_tasks = 5\<rparr>"
  obtain r calls' s' where t: "terminate [] ?s = (r, calls', s')" by (cases "terminate [] ?s")
  have "\<not> sess_closed ?s" "sess_id ?s = ''s-1''"
    by (simp_all add: toy_reader_def toy_channel_def channel_new_def core_new_def channel_state.defs)
  with terminate_ends_session [OF t, where E = toy_conn_ext and ev = StreamEnded and i = 0] t
  show ?thesis by (metis append_Nil session.select_convs(1,3))
qed

end
