(* ===== verification/Mux_Frame.thy ===== *)
theory Mux_Frame
  imports Prelude
begin

text \<open>
  The framing of \<^verbatim>\<open>src/mux.rs\<close>: eight bytes of header (version, command, payload length and stream
  identifier, both little-endian) and the payload. \<open>decode_frame\<close> works on the reassembly buffer and
  returns what is left of it; its reads are cursor reads that would panic on a short buffer.
\<close>

section \<open>Frames\<close>

definition VERSION :: byte where "VERSION = 1"
definition CMD_SYN :: byte where "CMD_SYN = 0"
definition CMD_FIN :: byte where "CMD_FIN = 1"
definition CMD_PSH :: byte where "CMD_PSH = 2"
definition CMD_NOP :: byte where "CMD_NOP = 3"
definition MUX_HEADER_SIZE :: nat where "MUX_HEADER_SIZE = 8"
definition MAX_FRAME_PAYLOAD :: nat where "MAX_FRAME_PAYLOAD = 32 * 1024"

lemmas cmd_defs = CMD_SYN_def CMD_FIN_def CMD_PSH_def CMD_NOP_def

text \<open>The length is cast to sixteen bits; the assertion of debug builds, that the payload is not
  longer than a frame may be, holds at every call (\<open>poll_write\<close> cuts the payload).\<close>

definition encode :: "byte \<Rightarrow> u32 \<Rightarrow> bytes \<Rightarrow> bytes" where
  "encode cmd sid pl =
    [VERSION, cmd] @ le_encode 2 (of_nat (length pl) :: u16) @ le_encode 4 sid @ pl"

definition control :: "byte \<Rightarrow> u32 \<Rightarrow> bytes" where
  "control cmd sid = encode cmd sid []"

record mux_frame =
  frame_cmd :: byte
  frame_stream :: u32
  frame_payload :: bytes

datatype decoded = Complete mux_frame | Incomplete | Corrupt string

definition decode_frame :: "bytes \<Rightarrow> (decoded \<times> bytes, string) result" where
  "decode_frame buf =
    (if length buf < MUX_HEADER_SIZE then Ok (Incomplete, buf)
     else if buf ! 0 \<noteq> VERSION then Ok (Corrupt ''unexpected smux version byte'', buf)
     else
       let len = unat (le_decode [buf ! 2, buf ! 3] :: u16) in
       if MAX_FRAME_PAYLOAD < len then Ok (Corrupt ''smux frame length exceeds the protocol maximum'', buf)
       else if length buf < MUX_HEADER_SIZE + len then Ok (Incomplete, buf)
       else
         bind_result (take_bytes 1 buf) (\<lambda>(_, b1).
         bind_result (get_le 1 b1) (\<lambda>(cmd, b2).
         bind_result (take_bytes 2 b2) (\<lambda>(_, b3).
         bind_result (get_le 4 b3) (\<lambda>(sid, b4).
         bind_result (take_bytes len b4) (\<lambda>(pl, b5).
         Ok (Complete \<lparr>frame_cmd = cmd, frame_stream = sid, frame_payload = pl\<rparr>, b5)))))))"

definition encode_frame :: "mux_frame \<Rightarrow> bytes" where
  "encode_frame f = encode (frame_cmd f) (frame_stream f) (frame_payload f)"

definition frame_ok :: "mux_frame \<Rightarrow> bool" where
  "frame_ok f \<longleftrightarrow> length (frame_payload f) \<le> MAX_FRAME_PAYLOAD"

section \<open>Decoding\<close>

lemma length_encode: "length (encode cmd sid pl) = MUX_HEADER_SIZE + length pl"
  by (simp add: encode_def MUX_HEADER_SIZE_def)

text \<open>The closed form of a read from a buffer of sufficient length.\<close>

lemma decode_frame_complete:
  assumes "MUX_HEADER_SIZE \<le> length buf" and "buf ! 0 = VERSION"
    and "len = unat (le_decode [buf ! 2, buf ! 3] :: u16)"
    and "len \<le> MAX_FRAME_PAYLOAD" and "MUX_HEADER_SIZE + len \<le> length buf"
  shows "decode_frame buf =
    Ok (Complete \<lparr>frame_cmd = buf ! 1, frame_stream = le_decode (take 4 (drop 4 buf)),
        frame_payload = take len (drop 8 buf)\<rparr>, drop (8 + len) buf)"
proof -
  have long: "8 + len \<le> length buf" using assms(5) by (simp add: MUX_HEADER_SIZE_def)
  have "take 1 (drop 1 buf) = [buf ! 1]"
    using long by (simp add: take_Suc hd_drop_conv_nth)
  then have cmd: "get_le 1 (drop 1 buf) = (Ok (buf ! 1, drop 2 buf) :: (byte \<times> bytes, string) result)"
    using long by (simp add: get_le_def drop_drop numeral_2_eq_2)
  have reads: "take_bytes 1 buf = Ok (take 1 buf, drop 1 buf)"
    "take_bytes 2 (drop 2 buf) = Ok (take 2 (drop 2 buf), drop 4 buf)"
    "get_le 4 (drop 4 buf) = Ok (le_decode (take 4 (drop 4 buf)) :: u32, drop 8 buf)"
    "take_bytes len (drop 8 buf) = Ok (take len (drop 8 buf), drop (8 + len) buf)"
    using long by (simp_all add: cursor_long_enough drop_drop add.commute)
  have "unat (le_decode [buf ! 2, buf ! 3] :: u16) = len" by (simp only: assms(3))
  then show ?thesis
    using assms(1,2,4,5) by (simp only: decode_frame_def Let_def cmd reads bind_result_simps
        prod.case not_less [symmetric] if_False simp_thms not_not)
qed

text \<open>A frame of legal size is read back exactly, whatever follows it in the buffer.\<close>

lemma decode_encode:
  assumes "length pl \<le> MAX_FRAME_PAYLOAD"
  shows "decode_frame (encode cmd sid pl @ rest) =
    Ok (Complete \<lparr>frame_cmd = cmd, frame_stream = sid, frame_payload = pl\<rparr>, rest)"
proof -
  let ?l = "le_encode 2 (of_nat (length pl) :: u16)"
  have l: "unat (of_nat (length pl) :: u16) = length pl"
    using assms by (simp add: MAX_FRAME_PAYLOAD_def unat_of_nat)
  have e: "encode cmd sid pl @ rest = VERSION # cmd # ?l @ le_encode 4 sid @ pl @ rest"
    by (simp add: encode_def)
  have l2: "[?l ! 0, ?l ! 1] = ?l" by (simp add: list_eq_iff_nth_eq less_Suc_eq numeral_2_eq_2)
  have "le_decode [(encode cmd sid pl @ rest) ! 2, (encode cmd sid pl @ rest) ! 3] = (of_nat (length pl) :: u16)"
  proof -
    have "[(encode cmd sid pl @ rest) ! 2, (encode cmd sid pl @ rest) ! 3] = ?l"
      using l2 by (simp add: e nth_append numeral_2_eq_2 numeral_3_eq_3 del: le_encode.simps)
    then show ?thesis using le_decode_encode_full [where n = 2 and w = "of_nat (length pl) :: u16"] by simp
  qed
  then have "decode_frame (encode cmd sid pl @ rest) =
    Ok (Complete \<lparr>frame_cmd = (encode cmd sid pl @ rest) ! 1,
      frame_stream = le_decode (take 4 (drop 4 (encode cmd sid pl @ rest))),
      frame_payload = take (length pl) (drop 8 (encode cmd sid pl @ rest))\<rparr>,
      drop (8 + length pl) (encode cmd sid pl @ rest))"
    using assms l
    by (intro decode_frame_complete) (simp_all add: length_encode e MUX_HEADER_SIZE_def)
  moreover have "drop 4 (encode cmd sid pl @ rest) = le_encode 4 sid @ pl @ rest"
    "drop 8 (encode cmd sid pl @ rest) = pl @ rest"
    "drop (8 + length pl) (encode cmd sid pl @ rest) = rest"
    by (simp_all add: e numeral_eq_Suc)
  ultimately show ?thesis by (simp add: e)
qed

lemma decode_frame_never_panics: "decode_frame buf \<noteq> Panic"
proof (cases "MUX_HEADER_SIZE \<le> length buf \<and> buf ! 0 = VERSION
    \<and> unat (le_decode [buf ! 2, buf ! 3] :: u16) \<le> MAX_FRAME_PAYLOAD
    \<and> MUX_HEADER_SIZE + unat (le_decode [buf ! 2, buf ! 3] :: u16) \<le> length buf")
  case True
  then show ?thesis using decode_frame_complete [OF _ _ refl, of buf] by simp
next
  case False
  then show ?thesis by (auto simp: decode_frame_def Let_def)
qed

text \<open>The outcome of decoding depends on a fixed part of the buffer only, so bytes that arrive later
  neither change a frame that was complete nor repair a stream that was corrupt.\<close>

lemma decode_frame_cases:
  obtains (short) "length buf < MUX_HEADER_SIZE" "decode_frame buf = Ok (Incomplete, buf)"
  | (corrupt) p where "MUX_HEADER_SIZE \<le> length buf"
      "\<And>more. decode_frame (buf @ more) = Ok (Corrupt p, buf @ more)"
  | (partial) len where "MUX_HEADER_SIZE \<le> length buf" "length buf < MUX_HEADER_SIZE + len"
      "decode_frame buf = Ok (Incomplete, buf)"
  | (complete) f rest where "\<And>more. decode_frame (buf @ more) = Ok (Complete f, rest @ more)"
      "length rest + MUX_HEADER_SIZE \<le> length buf"
proof -
  let ?len = "\<lambda>b. unat (le_decode [b ! 2, b ! 3] :: u16)"
  have pre: "(buf @ more) ! i = buf ! i" if "MUX_HEADER_SIZE \<le> length buf" "i < 8" for i more
    using that by (simp add: nth_append MUX_HEADER_SIZE_def)
  consider "length buf < MUX_HEADER_SIZE"
    | "MUX_HEADER_SIZE \<le> length buf" "buf ! 0 \<noteq> VERSION"
    | "MUX_HEADER_SIZE \<le> length buf" "buf ! 0 = VERSION" "MAX_FRAME_PAYLOAD < ?len buf"
    | "MUX_HEADER_SIZE \<le> length buf" "buf ! 0 = VERSION" "?len buf \<le> MAX_FRAME_PAYLOAD"
      "length buf < MUX_HEADER_SIZE + ?len buf"
    | "MUX_HEADER_SIZE \<le> length buf" "buf ! 0 = VERSION" "?len buf \<le> MAX_FRAME_PAYLOAD"
      "MUX_HEADER_SIZE + ?len buf \<le> length buf"
    by linarith
  then show thesis
  proof cases
    case 1
    then show thesis by (intro short) (simp_all add: decode_frame_def)
  next
    case 2
    then show thesis
      by (intro corrupt [of "''unexpected smux version byte''"]) (simp_all add: decode_frame_def pre)
  next
    case 3
    then show thesis
      by (intro corrupt [of "''smux frame length exceeds the protocol maximum''"])
        (simp_all add: decode_frame_def pre Let_def del: le_decode.simps)
  next
    case 4
    then show thesis
      by (intro partial) (simp_all add: decode_frame_def Let_def del: le_decode.simps)
  next
    case 5
    define f where "f = \<lparr>frame_cmd = buf ! 1, frame_stream = le_decode (take 4 (drop 4 buf)),
        frame_payload = take (?len buf) (drop 8 buf)\<rparr>"
    have "decode_frame (buf @ more) = Ok (Complete f, drop (8 + ?len buf) buf @ more)" for more
    proof -
      have "decode_frame (buf @ more) =
        Ok (Complete \<lparr>frame_cmd = (buf @ more) ! 1, frame_stream = le_decode (take 4 (drop 4 (buf @ more))),
          frame_payload = take (?len buf) (drop 8 (buf @ more))\<rparr>, drop (8 + ?len buf) (buf @ more))"
        using 5 by (intro decode_frame_complete) (simp_all add: pre del: le_decode.simps)
      then show ?thesis using 5 pre [of 1 more] by (simp add: f_def MUX_HEADER_SIZE_def)
    qed
    then show thesis using 5 by (intro complete) (auto simp: MUX_HEADER_SIZE_def)
  qed
qed

end
