(* ===== verification/Mux.thy ===== *)
theory Mux
  imports Session Mux_Frame
begin

text \<open>
  \<^verbatim>\<open>src/mux.rs\<close>: many logical streams over one session. The channel and the close tag of a stream are
  shared between the multiplexer's table, which holds the sending end, and the caller's
  \<^verbatim>\<open>SmuxStream\<close>, which holds the receiving end; the streams therefore live in a store and are known
  by their index, and the table maps identifiers to indices. A call on the shared state is one
  step, as the table's lock makes it. A sender that has waited for queue capacity is not given
  precedence over later ones.
\<close>

section \<open>State\<close>

definition FRAME_QUEUE_DEPTH :: nat where "FRAME_QUEUE_DEPTH = 256"
definition STREAM_QUEUE_DEPTH :: nat where "STREAM_QUEUE_DEPTH = 256"
definition KEEPALIVE_INTERVAL :: duration where "KEEPALIVE_INTERVAL = secs 10"
definition REASON_OPEN :: byte where "REASON_OPEN = 255"

datatype stream_close_reason = Clean | SlowConsumer | Desynchronised

fun reason_tag :: "stream_close_reason \<Rightarrow> byte" where
  "reason_tag Clean = 0"
| "reason_tag SlowConsumer = 1"
| "reason_tag Desynchronised = 2"

fun close_reason_to_string :: "stream_close_reason \<Rightarrow> string" where
  "close_reason_to_string Clean = ''closed cleanly''"
| "close_reason_to_string SlowConsumer = ''evicted: the consumer stopped reading''"
| "close_reason_to_string Desynchronised = ''aborted: smux framing was lost''"

record smux_stream =
  stream_id :: u32
  data_rx :: "bytes channel"
  partial :: "bytes option"
  read_closed :: bool
  write_closed :: bool
  close_tag :: byte

record mux_inner =
  streams :: "(u32 \<times> nat) list"
  objects :: "smux_stream list"
  frame_queue :: "bytes channel"
  next_id :: u32
  mux_closed :: bool

definition mux_new :: mux_inner where
  "mux_new = \<lparr>streams = [], objects = [], frame_queue = new_channel FRAME_QUEUE_DEPTH, next_id = 1,
     mux_closed = False\<rparr>"

definition update_object :: "nat \<Rightarrow> (smux_stream \<Rightarrow> smux_stream) \<Rightarrow> mux_inner \<Rightarrow> mux_inner" where
  "update_object i f s = s\<lparr>objects := (objects s)[i := f (objects s ! i)]\<rparr>"

text \<open>\<^verbatim>\<open>compare_exchange(REASON_OPEN, reason)\<close>, and the loss of the sending end.\<close>

definition set_reason :: "stream_close_reason \<Rightarrow> smux_stream \<Rightarrow> smux_stream" where
  "set_reason reason ob = (if close_tag ob = REASON_OPEN then ob\<lparr>close_tag := reason_tag reason\<rparr> else ob)"

definition drop_inbound :: "smux_stream \<Rightarrow> smux_stream" where
  "drop_inbound ob = ob\<lparr>data_rx := drop_tx (data_rx ob)\<rparr>"

section \<open>The table\<close>

definition inner_close :: "stream_close_reason \<Rightarrow> mux_inner \<Rightarrow> mux_inner" where
  "inner_close reason s =
    (if mux_closed s then s
     else s\<lparr>mux_closed := True, streams := [],
       objects := fold (\<lambda>(_, i) os. os[i := drop_inbound (set_reason reason (os ! i))]) (streams s) (objects s)\<rparr>)"

definition remove_stream :: "u32 \<Rightarrow> mux_inner \<Rightarrow> mux_inner" where
  "remove_stream sid s =
    (case map_of (streams s) sid of
       None \<Rightarrow> s
     | Some i \<Rightarrow> update_object i drop_inbound (s\<lparr>streams := AList.delete sid (streams s)\<rparr>))"

definition queue_frame :: "bytes \<Rightarrow> mux_inner \<Rightarrow> mux_inner" where
  "queue_frame f s = s\<lparr>frame_queue := snd (try_send f (frame_queue s))\<rparr>"

definition route_push :: "u32 \<Rightarrow> bytes \<Rightarrow> mux_inner \<Rightarrow> mux_inner" where
  "route_push sid pl s =
    (case map_of (streams s) sid of
       None \<Rightarrow> queue_frame (control CMD_FIN sid) s
     | Some i \<Rightarrow>
         (case try_send pl (data_rx (objects s ! i)) of
            (Sent, c) \<Rightarrow> update_object i (\<lambda>ob. ob\<lparr>data_rx := c\<rparr>) s
          | (QueueFull, _) \<Rightarrow>
              queue_frame (control CMD_FIN sid)
                (remove_stream sid (update_object i (\<lambda>ob. ob\<lparr>close_tag := reason_tag SlowConsumer\<rparr>) s))
          | (ReceiverGone, _) \<Rightarrow> remove_stream sid s))"

definition route_fin :: "u32 \<Rightarrow> mux_inner \<Rightarrow> mux_inner" where
  "route_fin sid s =
    (case map_of (streams s) sid of
       None \<Rightarrow> s
     | Some i \<Rightarrow> update_object i (set_reason Clean) (remove_stream sid s))"

section \<open>Receiving\<close>

definition handle_frame :: "mux_frame \<Rightarrow> mux_inner \<Rightarrow> mux_inner" where
  "handle_frame f s =
    (if frame_cmd f = CMD_PSH then route_push (frame_stream f) (frame_payload f) s
     else if frame_cmd f = CMD_FIN then route_fin (frame_stream f) s
     else s)"

lemma decode_frame_shrinks:
  assumes "decode_frame buf = Ok (Complete f, rest)"
  shows "length rest < length buf"
proof (cases buf rule: decode_frame_cases)
  case (corrupt p)
  with assms corrupt(2) [of "[]"] show ?thesis by simp
next
  case (complete g r)
  with assms complete(1) [of "[]"] show ?thesis by (simp add: MUX_HEADER_SIZE_def)
qed (use assms in simp_all)

function mux_dispatch :: "bytes \<Rightarrow> mux_inner \<Rightarrow> (unit, string) result \<times> bytes \<times> mux_inner" where
  "mux_dispatch buf s =
    (case decode_frame buf of
       Ok (Incomplete, b) \<Rightarrow> (Ok (), b, s)
     | Ok (Corrupt p, b) \<Rightarrow> (Err p, [], s)
     | Ok (Complete f, b) \<Rightarrow> mux_dispatch b (handle_frame f s)
     | Err e \<Rightarrow> (Err e, buf, s)
     | Panic \<Rightarrow> (Panic, buf, s))"
  by pat_completeness auto
termination
  by (relation "measure (\<lambda>(buf, s). length buf)") (auto dest: decode_frame_shrinks)

declare mux_dispatch.simps [simp del]

section \<open>Streams\<close>

datatype 'a poll = Ready 'a | Pending

definition open_stream :: "mux_inner \<Rightarrow> (nat, error) result \<times> mux_inner" where
  "open_stream s =
    (if mux_closed s then (Err (SessionClosed [Txt ''the smux session is closed'']), s)
     else
       let sid = next_id s;
           i = length (objects s);
           ob = \<lparr>stream_id = sid, data_rx = new_channel STREAM_QUEUE_DEPTH, partial = None,
             read_closed = False, write_closed = False, close_tag = REASON_OPEN\<rparr>;
           s1 = (remove_stream sid s)\<lparr>next_id := sid + 2\<rparr>;
           s2 = s1\<lparr>objects := objects s1 @ [ob], streams := (sid, i) # streams s1\<rparr>
       in case try_send (control CMD_SYN sid) (frame_queue s2) of
            (Sent, q) \<Rightarrow> (Ok i, s2\<lparr>frame_queue := q\<rparr>)
          | (ReceiverGone, _) \<Rightarrow>
              (Err (SessionClosed [Txt ''the smux session is closed'']), s1)
          | (QueueFull, _) \<Rightarrow>
              (Err (Transport [Txt ''the smux frame queue is saturated; retry once the session drains'']), s1))"

definition mux_drop :: "mux_inner \<Rightarrow> mux_inner" where
  "mux_drop s = inner_close Clean s"

definition stream_close_reason_of :: "nat \<Rightarrow> mux_inner \<Rightarrow> stream_close_reason option" where
  "stream_close_reason_of i s =
    (let ob = objects s ! i in
     if \<not> read_closed ob then None
     else Some (if close_tag ob = reason_tag SlowConsumer then SlowConsumer
       else if close_tag ob = reason_tag Desynchronised then Desynchronised
       else Clean))"

text \<open>\<^verbatim>\<open>poll_read\<close> into a buffer with \<open>n\<close> bytes free; the bytes put into it.\<close>

definition hand_out :: "nat \<Rightarrow> bytes \<Rightarrow> nat \<Rightarrow> mux_inner \<Rightarrow> bytes poll \<times> mux_inner" where
  "hand_out n chunk i s =
    (let k = min (length chunk) n; left = drop k chunk
     in (Ready (take k chunk),
         update_object i (\<lambda>ob. ob\<lparr>partial := (if left = [] then None else Some left)\<rparr>) s))"

definition poll_read :: "nat \<Rightarrow> nat \<Rightarrow> mux_inner \<Rightarrow> bytes poll \<times> mux_inner" where
  "poll_read i n s =
    (let ob = objects s ! i in
     if read_closed ob then (Ready [], s)
     else case partial ob of
       Some chunk \<Rightarrow> hand_out n chunk i s
     | None \<Rightarrow>
         (case recv (data_rx ob) of
            (Got chunk, c) \<Rightarrow> hand_out n chunk i (update_object i (\<lambda>ob. ob\<lparr>data_rx := c\<rparr>) s)
          | (Ended, _) \<Rightarrow> (Ready [], update_object i (\<lambda>ob. ob\<lparr>read_closed := True\<rparr>) s)
          | (Waiting, _) \<Rightarrow>
              if mux_closed s then (Ready [], update_object i (\<lambda>ob. ob\<lparr>read_closed := True\<rparr>) s)
              else (Pending, s)))"

definition broken_pipe :: "string \<Rightarrow> error" where
  "broken_pipe t = Io BrokenPipe [Txt t]"

definition poll_write :: "nat \<Rightarrow> bytes \<Rightarrow> mux_inner \<Rightarrow> (nat, error) result poll \<times> mux_inner" where
  "poll_write i buf s =
    (let ob = objects s ! i in
     if write_closed ob then (Ready (Err (broken_pipe ''smux stream is write-closed'')), s)
     else if mux_closed s then (Ready (Err (broken_pipe ''smux session is closed'')), s)
     else
       let n = min (length buf) MAX_FRAME_PAYLOAD in
       case try_send (encode CMD_PSH (stream_id ob) (take n buf)) (frame_queue s) of
         (QueueFull, _) \<Rightarrow> (Pending, s)
       | (ReceiverGone, _) \<Rightarrow> (Ready (Err (broken_pipe ''smux session is closed'')), s)
       | (Sent, q) \<Rightarrow> (Ready (Ok n), s\<lparr>frame_queue := q\<rparr>))"

definition poll_flush :: "nat \<Rightarrow> mux_inner \<Rightarrow> (unit, error) result poll \<times> mux_inner" where
  "poll_flush i s = (Ready (Ok ()), s)"

definition poll_shutdown :: "nat \<Rightarrow> mux_inner \<Rightarrow> unit poll \<times> mux_inner" where
  "poll_shutdown i s =
    (let ob = objects s ! i;
         closed = update_object i (\<lambda>ob. ob\<lparr>write_closed := True\<rparr>) s in
     if write_closed ob then (Ready (), s)
     else case try_send (control CMD_FIN (stream_id ob)) (frame_queue s) of
       (QueueFull, _) \<Rightarrow> (Pending, s)
     | (ReceiverGone, _) \<Rightarrow> (Ready (), closed)
     | (Sent, q) \<Rightarrow> (Ready (), closed\<lparr>frame_queue := q\<rparr>))"

definition smux_stream_drop :: "nat \<Rightarrow> mux_inner \<Rightarrow> mux_inner" where
  "smux_stream_drop i s =
    (let ob = objects s ! i;
         s1 = (if write_closed ob then s else queue_frame (control CMD_FIN (stream_id ob)) s)
     in update_object i (\<lambda>ob. ob\<lparr>data_rx := drop_rx (data_rx ob)\<rparr>) (remove_stream (stream_id ob) s1))"

section \<open>The tasks\<close>

text \<open>
  One round of each task's loop. \<open>woken\<close> says that the task has been woken by the multiplexer's
  \<^verbatim>\<open>die\<close> notification; a task that was not waiting when it was sent does not get it. The receive task
  reads stream \<open>k\<close> of the session's fan-out. The send task may hold a frame that the session has no
  room for yet.
\<close>

definition recv_step ::
    "bool \<Rightarrow> nat \<Rightarrow> output_fanout \<times> bytes \<times> mux_inner \<Rightarrow> bool \<times> output_fanout \<times> bytes \<times> mux_inner" where
  "recv_step woken k st =
    (let (f, buf, s) = st in
     if woken then (False, f, buf, inner_close Clean s)
     else case stream_recv k f of
       (Got chunk, f1) \<Rightarrow>
         (case mux_dispatch (buf @ chunk) s of
            (Ok _, b, s1) \<Rightarrow> (True, f1, b, s1)
          | (Err p, b, s1) \<Rightarrow> (False, f1, b, inner_close Desynchronised s1)
          | (Panic, b, s1) \<Rightarrow> (False, f1, b, s1))
     | (Ended, f1) \<Rightarrow> (False, f1, buf, inner_close (if stream_lagged k f1 then Desynchronised else Clean) s)
     | (Waiting, f1) \<Rightarrow> (True, f1, buf, s))"

definition end_send_task :: "mux_inner \<Rightarrow> mux_inner" where
  "end_send_task s = (inner_close Clean s)\<lparr>frame_queue := drop_rx (frame_queue s)\<rparr>"

definition pass_on ::
    "bytes \<Rightarrow> session \<Rightarrow> mux_inner \<Rightarrow> bool \<times> bytes option \<times> session \<times> mux_inner" where
  "pass_on frame sess s =
    (case session_send frame sess of
       (Done (Ok _), sess1) \<Rightarrow> (True, None, sess1, s)
     | (Done _, sess1) \<Rightarrow> (False, None, sess1, end_send_task s)
     | (Waits _, sess1) \<Rightarrow> (True, Some frame, sess1, s))"

definition send_step ::
    "bool \<Rightarrow> bytes option \<Rightarrow> session \<Rightarrow> mux_inner \<Rightarrow> bool \<times> bytes option \<times> session \<times> mux_inner" where
  "send_step woken held sess s =
    (if woken then (False, None, sess, end_send_task s)
     else case held of
       Some frame \<Rightarrow> pass_on frame sess s
     | None \<Rightarrow>
         if mux_closed s \<or> sess_closed sess then (False, None, sess, end_send_task s)
         else case recv (frame_queue s) of
           (Got frame, q) \<Rightarrow> pass_on frame sess (s\<lparr>frame_queue := q\<rparr>)
         | (Ended, _) \<Rightarrow> (False, None, sess, end_send_task s)
         | (Waiting, _) \<Rightarrow> (True, None, sess, s))"

definition keepalive_step :: "bool \<Rightarrow> mux_inner \<Rightarrow> bool \<times> mux_inner" where
  "keepalive_step woken s =
    (if woken then (False, s)
     else let (r, q) = try_send (control CMD_NOP 0) (frame_queue s)
          in (r = Sent \<or> \<not> mux_closed s, s\<lparr>frame_queue := q\<rparr>))"

section \<open>Reassembly\<close>

lemma mux_dispatch_never_panics: "fst (mux_dispatch buf s) \<noteq> Panic"
proof (induction buf s rule: mux_dispatch.induct)
  case (1 buf s)
  then show ?case
    using decode_frame_never_panics [of buf]
    by (auto simp: mux_dispatch.simps [of buf s] split: result.splits prod.splits decoded.splits)
qed

text \<open>Bytes that arrive later are dealt with as if they had been there from the start.\<close>

lemma mux_dispatch_append:
  "mux_dispatch (buf @ later) s =
    (case mux_dispatch buf s of
       (Ok _, b, s1) \<Rightarrow> mux_dispatch (b @ later) s1
     | r \<Rightarrow> r)"
proof (induction buf s rule: mux_dispatch.induct)
  case (1 buf s)
  show ?case
  proof (cases buf rule: decode_frame_cases)
    case (corrupt p)
    with corrupt(2) [of "[]"] show ?thesis by (simp add: mux_dispatch.simps)
  next
    case (complete f rest)
    note d = complete(1) [of "[]", simplified]
    have "mux_dispatch (buf @ later) s = mux_dispatch (rest @ later) (handle_frame f s)"
      by (subst mux_dispatch.simps) (simp add: complete)
    moreover have "mux_dispatch buf s = mux_dispatch rest (handle_frame f s)"
      by (subst mux_dispatch.simps) (simp add: d)
    ultimately show ?thesis using 1 d by simp
  qed (simp_all add: mux_dispatch.simps [of buf s])
qed

lemma mux_dispatch_Nil: "mux_dispatch [] s = (Ok (), [], s)"
  by (simp add: mux_dispatch.simps decode_frame_def MUX_HEADER_SIZE_def)

lemma mux_dispatch_frame:
  assumes "frame_ok f"
  shows "mux_dispatch (encode_frame f @ rest) s = mux_dispatch rest (handle_frame f s)"
proof -
  have "decode_frame (encode_frame f @ rest) = Ok (Complete f, rest)"
    using decode_encode [of "frame_payload f" "frame_cmd f" "frame_stream f" rest] assms
    by (cases f) (simp add: encode_frame_def frame_ok_def)
  then show ?thesis by (subst mux_dispatch.simps) simp
qed

lemma mux_dispatch_frames:
  "list_all frame_ok fs \<Longrightarrow>
    mux_dispatch (concat (map encode_frame fs) @ rest) s = mux_dispatch rest (fold handle_frame fs s)"
  by (induction fs arbitrary: s) (simp_all add: mux_dispatch_frame)

lemma mux_dispatch_settled: "mux_dispatch buf s = (Ok (), b, s1) \<Longrightarrow> mux_dispatch b s1 = (Ok (), b, s1)"
  using mux_dispatch_append [of buf "[]" s] by simp

text \<open>The receive task's loop on the chunks that the session hands it.\<close>

fun mux_feed :: "bytes list \<Rightarrow> bytes \<Rightarrow> mux_inner \<Rightarrow> (unit, string) result \<times> bytes \<times> mux_inner" where
  "mux_feed [] buf s = (Ok (), buf, s)"
| "mux_feed (c # cs) buf s =
    (case mux_dispatch (buf @ c) s of
       (Ok _, b, s1) \<Rightarrow> mux_feed cs b s1
     | r \<Rightarrow> r)"

lemma mux_feed_concat:
  assumes "mux_dispatch buf s = (Ok (), buf, s)"
  shows "mux_feed cs buf s = mux_dispatch (buf @ concat cs) s"
  using assms
proof (induction cs arbitrary: buf s)
  case (Cons c cs)
  have split: "mux_dispatch (buf @ c @ concat cs) s =
      (case mux_dispatch (buf @ c) s of (Ok _, b, s1) \<Rightarrow> mux_dispatch (b @ concat cs) s1 | r \<Rightarrow> r)"
    using mux_dispatch_append [of "buf @ c" "concat cs" s] by simp
  show ?case
  proof (cases "mux_dispatch (buf @ c) s")
    case (fields r b s1)
    show ?thesis
    proof (cases r)
      case (Ok u)
      have "mux_dispatch b s1 = (Ok (), b, s1)"
        using mux_dispatch_settled [of "buf @ c" s b s1] fields Ok by simp
      with Cons.IH fields Ok split show ?thesis by simp
    qed (use fields split in simp_all)
  qed
qed simp

text \<open>
  (C10) How the session cuts the byte stream into chunks makes no difference. Feeding the receive task
  chunk by chunk has the same outcome, error and left-over bytes included, as feeding it everything
  at once; and a stream that consists of legal frames is taken apart into exactly those frames,
  each acted on once and in order, with nothing left over.
\<close>

theorem reassembly_ignores_chunking:
  assumes "concat chunks = concat (map encode_frame fs)" and "list_all frame_ok fs"
  shows "mux_feed cs [] s = mux_dispatch (concat cs) s
    \<and> mux_feed chunks [] s = (Ok (), [], fold handle_frame fs s)"
  using mux_feed_concat [OF mux_dispatch_Nil, of _ s] mux_dispatch_frames [OF assms(2), of "[]" s] assms(1)
  by (simp add: mux_dispatch_Nil)

theorem reassembly_ignores_chunking_witness:
  "mux_feed [[1, 2, 2, 0, 1], [0, 0, 0, 7, 8, 1, 1], [0, 0, 1, 0, 0, 0]] [] mux_new
    = (Ok (), [], fold handle_frame [\<lparr>frame_cmd = CMD_PSH, frame_stream = 1, frame_payload = [7, 8]\<rparr>,
        \<lparr>frame_cmd = CMD_FIN, frame_stream = 1, frame_payload = []\<rparr>] mux_new)"
proof -
  let ?fs = "[\<lparr>frame_cmd = CMD_PSH, frame_stream = 1, frame_payload = [7, 8]\<rparr>,
        \<lparr>frame_cmd = CMD_FIN, frame_stream = 1, frame_payload = []\<rparr>]"
  have "concat [[1, 2, 2, 0, 1], [0, 0, 0, 7, 8, 1, 1], [0, 0, 1, 0, 0, 0]] = concat (map encode_frame ?fs)"
    by code_simp
  moreover have "list_all frame_ok ?fs" by (simp add: frame_ok_def MAX_FRAME_PAYLOAD_def)
  ultimately show ?thesis using reassembly_ignores_chunking by blast
qed

end
