(* ===== verification/Mux_Streams.thy ===== *)
theory Mux_Streams
  imports Mux
begin

text \<open>
  What the multiplexer of \<^verbatim>\<open>src/mux.rs\<close> promises its streams: the invariant of the table and its
  streams under every call that any task or caller can make, and what each stream gets of the bytes
  that arrived for it.
\<close>

section \<open>Runs\<close>

text \<open>
  The calls on the shared state, from any task or caller, in the order the lock serialises them:
  a frame is routed, a stream is opened, read, written, shut down or dropped, the multiplexer is
  closed (\<^const>\<open>True\<close> for a loss of synchronisation), the send task takes a frame or ends, the
  keep-alive task queues a frame.
\<close>

datatype mux_op =
    MRoute mux_frame | MOpen | MRead nat nat | MWrite nat bytes | MShut nat | MDrop nat
  | MClose bool | MTake | MKeepalive | MEnd

fun mux_step :: "mux_op \<Rightarrow> mux_inner \<Rightarrow> mux_inner" where
  "mux_step (MRoute f) s = handle_frame f s"
| "mux_step MOpen s = snd (open_stream s)"
| "mux_step (MRead j n) s = (if j < length (objects s) then snd (poll_read j n s) else s)"
| "mux_step (MWrite j bs) s = (if j < length (objects s) then snd (poll_write j bs s) else s)"
| "mux_step (MShut j) s = (if j < length (objects s) then snd (poll_shutdown j s) else s)"
| "mux_step (MDrop j) s = (if j < length (objects s) then smux_stream_drop j s else s)"
| "mux_step (MClose desync) s = inner_close (if desync then Desynchronised else Clean) s"
| "mux_step MTake s = s\<lparr>frame_queue := snd (recv (frame_queue s))\<rparr>"
| "mux_step MKeepalive s = snd (keepalive_step False s)"
| "mux_step MEnd s = end_send_task s"

text \<open>What arrives for stream \<open>i\<close> in a step, and what its reader gets.\<close>

fun arrives :: "nat \<Rightarrow> mux_op \<Rightarrow> mux_inner \<Rightarrow> bytes" where
  "arrives i (MRoute f) s =
    (if frame_cmd f = CMD_PSH \<and> map_of (streams s) (frame_stream f) = Some i then frame_payload f else [])"
| "arrives i _ s = []"

fun reads :: "nat \<Rightarrow> mux_op \<Rightarrow> mux_inner \<Rightarrow> bytes" where
  "reads i (MRead j n) s =
    (if j = i \<and> j < length (objects s) then (case fst (poll_read j n s) of Ready bs \<Rightarrow> bs | Pending \<Rightarrow> []) else [])"
| "reads i _ s = []"

fun mux_run :: "nat \<Rightarrow> mux_op list \<Rightarrow> mux_inner \<Rightarrow> bytes \<times> bytes \<times> mux_inner" where
  "mux_run i [] s = ([], [], s)"
| "mux_run i (op # ops) s =
    (let (arr, got, s') = mux_run i ops (mux_step op s) in (arrives i op s @ arr, reads i op s @ got, s'))"

section \<open>Frame lemmas\<close>

named_theorems mux_frame_rules \<open>what a table operation leaves of the objects and of the table\<close>

lemma update_object_simps [mux_frame_rules]:
  "length (objects (update_object j f s)) = length (objects s)"
  "i < length (objects s) \<Longrightarrow>
    objects (update_object j f s) ! i = (if i = j then f (objects s ! i) else objects s ! i)"
  "streams (update_object j f s) = streams s"
  "frame_queue (update_object j f s) = frame_queue s"
  "mux_closed (update_object j f s) = mux_closed s"
  "next_id (update_object j f s) = next_id s"
  by (auto simp: update_object_def nth_update_at)

lemma remove_stream_simps [mux_frame_rules]:
  "length (objects (remove_stream sid s)) = length (objects s)"
  "i < length (objects s) \<Longrightarrow> objects (remove_stream sid s) ! i =
    (if map_of (streams s) sid = Some i then drop_inbound (objects s ! i) else objects s ! i)"
  "streams (remove_stream sid s) = AList.delete sid (streams s)"
  "frame_queue (remove_stream sid s) = frame_queue s"
  "mux_closed (remove_stream sid s) = mux_closed s"
  "next_id (remove_stream sid s) = next_id s"
proof -
  show "streams (remove_stream sid s) = AList.delete sid (streams s)"
  proof (cases "map_of (streams s) sid")
    case None
    then have "sid \<notin> fst ` set (streams s)" by (simp add: map_of_eq_None_iff)
    with None show ?thesis by (force simp: remove_stream_def AList.delete_eq intro!: filter_True [symmetric])
  qed (simp add: remove_stream_def update_object_simps)
qed (auto simp: remove_stream_def update_object_simps split: option.splits)

lemma queue_frame_simps [mux_frame_rules]:
  "objects (queue_frame f s) = objects s" "streams (queue_frame f s) = streams s"
  "mux_closed (queue_frame f s) = mux_closed s" "next_id (queue_frame f s) = next_id s"
  by (simp_all add: queue_frame_def)

lemma fold_end_pointwise:
  assumes "distinct (map snd es)" and "\<forall>i \<in> snd ` set es. i < length os"
  shows "fold (\<lambda>(_, i) os. os[i := f (os ! i)]) es os
    = map (\<lambda>i. if i \<in> snd ` set es then f (os ! i) else os ! i) [0..<length os]"
  using assms
proof (induction es arbitrary: os)
  case Nil
  then show ?case by (simp add: map_nth)
next
  case (Cons e es)
  obtain a j where e: "e = (a, j)" by (cases e)
  have "fold (\<lambda>(_, i) os. os[i := f (os ! i)]) es (os[j := f (os ! j)]) =
      map (\<lambda>i. if i \<in> snd ` set es then f (os[j := f (os ! j)] ! i) else os[j := f (os ! j)] ! i)
        [0..<length (os[j := f (os ! j)])]"
    using Cons.prems by (intro Cons.IH) (auto simp: e)
  also have "\<dots> = map (\<lambda>i. if i \<in> snd ` set (e # es) then f (os ! i) else os ! i) [0..<length os]"
    using Cons.prems by (auto simp: e nth_update_at)
  finally show ?case by (simp add: e)
qed

section \<open>The invariant\<close>

definition stream_ok_obj :: "smux_stream \<Rightarrow> bool" where
  "stream_ok_obj ob \<longleftrightarrow> length (queued (data_rx ob)) \<le> depth (data_rx ob) \<and> partial ob \<noteq> Some []
     \<and> (read_closed ob \<longrightarrow> partial ob = None \<and> queued (data_rx ob) = [] \<and> tx_gone (data_rx ob))"

definition mux_inv :: "mux_inner \<Rightarrow> bool" where
  "mux_inv s \<longleftrightarrow> distinct (map fst (streams s)) \<and> distinct (map snd (streams s))
     \<and> (\<forall>(sid, i) \<in> set (streams s). i < length (objects s) \<and> stream_id (objects s ! i) = sid
          \<and> close_tag (objects s ! i) = REASON_OPEN)
     \<and> (\<forall>i < length (objects s). stream_ok_obj (objects s ! i)
          \<and> (tx_gone (data_rx (objects s ! i)) \<longleftrightarrow> i \<notin> snd ` set (streams s)))
     \<and> (mux_closed s \<longrightarrow> streams s = [])"

lemma mux_inv_new: "mux_inv mux_new"
  by (simp add: mux_inv_def mux_new_def)

lemma mux_inv_lookup:
  assumes "mux_inv s"
  shows "map_of (streams s) sid = Some i \<longleftrightarrow> (sid, i) \<in> set (streams s)"
    and "(sid, i) \<in> set (streams s) \<Longrightarrow> i < length (objects s) \<and> stream_id (objects s ! i) = sid
      \<and> close_tag (objects s ! i) = REASON_OPEN \<and> \<not> tx_gone (data_rx (objects s ! i))"
proof -
  have d: "distinct (map fst (streams s))" using assms by (simp add: mux_inv_def)
  show "map_of (streams s) sid = Some i \<longleftrightarrow> (sid, i) \<in> set (streams s)"
    using d by simp
  assume e: "(sid, i) \<in> set (streams s)"
  then have "i < length (objects s) \<and> stream_id (objects s ! i) = sid \<and> close_tag (objects s ! i) = REASON_OPEN"
    using assms by (auto simp: mux_inv_def)
  moreover have "i \<in> snd ` set (streams s)" using e by force
  ultimately show "i < length (objects s) \<and> stream_id (objects s ! i) = sid
      \<and> close_tag (objects s ! i) = REASON_OPEN \<and> \<not> tx_gone (data_rx (objects s ! i))"
    using assms by (auto simp: mux_inv_def)
qed

lemma inner_close_simps [mux_frame_rules]:
  assumes "mux_inv s"
  shows "length (objects (inner_close r s)) = length (objects s)"
    and "i < length (objects s) \<Longrightarrow> objects (inner_close r s) ! i =
      (if i \<in> snd ` set (streams s) then drop_inbound (set_reason r (objects s ! i)) else objects s ! i)"
    and "streams (inner_close r s) = []" and "mux_closed (inner_close r s)"
    and "frame_queue (inner_close r s) = frame_queue s" and "next_id (inner_close r s) = next_id s"
proof -
  have d: "distinct (map snd (streams s))" "\<forall>i \<in> snd ` set (streams s). i < length (objects s)"
    using assms by (auto simp: mux_inv_def)
  show "length (objects (inner_close r s)) = length (objects s)"
    "i < length (objects s) \<Longrightarrow> objects (inner_close r s) ! i =
      (if i \<in> snd ` set (streams s) then drop_inbound (set_reason r (objects s ! i)) else objects s ! i)"
    "streams (inner_close r s) = []" "mux_closed (inner_close r s)"
    "frame_queue (inner_close r s) = frame_queue s" "next_id (inner_close r s) = next_id s"
    using assms fold_end_pointwise [OF d, of "\<lambda>ob. drop_inbound (set_reason r ob)"]
    by (auto simp: inner_close_def mux_inv_def)
qed

lemma drop_inbound_simps [simp]:
  "stream_id (drop_inbound ob) = stream_id ob" "partial (drop_inbound ob) = partial ob"
  "read_closed (drop_inbound ob) = read_closed ob" "write_closed (drop_inbound ob) = write_closed ob"
  "close_tag (drop_inbound ob) = close_tag ob" "data_rx (drop_inbound ob) = drop_tx (data_rx ob)"
  by (simp_all add: drop_inbound_def)

lemma set_reason_simps [simp]:
  "stream_id (set_reason r ob) = stream_id ob" "partial (set_reason r ob) = partial ob"
  "read_closed (set_reason r ob) = read_closed ob" "write_closed (set_reason r ob) = write_closed ob"
  "data_rx (set_reason r ob) = data_rx ob"
  by (simp_all add: set_reason_def)

lemma stream_ok_obj_ended [simp]:
  "stream_ok_obj ob \<Longrightarrow> stream_ok_obj (drop_inbound ob)"
  "stream_ok_obj (set_reason r ob) = stream_ok_obj ob"
  by (auto simp: stream_ok_obj_def)

lemma mux_inv_update_object:
  assumes "mux_inv s"
    and "j < length (objects s) \<Longrightarrow> stream_ok_obj (f (objects s ! j))
      \<and> tx_gone (data_rx (f (objects s ! j))) = tx_gone (data_rx (objects s ! j))
      \<and> (j \<in> snd ` set (streams s) \<longrightarrow> stream_id (f (objects s ! j)) = stream_id (objects s ! j)
           \<and> close_tag (f (objects s ! j)) = close_tag (objects s ! j))"
  shows "mux_inv (update_object j f s)"
proof -
  have "\<forall>i < length (objects s). stream_ok_obj (objects (update_object j f s) ! i)
      \<and> (tx_gone (data_rx (objects (update_object j f s) ! i)) \<longleftrightarrow> i \<notin> snd ` set (streams s))"
    using assms by (auto simp: mux_inv_def update_object_simps)
  moreover have "\<forall>(sid, i) \<in> set (streams s). i < length (objects s)
      \<and> stream_id (objects (update_object j f s) ! i) = sid
      \<and> close_tag (objects (update_object j f s) ! i) = REASON_OPEN"
  proof (clarify)
    fix sid i
    assume e: "(sid, i) \<in> set (streams s)"
    then have i: "i \<in> snd ` set (streams s)" by force
    have "stream_id (f (objects s ! i)) = stream_id (objects s ! i) \<and> close_tag (f (objects s ! i)) = close_tag (objects s ! i)"
      if "i = j" using assms(2) mux_inv_lookup(2) [OF assms(1) e] i that by blast
    then show "i < length (objects s) \<and> stream_id (objects (update_object j f s) ! i) = sid
      \<and> close_tag (objects (update_object j f s) ! i) = REASON_OPEN"
      using mux_inv_lookup(2) [OF assms(1) e] by (auto simp: update_object_simps)
  qed
  ultimately show ?thesis
    using assms(1) by (simp add: mux_inv_def update_object_simps(1,3,5))
qed

lemma mux_inv_queues [simp]:
  "mux_inv (s\<lparr>frame_queue := q\<rparr>) = mux_inv s" "mux_inv (s\<lparr>next_id := n\<rparr>) = mux_inv s"
  "mux_inv (queue_frame f s) = mux_inv s"
  by (simp_all add: mux_inv_def queue_frame_def)

lemma snd_delete:
  assumes "distinct (map fst es)" and "distinct (map snd es)" and "(k, i) \<in> set es"
  shows "snd ` set (AList.delete k es) = snd ` set es - {i}"
proof -
  have same: "l = k" if "(l, i) \<in> set es" for l
    using inj_onD [of snd "set es" "(l, i)" "(k, i)"] assms that by (simp add: distinct_map)
  have funct: "j = i" if "(k, j) \<in> set es" for j
    by (rule eq_key_imp_eq_value [OF assms(1) that assms(3)])
  have "j \<in> snd ` set (AList.delete k es) \<longleftrightarrow> j \<in> snd ` set es - {i}" for j
  proof -
    have "j \<in> snd ` set (AList.delete k es) \<longleftrightarrow> (\<exists>l. (l, j) \<in> set es \<and> l \<noteq> k)"
      by (force simp: AList.delete_eq)
    also have "\<dots> \<longleftrightarrow> (\<exists>l. (l, j) \<in> set es) \<and> j \<noteq> i" using same funct by blast
    finally show ?thesis by force
  qed
  then show ?thesis by blast
qed

lemma mux_inv_remove:
  assumes "mux_inv s"
  shows "mux_inv (remove_stream sid s)"
proof (cases "map_of (streams s) sid")
  case None
  then show ?thesis using assms by (simp add: remove_stream_def)
next
  case (Some i)
  have e: "(sid, i) \<in> set (streams s)" using Some mux_inv_lookup(1) [OF assms] by simp
  have d: "distinct (map fst (streams s))" "distinct (map snd (streams s))"
    using assms by (simp_all add: mux_inv_def)
  have "distinct (map fst (AList.delete sid (streams s)))" "distinct (map snd (AList.delete sid (streams s)))"
    using d by (simp_all add: AList.delete_eq distinct_map_filter)
  moreover have "\<forall>(sid', j) \<in> set (AList.delete sid (streams s)). j < length (objects s)
      \<and> stream_id (objects (remove_stream sid s) ! j) = sid'
      \<and> close_tag (objects (remove_stream sid s) ! j) = REASON_OPEN"
    using mux_inv_lookup(2) [OF assms] by (auto simp: AList.delete_eq remove_stream_simps)
  moreover have "\<forall>j < length (objects s). stream_ok_obj (objects (remove_stream sid s) ! j)
      \<and> (tx_gone (data_rx (objects (remove_stream sid s) ! j))
          \<longleftrightarrow> j \<notin> snd ` set (AList.delete sid (streams s)))"
    using assms Some snd_delete [OF d e] by (auto simp: mux_inv_def remove_stream_simps)
  moreover have "mux_closed s \<longrightarrow> AList.delete sid (streams s) = []"
    using assms by (auto simp: mux_inv_def)
  ultimately show ?thesis by (simp add: mux_inv_def remove_stream_simps(1,3,5))
qed

lemma mux_inv_close:
  assumes "mux_inv s"
  shows "mux_inv (inner_close r s)"
proof -
  have "stream_ok_obj (objects (inner_close r s) ! i) \<and> tx_gone (data_rx (objects (inner_close r s) ! i))"
    if "i < length (objects s)" for i
    using assms that by (auto simp: inner_close_simps [OF assms] mux_inv_def)
  then show ?thesis
    by (simp add: mux_inv_def inner_close_simps(1,3,4) [OF assms])
qed

lemma slow_then_removed:
  assumes "map_of (streams s) sid = Some i"
  shows "remove_stream sid (update_object i (\<lambda>ob. ob\<lparr>close_tag := q\<rparr>) s)
    = update_object i (\<lambda>ob. ob\<lparr>close_tag := q\<rparr>) (remove_stream sid s)"
proof (cases "i < length (objects s)")
  case True
  then show ?thesis
    using assms by (cases "objects s ! i") (simp add: remove_stream_def update_object_def drop_inbound_def)
qed (use assms in \<open>simp add: remove_stream_def update_object_def list_update_beyond\<close>)

lemma removed_unregistered:
  assumes "mux_inv s" and "map_of (streams s) sid = Some i"
  shows "i \<notin> snd ` set (streams (remove_stream sid s))"
proof -
  have "(sid, i) \<in> set (streams s)" using assms mux_inv_lookup(1) by blast
  with assms(1) show ?thesis by (simp add: remove_stream_simps snd_delete mux_inv_def)
qed

lemma mux_inv_route_push:
  assumes "mux_inv s"
  shows "mux_inv (route_push sid pl s)"
proof (cases "map_of (streams s) sid")
  case None
  then show ?thesis using assms by (simp add: route_push_def)
next
  case (Some i)
  have "(sid, i) \<in> set (streams s)" using assms Some mux_inv_lookup(1) by blast
  note ob = mux_inv_lookup(2) [OF assms this]
  obtain r c where c: "try_send pl (data_rx (objects s ! i)) = (r, c)" by fastforce
  show ?thesis
  proof (cases r)
    case Sent
    have ok: "stream_ok_obj (objects s ! i)" using assms ob by (simp add: mux_inv_def)
    have "mux_inv (update_object i (\<lambda>ob. ob\<lparr>data_rx := c\<rparr>) s)"
      using assms ok ob c Sent
      by (intro mux_inv_update_object) (auto simp: stream_ok_obj_def try_send_def split: if_splits)
    then show ?thesis using Some c Sent by (simp add: route_push_def)
  next
    case QueueFull
    have "mux_inv (update_object i (\<lambda>ob. ob\<lparr>close_tag := reason_tag SlowConsumer\<rparr>) (remove_stream sid s))"
      using mux_inv_remove [OF assms, of sid] removed_unregistered [OF assms Some]
      by (intro mux_inv_update_object) (auto simp: mux_inv_def stream_ok_obj_def)
    then show ?thesis using Some c QueueFull by (simp add: route_push_def slow_then_removed)
  next
    case ReceiverGone
    then show ?thesis using assms Some c by (simp add: route_push_def mux_inv_remove)
  qed
qed

lemma mux_inv_route_fin:
  assumes "mux_inv s"
  shows "mux_inv (route_fin sid s)"
proof (cases "map_of (streams s) sid")
  case (Some i)
  have "mux_inv (update_object i (set_reason Clean) (remove_stream sid s))"
    using mux_inv_remove [OF assms, of sid] removed_unregistered [OF assms Some]
    by (intro mux_inv_update_object) (auto simp: mux_inv_def)
  then show ?thesis using Some by (simp add: route_fin_def)
qed (use assms in \<open>simp add: route_fin_def\<close>)

lemma mux_inv_open:
  assumes "mux_inv s"
  shows "mux_inv (snd (open_stream s))"
proof -
  let ?s1 = "(remove_stream (next_id s) s)\<lparr>next_id := next_id s + 2\<rparr>"
  let ?ob = "\<lparr>stream_id = next_id s, data_rx = new_channel STREAM_QUEUE_DEPTH, partial = None,
             read_closed = False, write_closed = False, close_tag = REASON_OPEN\<rparr>"
  let ?s2 = "?s1\<lparr>objects := objects ?s1 @ [?ob], streams := (next_id s, length (objects s)) # streams ?s1\<rparr>"
  have inv1: "mux_inv ?s1" using assms by (simp add: mux_inv_remove)
  have len: "length (objects ?s1) = length (objects s)" by (simp add: remove_stream_simps)
  have fresh: "next_id s \<notin> fst ` set (streams ?s1)" "length (objects s) \<notin> snd ` set (streams ?s1)"
  proof -
    show "next_id s \<notin> fst ` set (streams ?s1)" by (auto simp: remove_stream_simps AList.delete_eq)
    have "\<forall>e \<in> set (streams ?s1). snd e < length (objects ?s1)" using inv1 unfolding mux_inv_def by auto
    then show "length (objects s) \<notin> snd ` set (streams ?s1)" unfolding len by auto
  qed
  have "mux_inv ?s2" if "\<not> mux_closed s"
  proof -
    have "stream_ok_obj (objects ?s2 ! i) \<and> (tx_gone (data_rx (objects ?s2 ! i)) \<longleftrightarrow> i \<notin> snd ` set (streams ?s2))"
      if "i < length (objects ?s2)" for i
      using that inv1 len fresh
      by (cases "i = length (objects s)") (auto simp: mux_inv_def nth_append stream_ok_obj_def)
    moreover have "\<forall>(sid, i) \<in> set (streams ?s2). i < length (objects ?s2) \<and> stream_id (objects ?s2 ! i) = sid
          \<and> close_tag (objects ?s2 ! i) = REASON_OPEN"
      using inv1 len by (auto simp: mux_inv_def nth_append)
    ultimately show ?thesis
      using inv1 fresh that by (simp add: mux_inv_def remove_stream_simps(5))
  qed
  then show ?thesis
    using assms inv1 by (auto simp: open_stream_def Let_def split: send_outcome.split prod.split)
qed

text \<open>The three outcomes of a read, as updates of the stream's object.\<close>

lemma poll_read_cases:
  obtains (idle) bs where "poll_read i n s = (bs, s)" "bs = Pending \<or> bs = Ready []"
  | (ended) "poll_read i n s = (Ready [], update_object i (\<lambda>ob. ob\<lparr>read_closed := True\<rparr>) s)"
      "partial (objects s ! i) = None" "queued (data_rx (objects s ! i)) = []"
      "tx_gone (data_rx (objects s ! i)) \<or> mux_closed s"
  | (rest) chunk where "partial (objects s ! i) = Some chunk" "poll_read i n s = hand_out n chunk i s"
      "\<not> read_closed (objects s ! i)"
  | (chunk) chunk q where "partial (objects s ! i) = None" "queued (data_rx (objects s ! i)) = chunk # q"
      "poll_read i n s = hand_out n chunk i
         (update_object i (\<lambda>ob. ob\<lparr>data_rx := (data_rx (objects s ! i))\<lparr>queued := q\<rparr>\<rparr>) s)"
      "\<not> read_closed (objects s ! i)"
proof (cases "read_closed (objects s ! i)")
  case True
  then show thesis using idle [of "Ready []"] by (simp add: poll_read_def)
next
  case open_: False
  show thesis
  proof (cases "partial (objects s ! i)")
    case (Some c)
    with open_ show thesis by (intro rest) (simp_all add: poll_read_def)
  next
    case None
    show thesis
    proof (cases "queued (data_rx (objects s ! i))")
      case (Cons c q)
      with open_ None show thesis by (intro chunk) (simp_all add: poll_read_def recv_def)
    next
      case Nil
      show thesis
      proof (cases "tx_gone (data_rx (objects s ! i)) \<or> mux_closed s")
        case True
        with open_ None Nil show thesis by (intro ended) (auto simp: poll_read_def recv_def Let_def)
      next
        case False
        then show thesis using idle [of Pending] open_ None Nil by (simp add: poll_read_def recv_def)
      qed
    qed
  qed
qed

text \<open>Handing out bytes from a chunk replaces what is left of it, in one update.\<close>

lemma hand_out_update:
  assumes "i < length (objects s)"
  shows "hand_out n chunk i (update_object i f s) = (Ready (take n chunk),
     update_object i (\<lambda>ob. (f ob)\<lparr>partial := (if drop n chunk = [] then None else Some (drop n chunk))\<rparr>) s)"
    and "hand_out n chunk i s = (Ready (take n chunk),
     update_object i (\<lambda>ob. ob\<lparr>partial := (if drop n chunk = [] then None else Some (drop n chunk))\<rparr>) s)"
  using assms
  by (auto simp: hand_out_def update_object_def Let_def min_def not_le)

lemma mux_inv_poll_read:
  assumes "mux_inv s" and i: "i < length (objects s)"
  shows "mux_inv (snd (poll_read i n s))"
proof -
  have ok: "stream_ok_obj (objects s ! i)" using assms by (simp add: mux_inv_def)
  have gone: "tx_gone (data_rx (objects s ! i))" if "mux_closed s" using assms that by (auto simp: mux_inv_def)
  show ?thesis
  proof (cases i n s rule: poll_read_cases)
    case (chunk c q)
    then show ?thesis
      using ok by (auto simp: hand_out_update [OF i] stream_ok_obj_def intro!: mux_inv_update_object assms)
  next
    case (rest c)
    then show ?thesis
      using ok by (auto simp: hand_out_update [OF i] stream_ok_obj_def intro!: mux_inv_update_object assms)
  next
    case ended
    then show ?thesis
      using ok gone by (auto simp: stream_ok_obj_def intro!: mux_inv_update_object assms)
  qed (use assms in simp)
qed

lemma mux_inv_writes:
  assumes "mux_inv s" and "i < length (objects s)"
  shows "mux_inv (snd (poll_write i bs s))" and "mux_inv (snd (poll_shutdown i s))"
    and "mux_inv (smux_stream_drop i s)" and "mux_inv (end_send_task s)"
proof -
  have ok: "mux_inv u \<Longrightarrow> j < length (objects u) \<Longrightarrow> stream_ok_obj (objects u ! j)" for u j
    by (simp add: mux_inv_def)
  show "mux_inv (snd (poll_write i bs s))"
    using assms by (auto simp: poll_write_def Let_def split: prod.split send_outcome.split)
  have "mux_inv (update_object i (\<lambda>ob. ob\<lparr>write_closed := True\<rparr>) s)"
    using ok [OF assms] by (intro mux_inv_update_object assms) (simp add: stream_ok_obj_def)
  then show "mux_inv (snd (poll_shutdown i s))"
    using assms by (auto simp: poll_shutdown_def Let_def split: prod.split send_outcome.split)
  have "mux_inv (update_object i (\<lambda>ob. ob\<lparr>data_rx := drop_rx (data_rx ob)\<rparr>) (remove_stream sid u))"
    if "mux_inv u" for sid u
    using ok [OF mux_inv_remove [OF that]]
    by (intro mux_inv_update_object mux_inv_remove that) (simp add: stream_ok_obj_def)
  then show "mux_inv (smux_stream_drop i s)"
    using assms by (simp add: smux_stream_drop_def Let_def)
  show "mux_inv (end_send_task s)" using assms by (simp add: end_send_task_def mux_inv_close)
qed

lemma mux_inv_step: "mux_inv s \<Longrightarrow> mux_inv (mux_step op s)"
  by (cases op) (auto simp: handle_frame_def end_send_task_def keepalive_step_def split_beta
      intro: mux_inv_route_push mux_inv_route_fin mux_inv_open mux_inv_poll_read mux_inv_writes mux_inv_close)

interpretation mux: machine mux_step mux_inv
  by unfold_locales (rule mux_inv_step)

lemma mux_run_state: "snd (snd (mux_run i ops s)) = fold mux_step ops s"
  by (induction ops arbitrary: s) (simp_all add: split_beta)

lemma mux_inv_run: "mux_inv s \<Longrightarrow> mux_inv (snd (snd (mux_run i ops s)))"
  unfolding mux_run_state by (rule mux.run_inv)

text \<open>
  (C30) The multiplexer's state is well formed after any sequence of calls. No identifier and no stream
  is in the table twice; an entry is a stream that has that identifier and no close reason yet;
  exactly the streams in the table can still be sent to; no stream's queue is longer than its
  capacity; a stream that has reported its end to its reader holds nothing back; and the table
  of a closed multiplexer is empty.
\<close>

theorem mux_state_well_formed:
  assumes "mux_run k ops mux_new = (arrived, got, s)"
  shows "distinct (map fst (streams s)) \<and> distinct (map snd (streams s)) \<and> (mux_closed s \<longrightarrow> streams s = [])
    \<and> (\<forall>(sid, i) \<in> set (streams s). i < length (objects s) \<and> stream_id (objects s ! i) = sid
         \<and> close_tag (objects s ! i) = REASON_OPEN)
    \<and> (\<forall>i < length (objects s). (tx_gone (data_rx (objects s ! i)) \<longleftrightarrow> i \<notin> snd ` set (streams s))
         \<and> length (queued (data_rx (objects s ! i))) \<le> depth (data_rx (objects s ! i))
         \<and> (read_closed (objects s ! i) \<longrightarrow> partial (objects s ! i) = None \<and> queued (data_rx (objects s ! i)) = []))"
proof -
  have "mux_inv s" using mux_inv_run [OF mux_inv_new, of k ops] assms by simp
  then show ?thesis by (simp add: mux_inv_def stream_ok_obj_def)
qed

theorem mux_state_well_formed_witness:
  "\<exists>s. mux_run 0 [MOpen, MOpen, MDrop 0] mux_new = ([], [], s) \<and> map fst (streams s) = [3]
     \<and> tx_gone (data_rx (objects s ! 0))"
proof -
  obtain a g s where run: "mux_run 0 [MOpen, MOpen, MDrop 0] mux_new = (a, g, s)"
    by (cases "mux_run 0 [MOpen, MOpen, MDrop 0] mux_new")
  have s: "a = [] \<and> g = [] \<and> streams s = [(3, 1)] \<and> length (objects s) = 2"
    using run
    by (auto simp: mux_new_def open_stream_def remove_stream_def smux_stream_drop_def update_object_def
        queue_frame_def try_send_def new_channel_def FRAME_QUEUE_DEPTH_def STREAM_QUEUE_DEPTH_def Let_def
        AList.delete_eq)
  with mux_state_well_formed [OF run] run show ?thesis by auto
qed

section \<open>What a stream gets\<close>

definition held_bytes :: "smux_stream \<Rightarrow> bytes" where
  "held_bytes ob = (case partial ob of None \<Rightarrow> [] | Some p \<Rightarrow> p) @ concat (queued (data_rx ob))"

definition lossy :: "smux_stream \<Rightarrow> bool" where
  "lossy ob \<longleftrightarrow> close_tag ob = reason_tag SlowConsumer \<or> rx_gone (data_rx ob)"

definition log_ok :: "nat \<Rightarrow> bytes \<Rightarrow> bytes \<Rightarrow> mux_inner \<Rightarrow> bool" where
  "log_ok i arr got s \<longleftrightarrow>
    (if i < length (objects s)
     then if lossy (objects s ! i) then prefix (got @ held_bytes (objects s ! i)) arr
       else got @ held_bytes (objects s ! i) = arr
     else arr = [] \<and> got = [])"

text \<open>A step that touches neither the bytes a stream holds nor, in the wrong direction, its tag.\<close>

lemma log_ok_quiet:
  assumes "log_ok i arr got s" and "length (objects s') = length (objects s)"
    and "i < length (objects s) \<Longrightarrow> held_bytes (objects s' ! i) = held_bytes (objects s ! i)
      \<and> (lossy (objects s ! i) \<longrightarrow> lossy (objects s' ! i))"
  shows "log_ok i arr got s'"
  using assms by (cases "lossy (objects s ! i)") (auto simp: log_ok_def)

lemma held_bytes_ended [simp]:
  "held_bytes (drop_inbound ob) = held_bytes ob" "held_bytes (set_reason r ob) = held_bytes ob"
  "held_bytes (ob\<lparr>write_closed := b\<rparr>) = held_bytes ob" "held_bytes (ob\<lparr>read_closed := b\<rparr>) = held_bytes ob"
  "held_bytes (ob\<lparr>data_rx := drop_rx (data_rx ob)\<rparr>) = held_bytes ob"
  "held_bytes (ob\<lparr>close_tag := q\<rparr>) = held_bytes ob"
  by (simp_all add: held_bytes_def)

lemma lossy_ended [simp]:
  "lossy (drop_inbound ob) = lossy ob" "lossy ob \<Longrightarrow> lossy (set_reason r ob)"
  "lossy (ob\<lparr>write_closed := b\<rparr>) = lossy ob" "lossy (ob\<lparr>read_closed := b\<rparr>) = lossy ob"
  "lossy (ob\<lparr>data_rx := drop_rx (data_rx ob)\<rparr>)" "lossy (ob\<lparr>partial := p\<rparr>) = lossy ob"
  by (auto simp: lossy_def set_reason_def REASON_OPEN_def)

lemma log_ok_route_push:
  assumes inv: "mux_inv s" and log: "log_ok i arr got s"
  shows "log_ok i (arr @ (if map_of (streams s) sid = Some i then pl else [])) got (route_push sid pl s)"
proof (cases "map_of (streams s) sid")
  case None
  with log show ?thesis
    by (simp add: route_push_def log_ok_quiet [of i arr got s] queue_frame_simps)
next
  case (Some j)
  have e: "(sid, j) \<in> set (streams s)" using inv Some mux_inv_lookup(1) by blast
  note ob = mux_inv_lookup(2) [OF inv e]
  obtain r c where c: "try_send pl (data_rx (objects s ! j)) = (r, c)" by fastforce
  show ?thesis
  proof (cases "j = i")
    case False
    then have "length (objects (route_push sid pl s)) = length (objects s)"
      "i < length (objects s) \<Longrightarrow> objects (route_push sid pl s) ! i = objects s ! i"
      using Some c by (cases r; simp add: route_push_def mux_frame_rules)+
    with False Some log show ?thesis by (simp add: log_ok_quiet [of i arr got s])
  next
    case True
    show ?thesis
    proof (cases r)
      case Sent
      have "\<not> lossy (objects s ! i)"
        using ob c Sent True by (auto simp: lossy_def REASON_OPEN_def try_send_def split: if_splits)
      moreover have "held_bytes ((objects s ! i)\<lparr>data_rx := c\<rparr>) = held_bytes (objects s ! i) @ pl"
        "lossy ((objects s ! i)\<lparr>data_rx := c\<rparr>) = lossy (objects s ! i)"
        using c Sent True by (auto simp: held_bytes_def lossy_def try_send_def split: if_splits)
      ultimately show ?thesis
        using log ob Some c Sent True by (auto simp: route_push_def log_ok_def mux_frame_rules)
    next
      case QueueFull
      then have "objects (route_push sid pl s) ! i
          = (drop_inbound (objects s ! i))\<lparr>close_tag := reason_tag SlowConsumer\<rparr>"
        "length (objects (route_push sid pl s)) = length (objects s)"
        using Some c True ob by (simp_all add: route_push_def slow_then_removed mux_frame_rules)
      moreover have "lossy ((drop_inbound (objects s ! i))\<lparr>close_tag := reason_tag SlowConsumer\<rparr>)"
        by (simp add: lossy_def)
      ultimately show ?thesis
        using log ob Some True by (auto simp: log_ok_def split: if_splits)
    next
      case ReceiverGone
      then have "lossy (objects s ! i)"
        using c True by (auto simp: lossy_def try_send_def split: if_splits)
      then show ?thesis
        using log ob Some c ReceiverGone True by (auto simp: route_push_def log_ok_def mux_frame_rules)
    qed
  qed
qed

lemma take_drop_append: "take n xs @ drop n xs @ ys = xs @ ys"
  by (metis append_assoc append_take_drop_id)

lemma log_ok_read:
  assumes inv: "mux_inv s" and log: "log_ok i arr got s" and j: "j < length (objects s)"
  shows "log_ok i arr (got @ reads i (MRead j n) s) (snd (poll_read j n s))"
proof (cases j n s rule: poll_read_cases)
  case (idle bs)
  with log show ?thesis by auto
next
  case ended
  with log show ?thesis
    by (auto simp: mux_frame_rules intro!: log_ok_quiet [of i arr got s])
next
  case (rest c)
  then show ?thesis
    using log j
    by (auto simp: hand_out_update log_ok_def held_bytes_def mux_frame_rules take_drop_append split: if_splits)
next
  case (chunk c q)
  then show ?thesis
    using log j
    by (auto simp: hand_out_update log_ok_def held_bytes_def lossy_def mux_frame_rules take_drop_append
        split: if_splits)
qed

lemma log_ok_open:
  assumes "log_ok i arr got s"
  shows "log_ok i arr got (snd (open_stream s))"
proof -
  let ?s1 = "(remove_stream (next_id s) s)\<lparr>next_id := next_id s + 2\<rparr>"
  have "log_ok i arr got ?s1"
    using assms by (rule log_ok_quiet) (auto simp: remove_stream_simps)
  moreover have "log_ok i arr got (?s1\<lparr>objects := objects ?s1 @ [ob], streams := es, frame_queue := q\<rparr>)"
    if "log_ok i arr got ?s1" "held_bytes ob = []" "\<not> lossy ob" for ob es q
    using that by (auto simp: log_ok_def nth_append not_less_eq less_Suc_eq split: if_splits)
  ultimately show ?thesis
    using assms
    by (auto simp: open_stream_def Let_def held_bytes_def lossy_def REASON_OPEN_def
        split: send_outcome.split prod.split)
qed

lemma log_ok_step:
  assumes "mux_inv s" and "log_ok i arr got s"
  shows "log_ok i (arr @ arrives i op s) (got @ reads i op s) (mux_step op s)"
proof (cases op)
  case (MRoute f)
  have "log_ok i arr got (route_fin sid s)" for sid
    using assms(2) by (rule log_ok_quiet) (auto simp: route_fin_def mux_frame_rules split: option.split)
  with MRoute log_ok_route_push [OF assms, of "frame_stream f" "frame_payload f"] assms(2) show ?thesis
    by (auto simp: handle_frame_def)
next
  case MOpen
  with log_ok_open [OF assms(2)] show ?thesis by simp
next
  case (MRead j n)
  with log_ok_read [OF assms, of j n] assms(2) show ?thesis by simp
next
  case (MWrite j bs)
  with assms(2) show ?thesis
    by (auto simp: poll_write_def Let_def log_ok_def split: send_outcome.split prod.split)
next
  case (MShut j)
  have "log_ok i arr got (snd (poll_shutdown j s))"
    using assms(2) by (rule log_ok_quiet)
      (auto simp: poll_shutdown_def Let_def mux_frame_rules split: send_outcome.split prod.split)
  with MShut assms(2) show ?thesis by simp
next
  case (MDrop j)
  have "log_ok i arr got (smux_stream_drop j s)"
    using assms(2) by (rule log_ok_quiet) (auto simp: smux_stream_drop_def Let_def mux_frame_rules)
  with MDrop assms(2) show ?thesis by simp
next
  case (MClose d)
  have "log_ok i arr got (inner_close r s)" for r
    using assms(2) by (rule log_ok_quiet) (auto simp: inner_close_simps [OF assms(1)])
  with MClose show ?thesis by simp
next
  case MTake
  with assms(2) show ?thesis by (simp add: log_ok_def)
next
  case MKeepalive
  with assms(2) show ?thesis by (simp add: log_ok_def keepalive_step_def split_beta)
next
  case MEnd
  have "log_ok i arr got (end_send_task s)"
    using assms(2) by (rule log_ok_quiet) (auto simp: end_send_task_def inner_close_simps [OF assms(1)])
  with MEnd show ?thesis by simp
qed

lemma log_ok_run:
  assumes "mux_inv s" and "log_ok i arr got s" and "mux_run i ops s = (arr', got', s')"
  shows "log_ok i (arr @ arr') (got @ got') s'"
  using assms
proof (induction ops arbitrary: s arr got arr' got')
  case (Cons op ops)
  obtain a g where run: "mux_run i ops (mux_step op s) = (a, g, s')"
    and eq: "arr' = arrives i op s @ a" "got' = reads i op s @ g"
    using Cons.prems(3) by (auto simp: split_beta Let_def) (metis prod.collapse)
  from Cons.IH [OF mux_inv_step [OF Cons.prems(1)] log_ok_step [OF Cons.prems(1,2)] run] eq
  show ?case by simp
qed simp

section \<open>Inbound properties\<close>

text \<open>
  (C6) A stream gets its own bytes, whole and in order. Whatever the tasks and the other streams do,
  what a stream's reader has read, followed by what is waiting for it, is exactly what arrived for
  the stream while it was in the table, unless it was evicted for not reading, and then it is a
  prefix. When the reader sees the end, and the reported reason is not that eviction, it has
  read everything.
\<close>

theorem stream_bytes_intact:
  assumes "mux_run i ops mux_new = (arrived, got, s)" and "i < length (objects s)"
    and "\<not> rx_gone (data_rx (objects s ! i))"
  shows "prefix (got @ held_bytes (objects s ! i)) arrived
    \<and> (close_tag (objects s ! i) \<noteq> reason_tag SlowConsumer \<longrightarrow> got @ held_bytes (objects s ! i) = arrived)
    \<and> (stream_close_reason_of i s \<in> {Some Clean, Some Desynchronised} \<longrightarrow> got = arrived)"
proof -
  have "log_ok i ([] @ arrived) ([] @ got) s"
    by (rule log_ok_run [OF mux_inv_new _ assms(1)]) (simp add: log_ok_def mux_new_def)
  then have log: "close_tag (objects s ! i) \<noteq> reason_tag SlowConsumer \<longrightarrow> got @ held_bytes (objects s ! i) = arrived"
    "prefix (got @ held_bytes (objects s ! i)) arrived"
    using assms(2,3) by (auto simp: log_ok_def lossy_def split: if_splits)
  have inv: "mux_inv s" using mux_inv_run [OF mux_inv_new, of i ops] assms(1) by simp
  have "held_bytes (objects s ! i) = []" if "read_closed (objects s ! i)"
    using inv assms(2) that by (auto simp: mux_inv_def stream_ok_obj_def held_bytes_def)
  then show ?thesis
    using log by (auto simp: stream_close_reason_of_def Let_def split: if_splits)
qed

theorem stream_bytes_intact_witness:
  "\<exists>s. mux_run 0 [MOpen, MOpen, MRoute \<lparr>frame_cmd = CMD_PSH, frame_stream = 1, frame_payload = [7, 8]\<rparr>,
      MRoute \<lparr>frame_cmd = CMD_PSH, frame_stream = 3, frame_payload = [5]\<rparr>, MRead 0 1,
      MRoute \<lparr>frame_cmd = CMD_FIN, frame_stream = 1, frame_payload = []\<rparr>, MRead 0 9, MRead 0 9] mux_new
      = ([7, 8], [7, 8], s) \<and> stream_close_reason_of 0 s = Some Clean \<and> held_bytes (objects s ! 0) = []"
proof -
  let ?ops = "[MOpen, MOpen, MRoute \<lparr>frame_cmd = CMD_PSH, frame_stream = 1, frame_payload = [7, 8]\<rparr>,
      MRoute \<lparr>frame_cmd = CMD_PSH, frame_stream = 3, frame_payload = [5]\<rparr>, MRead 0 1,
      MRoute \<lparr>frame_cmd = CMD_FIN, frame_stream = 1, frame_payload = []\<rparr>, MRead 0 9, MRead 0 9]"
  obtain a g s where run: "mux_run 0 ?ops mux_new = (a, g, s)" by (cases "mux_run 0 ?ops mux_new")
  have facts: "a = [7, 8] \<and> g = [7, 8] \<and> 0 < length (objects s) \<and> \<not> rx_gone (data_rx (objects s ! 0))
      \<and> stream_close_reason_of 0 s = Some Clean \<and> close_tag (objects s ! 0) = 0"
    using run
    by (simp add: mux_new_def open_stream_def remove_stream_def handle_frame_def route_push_def route_fin_def
        update_object_def try_send_def recv_def poll_read_def hand_out_def set_reason_def drop_inbound_def
        cmd_defs new_channel_def FRAME_QUEUE_DEPTH_def STREAM_QUEUE_DEPTH_def REASON_OPEN_def AList.delete_eq
        stream_close_reason_of_def Let_def drop_tx_def) auto
  then have "got @ held_bytes (objects s ! 0) = [7, 8]" if "got = [7, 8]" for got
    using stream_bytes_intact [OF run] that by simp
  with run facts show ?thesis by auto
qed

text \<open>
  (C31) A consumer that stops reading harms only itself. Delivering a frame to a stream leaves every
  other stream, and its place in the table, as it was. If the stream's own queue is full, the
  stream is taken out of the table and marked as evicted; what it holds stays readable, and its
  reader then finds the end and that reason.
\<close>

theorem eviction_is_isolated:
  assumes "mux_run k ops mux_new = (arrived, got, s)" and "map_of (streams s) sid = Some i"
    and "depth (data_rx (objects s ! i)) \<le> length (queued (data_rx (objects s ! i)))"
    and "\<not> rx_gone (data_rx (objects s ! i))"
  shows "(\<forall>j < length (objects s). j \<noteq> i \<longrightarrow> objects (route_push sid pl s) ! j = objects s ! j
        \<and> (j \<in> snd ` set (streams (route_push sid pl s)) \<longleftrightarrow> j \<in> snd ` set (streams s)))
    \<and> map_of (streams (route_push sid pl s)) sid = None
    \<and> held_bytes (objects (route_push sid pl s) ! i) = held_bytes (objects s ! i)
    \<and> close_tag (objects (route_push sid pl s) ! i) = reason_tag SlowConsumer
    \<and> tx_gone (data_rx (objects (route_push sid pl s) ! i))"
proof -
  have inv: "mux_inv s" using mux_inv_run [OF mux_inv_new, of k ops] assms(1) by simp
  have e: "(sid, i) \<in> set (streams s)" using inv assms(2) mux_inv_lookup(1) by blast
  have i: "i < length (objects s)" using mux_inv_lookup(2) [OF inv e] by simp
  have eq: "route_push sid pl s = queue_frame (control CMD_FIN sid)
      (update_object i (\<lambda>ob. ob\<lparr>close_tag := reason_tag SlowConsumer\<rparr>) (remove_stream sid s))"
    using assms(2-4) by (simp add: route_push_def try_send_def slow_then_removed)
  have "snd ` set (AList.delete sid (streams s)) = snd ` set (streams s) - {i}"
    by (rule snd_delete [OF _ _ e]) (use inv in \<open>simp_all add: mux_inv_def\<close>)
  then show ?thesis
    using assms(2) i by (auto simp: eq mux_frame_rules delete_conv)
qed

text \<open>A stream that nobody reads fills up.\<close>

lemma unread_stream_fills:
  assumes "streams s = [(sid, 0)]" and "objects s = [ob]" and "\<not> rx_gone (data_rx ob)"
    and "length (queued (data_rx ob)) + n \<le> depth (data_rx ob)"
  shows "snd (snd (mux_run 0 (replicate n (MRoute \<lparr>frame_cmd = CMD_PSH, frame_stream = sid, frame_payload = pl\<rparr>)) s))
    = s\<lparr>objects := [ob\<lparr>data_rx := (data_rx ob)\<lparr>queued := queued (data_rx ob) @ replicate n pl\<rparr>\<rparr>]\<rparr>"
  using assms
proof (induction n arbitrary: s ob)
  case (Suc n)
  let ?ob = "ob\<lparr>data_rx := (data_rx ob)\<lparr>queued := queued (data_rx ob) @ [pl]\<rparr>\<rparr>"
  have "route_push sid pl s = s\<lparr>objects := [?ob]\<rparr>"
    using Suc.prems by (simp add: route_push_def try_send_def update_object_def)
  with Suc.IH [of "s\<lparr>objects := [?ob]\<rparr>" ?ob] Suc.prems show ?case
    by (simp add: split_beta Let_def handle_frame_def)
qed simp

theorem eviction_is_isolated_witness:
  "\<exists>s i. map_of (streams s) 1 = Some i \<and> map_of (streams (route_push 1 [9] s)) 1 = None
     \<and> close_tag (objects (route_push 1 [9] s) ! i) = reason_tag SlowConsumer"
proof -
  let ?f = "\<lparr>frame_cmd = CMD_PSH, frame_stream = 1, frame_payload = [7]\<rparr>"
  let ?ops = "MOpen # replicate 256 (MRoute ?f)"
  define s1 where "s1 = mux_step MOpen mux_new"
  have s1: "streams s1 = [(1, 0)]" "objects s1 = [\<lparr>stream_id = 1, data_rx = new_channel 256, partial = None,
      read_closed = False, write_closed = False, close_tag = REASON_OPEN\<rparr>]"
    by (simp_all add: s1_def mux_new_def open_stream_def remove_stream_def try_send_def
        FRAME_QUEUE_DEPTH_def STREAM_QUEUE_DEPTH_def Let_def)
  obtain a g s where run: "mux_run 0 ?ops mux_new = (a, g, s)" by (cases "mux_run 0 ?ops mux_new")
  have "s = snd (snd (mux_run 0 (replicate 256 (MRoute ?f)) s1))"
    using run by (auto simp: s1_def split_beta Let_def)
  then have s: "s = s1\<lparr>objects := [(objects s1 ! 0)\<lparr>data_rx := (new_channel 256)\<lparr>queued := replicate 256 [7]\<rparr>\<rparr>]\<rparr>"
    using unread_stream_fills [OF s1, of 256 "[7]"] by (simp add: s1(2))
  have "map_of (streams s) 1 = Some 0" "depth (data_rx (objects s ! 0)) \<le> length (queued (data_rx (objects s ! 0)))"
    "\<not> rx_gone (data_rx (objects s ! 0))"
    by (simp_all add: s s1)
  with eviction_is_isolated [OF run this, of "[9]"] show ?thesis by blast
qed

text \<open>The frame queue is first in, first out; what is accepted and what is taken out of it.\<close>

fun accepts :: "u32 \<Rightarrow> mux_op \<Rightarrow> mux_inner \<Rightarrow> bytes" where
  "accepts sid (MWrite j bs) s =
    (if j < length (objects s) \<and> stream_id (objects s ! j) = sid
     then case fst (poll_write j bs s) of Ready (Ok n) \<Rightarrow> take n bs | _ \<Rightarrow> []
     else [])"
| "accepts sid _ s = []"

fun takes :: "mux_op \<Rightarrow> mux_inner \<Rightarrow> bytes list" where
  "takes MTake s = (case fst (recv (frame_queue s)) of Got f \<Rightarrow> [f] | _ \<Rightarrow> [])"
| "takes _ s = []"

fun send_run :: "u32 \<Rightarrow> mux_op list \<Rightarrow> mux_inner \<Rightarrow> bytes \<times> bytes list \<times> mux_inner" where
  "send_run sid [] s = ([], [], s)"
| "send_run sid (op # ops) s =
    (let (acc, out, s') = send_run sid ops (mux_step op s) in (accepts sid op s @ acc, takes op s @ out, s'))"

text \<open>The data for a stream in a frame, as the other side reads it.\<close>

definition data_of :: "u32 \<Rightarrow> bytes \<Rightarrow> bytes" where
  "data_of sid frame =
    (case decode_frame frame of
       Ok (Complete f, []) \<Rightarrow> if frame_cmd f = CMD_PSH \<and> frame_stream f = sid then frame_payload f else []
     | _ \<Rightarrow> [])"

lemma data_of_encode:
  "length pl \<le> MAX_FRAME_PAYLOAD \<Longrightarrow>
    data_of sid (encode cmd sid' pl) = (if cmd = CMD_PSH \<and> sid' = sid then pl else [])"
  using decode_encode [of pl cmd sid' "[]"] by (simp add: data_of_def)

lemma data_of_control [simp]: "cmd \<noteq> CMD_PSH \<Longrightarrow> data_of sid (control cmd sid') = []"
  by (simp add: control_def data_of_encode)

definition queued_data :: "u32 \<Rightarrow> mux_inner \<Rightarrow> bytes" where
  "queued_data sid s = concat (map (data_of sid) (queued (frame_queue s)))"

lemma queued_data_queue_frame [simp]:
  "cmd \<noteq> CMD_PSH \<Longrightarrow> queued_data sid (queue_frame (control cmd x) s) = queued_data sid s"
  by (simp add: queued_data_def queue_frame_def try_send_def)

lemma queued_data_quiet [simp]:
  "queued_data sid (update_object i f s) = queued_data sid s"
  "queued_data sid (remove_stream x s) = queued_data sid s"
  "queued_data sid (inner_close r s) = queued_data sid s"
  "queued_data sid (s\<lparr>next_id := n\<rparr>) = queued_data sid s"
  "queued_data sid (s\<lparr>frame_queue := drop_rx q\<rparr>) = queued_data sid (s\<lparr>frame_queue := q\<rparr>)"
  "queued_data sid (s\<lparr>frame_queue := frame_queue s\<rparr>) = queued_data sid s"
  by (simp_all add: queued_data_def mux_frame_rules inner_close_def)

lemma send_step_data:
  "concat (map (data_of sid) (takes op s)) @ queued_data sid (mux_step op s)
    = queued_data sid s @ accepts sid op s"
proof (cases op)
  case (MRoute f)
  then show ?thesis
    by (auto simp: handle_frame_def route_push_def route_fin_def cmd_defs
        split: option.splits prod.splits send_outcome.splits)
next
  case MOpen
  then show ?thesis
    by (auto simp: open_stream_def Let_def try_send_def queued_data_def mux_frame_rules cmd_defs
        split: prod.splits send_outcome.splits)
next
  case (MRead j n)
  then show ?thesis
    by (cases j n s rule: poll_read_cases) (auto simp: hand_out_def Let_def)
next
  case (MWrite j bs)
  then show ?thesis
    by (auto simp: poll_write_def Let_def try_send_def queued_data_def data_of_encode)
next
  case (MShut j)
  then show ?thesis
    by (auto simp: poll_shutdown_def Let_def try_send_def queued_data_def mux_frame_rules cmd_defs)
next
  case (MDrop j)
  then show ?thesis by (auto simp: smux_stream_drop_def Let_def cmd_defs)
next
  case MTake
  then show ?thesis by (auto simp: recv_def queued_data_def split: list.splits)
next
  case MKeepalive
  then show ?thesis by (simp add: keepalive_step_def try_send_def queued_data_def cmd_defs split_beta)
next
  case MEnd
  then show ?thesis by (simp add: end_send_task_def queued_data_def inner_close_def)
qed simp

text \<open>Every frame in the queue is a legal frame.\<close>

definition legal :: "bytes \<Rightarrow> bool" where
  "legal b \<longleftrightarrow> (\<exists>f. frame_ok f \<and> b = encode_frame f)"

lemma legal_encode: "length pl \<le> MAX_FRAME_PAYLOAD \<Longrightarrow> legal (encode cmd sid pl)"
  unfolding legal_def
  by (rule exI [of _ "\<lparr>frame_cmd = cmd, frame_stream = sid, frame_payload = pl\<rparr>"])
    (simp add: frame_ok_def encode_frame_def)

lemma legal_control [simp]: "legal (control cmd sid)"
  by (simp add: control_def legal_encode)

definition legal_queue :: "mux_inner \<Rightarrow> bool" where
  "legal_queue s \<longleftrightarrow> list_all legal (queued (frame_queue s))"

lemma legal_queue_quiet [simp]:
  "legal_queue (update_object i f s) = legal_queue s" "legal_queue (remove_stream x s) = legal_queue s"
  "legal_queue (inner_close r s) = legal_queue s" "legal_queue (s\<lparr>next_id := n\<rparr>) = legal_queue s"
  "legal_queue s \<Longrightarrow> legal_queue (queue_frame (control cmd x) s)"
  by (simp_all add: legal_queue_def mux_frame_rules inner_close_def queue_frame_def try_send_def)

lemma legal_queue_step: "legal_queue s \<Longrightarrow> legal_queue (mux_step op s) \<and> list_all legal (takes op s)"
proof (cases op)
  case (MRoute f)
  then show "legal_queue s \<Longrightarrow> ?thesis"
    by (auto simp: handle_frame_def route_push_def route_fin_def
        split: option.splits prod.splits send_outcome.splits)
next
  case (MRead j n)
  then show "legal_queue s \<Longrightarrow> ?thesis"
    by (cases j n s rule: poll_read_cases) (auto simp: hand_out_def Let_def)
qed (auto simp: open_stream_def poll_write_def poll_shutdown_def smux_stream_drop_def end_send_task_def Let_def
    keepalive_step_def try_send_def recv_def legal_queue_def mux_frame_rules legal_encode inner_close_def queue_frame_def
    split: prod.splits send_outcome.splits list.splits)

lemma send_run_data:
  assumes "send_run sid ops s = (acc, out, s')" and "legal_queue s"
  shows "concat (map (data_of sid) out) @ queued_data sid s' = queued_data sid s @ acc
    \<and> list_all legal out \<and> legal_queue s'"
  using assms
proof (induction ops arbitrary: s acc out)
  case (Cons op ops)
  obtain a o' where run: "send_run sid ops (mux_step op s) = (a, o', s')"
    and eq: "acc = accepts sid op s @ a" "out = takes op s @ o'"
    using Cons.prems(1) by (auto simp: split_beta Let_def) (metis prod.collapse)
  have legal: "legal_queue (mux_step op s)" "list_all legal (takes op s)"
    using legal_queue_step [OF Cons.prems(2)] by simp_all
  note Cons.IH [OF run legal(1)]
  moreover have "concat (map (data_of sid) (takes op s)) @ queued_data sid (mux_step op s) @ a
      = queued_data sid s @ accepts sid op s @ a"
    using send_step_data [of sid op s] by (metis append_assoc)
  ultimately show ?case using legal by (simp add: eq)
qed simp



section \<open>Identifiers\<close>

definition ids_ok :: "nat \<Rightarrow> mux_inner \<Rightarrow> bool" where
  "ids_ok n s \<longleftrightarrow> next_id s = of_nat (2 * n + 1)
     \<and> (\<exists>ks. sorted_wrt (<) ks \<and> (\<forall>k \<in> set ks. k < n)
          \<and> map stream_id (objects s) = map (\<lambda>k. of_nat (2 * k + 1)) ks)"

lemma stream_ids_quiet [simp]:
  "(\<And>ob. stream_id (f ob) = stream_id ob) \<Longrightarrow>
    map stream_id (objects (update_object i f s)) = map stream_id (objects s)"
  by (cases "i < length (objects s)")
    (simp_all add: update_object_def map_update list_update_beyond, metis list_update_id nth_map)

lemma stream_ids_removed [simp]:
  "map stream_id (objects (remove_stream sid s)) = map stream_id (objects s)"
  by (auto simp: remove_stream_def split: option.split)

lemma stream_ids_closed:
  "mux_inv s \<Longrightarrow> map stream_id (objects (inner_close r s)) = map stream_id (objects s)"
  by (rule nth_equalityI) (auto simp: inner_close_simps)

lemma ids_ok_step:
  assumes "ids_ok n s" and "mux_inv s"
  shows "\<exists>m. m \<le> (if op = MOpen then Suc n else n) \<and> n \<le> m \<and> ids_ok m (mux_step op s)"
proof (cases "op = MOpen")
  case False
  have "next_id (mux_step op s) = next_id s \<and> map stream_id (objects (mux_step op s)) = map stream_id (objects s)"
  proof (cases op)
    case (MRead j k)
    then show ?thesis
      by (cases j k s rule: poll_read_cases) (auto simp: hand_out_def Let_def mux_frame_rules)
  qed (use False in \<open>auto simp: handle_frame_def route_push_def route_fin_def poll_write_def poll_shutdown_def
      smux_stream_drop_def end_send_task_def keepalive_step_def Let_def mux_frame_rules stream_ids_closed
      inner_close_simps [OF assms(2)] stream_ids_closed [OF assms(2)]
      split: option.splits prod.splits send_outcome.splits\<close>)
  with False assms(1) show ?thesis by (auto simp: ids_ok_def)
next
  case True
  from assms(1) obtain ks where ks: "sorted_wrt (<) ks" "\<forall>k \<in> set ks. k < n"
    "map stream_id (objects s) = map (\<lambda>k. of_nat (2 * k + 1)) ks" and next_: "next_id s = of_nat (2 * n + 1)"
    by (auto simp: ids_ok_def)
  have more_ids: "sorted_wrt (<) (ks @ [n])" using ks(1,2) by (simp add: sorted_wrt_append)
  show ?thesis
  proof (cases "mux_closed s")
    case closed: True
    then show ?thesis using True assms(1) by (intro exI [of _ n]) (simp add: open_stream_def)
  next
    case False
    let ?s' = "snd (open_stream s)"
    have "next_id ?s' = of_nat (2 * Suc n + 1)"
      using False next_
      by (auto simp: open_stream_def Let_def add.commute split: prod.split send_outcome.split)
    moreover have "map stream_id (objects ?s') \<in> {map stream_id (objects s), map stream_id (objects s) @ [next_id s]}"
      using False by (auto simp: open_stream_def Let_def split: prod.split send_outcome.split)
    ultimately have "ids_ok (Suc n) ?s'"
      using ks more_ids next_ unfolding ids_ok_def
      by (elim insertE emptyE) (force intro: less_SucI exI [of _ ks], force intro: less_SucI exI [of _ "ks @ [n]"])
    then show ?thesis using True by auto
  qed
qed

lemma ids_ok_run:
  assumes "ids_ok n s" and "mux_inv s"
  shows "\<exists>m. m \<le> n + length (filter ((=) MOpen) ops) \<and> ids_ok m (snd (snd (mux_run i ops s)))"
  using assms
proof (induction ops arbitrary: n s)
  case (Cons op ops)
  obtain m where m: "m \<le> (if op = MOpen then Suc n else n)" "ids_ok m (mux_step op s)"
    using ids_ok_step [OF Cons.prems] by blast
  from Cons.IH [OF m(2) mux_inv_step [OF Cons.prems(2)]] obtain m' where
    "m' \<le> m + length (filter ((=) MOpen) ops)" "ids_ok m' (snd (snd (mux_run i ops (mux_step op s))))" by blast
  with m(1) show ?case by (intro exI [of _ m']) (auto simp: split_beta Let_def split: if_splits)
qed auto

lemma ids_ok_distinct:
  assumes "ids_ok m s" and "m \<le> 2 ^ 31"
  shows "distinct (map stream_id (objects s)) \<and> (\<forall>ob \<in> set (objects s). odd (unat (stream_id ob)))"
proof -
  from assms(1) obtain ks where ks: "sorted_wrt (<) ks" "\<forall>k \<in> set ks. k < m"
    "map stream_id (objects s) = map (\<lambda>k. of_nat (2 * k + 1)) ks"
    by (auto simp: ids_ok_def)
  have u: "unat (of_nat (2 * k + 1) :: u32) = 2 * k + 1" if "k \<in> set ks" for k
  proof -
    have "2 * k + 1 < 2 ^ 32" using that ks(2) assms(2) by fastforce
    moreover have "unat (of_nat (2 * k + 1) :: u32) = (2 * k + 1) mod 2 ^ 32" by (simp only: unat_of_nat) simp
    ultimately show ?thesis by simp
  qed
  have "inj_on (\<lambda>k. of_nat (2 * k + 1) :: u32) (set ks)"
  proof (rule inj_onI)
    fix x y assume "x \<in> set ks" "y \<in> set ks" "(of_nat (2 * x + 1) :: u32) = of_nat (2 * y + 1)"
    then have "2 * x + 1 = 2 * y + 1" using u by metis
    then show "x = y" by simp
  qed
  then have "distinct (map stream_id (objects s))"
    using ks(1) by (simp add: ks(3) distinct_map strict_sorted_iff)
  moreover have "odd (unat (stream_id ob))" if "ob \<in> set (objects s)" for ob
  proof -
    have "stream_id ob \<in> set (map stream_id (objects s))" using that by simp
    then obtain k where "k \<in> set ks" "stream_id ob = of_nat (2 * k + 1)" unfolding ks(3) by auto
    then show ?thesis using u by simp
  qed
  ultimately show ?thesis by blast
qed

text \<open>
  (C32) Streams never share an identifier. All identifiers are odd, as the protocol reserves the even
  ones for the other side, and until two to the thirty-first streams have been opened no
  identifier is given out twice, failed attempts included.
\<close>

theorem stream_ids_odd_and_distinct:
  assumes "mux_run i ops mux_new = (arrived, got, s)" and "length (filter ((=) MOpen) ops) \<le> 2 ^ 31"
  shows "distinct (map stream_id (objects s)) \<and> (\<forall>ob \<in> set (objects s). odd (unat (stream_id ob)))"
proof -
  have "ids_ok 0 mux_new" by (simp add: ids_ok_def mux_new_def)
  from ids_ok_run [OF this mux_inv_new, of ops i] obtain m where
    "m \<le> length (filter ((=) MOpen) ops)" "ids_ok m s"
    using assms(1) by auto
  then show ?thesis using assms(2) ids_ok_distinct le_trans by blast
qed

theorem stream_ids_odd_and_distinct_witness:
  "\<exists>s. mux_run 0 [MOpen, MDrop 0, MOpen] mux_new = ([], [], s) \<and> length (objects s) = 2
     \<and> distinct (map stream_id (objects s))"
proof -
  obtain a g s where run: "mux_run 0 [MOpen, MDrop 0, MOpen] mux_new = (a, g, s)"
    by (cases "mux_run 0 [MOpen, MDrop 0, MOpen] mux_new")
  have "a = [] \<and> g = [] \<and> length (objects s) = 2"
    using run
    by (auto simp: mux_new_def open_stream_def remove_stream_def smux_stream_drop_def update_object_def
        queue_frame_def try_send_def new_channel_def FRAME_QUEUE_DEPTH_def STREAM_QUEUE_DEPTH_def Let_def
        AList.delete_eq)
  with run stream_ids_odd_and_distinct [OF run] show ?thesis by simp
qed

section \<open>Ends of streams\<close>

text \<open>
  A data frame without data looks like the end of the stream to the reader: the read returns no
  bytes, which means the end to the asynchronous reader interface, although the stream is still
  open, as its missing close reason and the data that follows show.
\<close>

theorem empty_frame_reads_as_eof:
  "let s = snd (snd (mux_run 0 [MOpen, MRoute \<lparr>frame_cmd = CMD_PSH, frame_stream = 1, frame_payload = []\<rparr>,
        MRoute \<lparr>frame_cmd = CMD_PSH, frame_stream = 1, frame_payload = [7]\<rparr>] mux_new));
       (r1, s1) = poll_read 0 16 s; (r2, s2) = poll_read 0 16 s1
   in r1 = Ready [] \<and> stream_close_reason_of 0 s1 = None \<and> r2 = Ready [7]"
  by (simp add: mux_new_def open_stream_def remove_stream_def handle_frame_def route_push_def
      update_object_def try_send_def recv_def poll_read_def hand_out_def cmd_defs new_channel_def
      FRAME_QUEUE_DEPTH_def STREAM_QUEUE_DEPTH_def stream_close_reason_of_def Let_def)

lemma fanout_close_keeps:
  assumes "fan_inv f" and "k < length (store f)"
  shows "queued (sub_chan (store (fanout_close f) ! k)) = queued (sub_chan (store f ! k))"
    and "sub_lagged (store (fanout_close f) ! k) = sub_lagged (store f ! k)"
    and "tx_gone (sub_chan (store (fanout_close f) ! k))"
proof -
  have "distinct (subscribers f)" using assms(1) by (simp add: fan_inv_def)
  from fold_close_pointwise [OF assms(2) this]
  show "queued (sub_chan (store (fanout_close f) ! k)) = queued (sub_chan (store f ! k))"
    "sub_lagged (store (fanout_close f) ! k) = sub_lagged (store f ! k)"
    by (simp_all add: fanout_close_def)
  have "fan_inv (fanout_close f)" "fan_closed (fanout_close f)" "length (store (fanout_close f)) = length (store f)"
    using fan_inv_close [OF assms(1)] by (simp_all add: fanout_close_def)
  then show "tx_gone (sub_chan (store (fanout_close f) ! k))"
    using assms(2) by (auto simp: fan_inv_def)
qed

text \<open>
  A stream that is cut off by the loss of the session is reported as closed cleanly. Whatever
  ended the session, an unresponsive peer or a failed connection included, the receive task
  finds the end of the output; unless it had fallen behind, it marks every open stream as cleanly
  closed, even with a frame half received.
\<close>

theorem lost_session_reported_clean:
  assumes "mux_run j ops mux_new = (arrived, got, s)" and "\<not> mux_closed s"
    and "core_inv c" and "\<not> is_closed c" and "k < length (store (fanout c))"
    and "queued (sub_chan (store (fanout c) ! k)) = []" and "\<not> stream_lagged k (fanout c)"
    and "map_of (streams s) sid = Some i"
    and "recv_step False k (fanout (core_close reason c), buf, s) = (again, f', buf', s')"
  shows "\<not> again \<and> buf' = buf \<and> close_tag (objects s' ! i) = reason_tag Clean
    \<and> tx_gone (data_rx (objects s' ! i))"
proof -
  have inv: "mux_inv s" using mux_inv_run [OF mux_inv_new, of j ops] assms(1) by simp
  have e: "(sid, i) \<in> set (streams s)" using inv assms(8) mux_inv_lookup(1) by blast
  note ob = mux_inv_lookup(2) [OF inv e]
  have fan: "fan_inv (fanout c)" using assms(3) by (simp add: core_inv_def)
  let ?f = "fanout (core_close reason c)"
  have f: "?f = fanout_close (fanout c)" using assms(4) by (simp add: core_close_def)
  have "fst (stream_recv k ?f) = Ended" "\<not> stream_lagged k (snd (stream_recv k ?f))"
    using assms(5-7) fanout_close_keeps [OF fan assms(5)]
    by (simp_all add: f stream_recv_def recv_def stream_lagged_def list_update_id)
  then have "(again, f', buf', s') = (False, snd (stream_recv k ?f), buf, inner_close Clean s)"
    using assms(9) by (cases "stream_recv k ?f") (simp add: recv_step_def)
  moreover have "i \<in> snd ` set (streams s)" using e by force
  ultimately show ?thesis
    using ob by (simp add: inner_close_simps [OF inv] set_reason_def)
qed

theorem lost_session_reported_clean_witness:
  "\<exists>s c s'. recv_step False 0 (fanout (core_close (Transport_Failure [Txt ''reset'']) c), [1, 2, 9], s) = s'
     \<and> close_tag (objects (snd (snd (snd s'))) ! 0) = reason_tag Clean"
proof -
  let ?c = "snd (core_subscribe (core_new ''s-1'' 4))"
  obtain a g s where run: "mux_run 0 [MOpen] mux_new = (a, g, s)" by (cases "mux_run 0 [MOpen] mux_new")
  have s: "\<not> mux_closed s" "map_of (streams s) 1 = Some 0"
    using run by (auto simp: mux_new_def open_stream_def remove_stream_def try_send_def FRAME_QUEUE_DEPTH_def Let_def)
  have c: "core_inv ?c" using core_inv_step [OF core_inv_new, of SubscribeCore "''s-1''" 4] by simp
  have c': "\<not> is_closed ?c" "0 < length (store (fanout ?c))" "queued (sub_chan (store (fanout ?c) ! 0)) = []"
    "\<not> stream_lagged 0 (fanout ?c)"
    by (simp_all add: core_subscribe_def core_new_def subscribe_def fanout_new_def stream_lagged_def Let_def)
  obtain b f' bf s' where "recv_step False 0 (fanout (core_close (Transport_Failure [Txt ''reset'']) ?c), [1, 2, 9], s)
      = (b, f', bf, s')" by (metis prod_cases4)
  from lost_session_reported_clean [OF run s(1) c c' s(2) this] this show ?thesis
    by (metis snd_conv)
qed

end
