(* ===== verification/Port_Forward.thy ===== *)
theory Port_Forward
  imports Mux_Streams
begin

text \<open>
  \<^verbatim>\<open>src/port_forward.rs\<close>: a local port whose connections each become a stream of one multiplexer. The
  accept loop and the tasks of the connections are steps on a common state. The sockets are the
  environment: what a read from one returns, how much of a write one takes, and when a connection
  arrives, are arguments of the steps. Every poll of a socket or of a stream is a step of its own, so
  that a run may interleave the two directions of a connection, the connections, the accept loop
  and the tasks of the multiplexer in any way.

  \<^verbatim>\<open>tokio::io::copy\<close> is taken as documented: it reads into a buffer of \<^verbatim>\<open>COPY_BUF\<close> bytes and
  writes the buffer out in order until the reader is at its end and the buffer is empty, or until
  the first error.
\<close>

section \<open>State\<close>

record port_forward_config =
  local_addr :: "u32 \<times> u16"
  pf_max_connections :: nat
  pf_keepalive :: bool

definition port_forward_config_default :: port_forward_config where
  "port_forward_config_default = \<lparr>local_addr = (0x7F000001, 0), pf_max_connections = 100, pf_keepalive = False\<rparr>"

text \<open>
  \<^verbatim>\<open>PortForwarder\<close>: what \<^verbatim>\<open>bind\<close> makes of a configuration. Listening on an address, and asking the listener for
  the address it got, are parameters.
\<close>

record port_forwarder =
  bound_config :: port_forward_config
  bound_addr :: "u32 \<times> u16"

definition pf_bind ::
    "(u32 \<times> u16 \<Rightarrow> error + unit) \<Rightarrow> (u32 \<times> u16 \<Rightarrow> error + (u32 \<times> u16)) \<Rightarrow> port_forward_config
      \<Rightarrow> (port_forwarder, error) result" where
  "pf_bind listen listener_addr config =
    (case listen (local_addr config) of
       Inl e \<Rightarrow> Err e
     | Inr _ \<Rightarrow>
         (case listener_addr (local_addr config) of
            Inl e \<Rightarrow> Err e
          | Inr addr \<Rightarrow> Ok \<lparr>bound_config = config, bound_addr = addr\<rparr>))"

text \<open>\<^verbatim>\<open>Semaphore::new\<close> panics when it is asked for more permits than \<^verbatim>\<open>usize::MAX >> 3\<close>.\<close>

definition MAX_PERMITS :: nat where "MAX_PERMITS = 2 ^ 61 - 1"

definition COPY_BUF :: nat where "COPY_BUF = 8192"

text \<open>One direction: copying, about to shut the writer down, or finished with what \<^verbatim>\<open>pump\<close> returns.\<close>

datatype pipe_phase = Copying | Closing | Finished "(nat, error) result"

record pipe =
  pipe_buf :: bytes
  pipe_eof :: bool
  pipe_copied :: nat
  pipe_phase :: pipe_phase

definition pipe_new :: pipe where
  "pipe_new = \<lparr>pipe_buf = [], pipe_eof = False, pipe_copied = 0, pipe_phase = Copying\<rparr>"

datatype forwarded_phase = Spawned | Running | Over "(unit, error) result"

text \<open>
  A forwarded connection. The last five components record whether a stream was opened for it, and the
  bytes read from the socket, taken by the stream, got from the stream and written to the socket; the
  code does not have them.
\<close>

record forwarded =
  fc_phase :: forwarded_phase
  fc_object :: nat
  fc_out :: pipe
  fc_in :: pipe
  fc_shut :: bool
  fc_opened :: bool
  fc_read :: bytes
  fc_sent :: bytes
  fc_got :: bytes
  fc_written :: bytes

definition forwarded_new :: forwarded where
  "forwarded_new = \<lparr>fc_phase = Spawned, fc_object = 0, fc_out = pipe_new, fc_in = pipe_new, fc_shut = False,
     fc_opened = False, fc_read = [], fc_sent = [], fc_got = [], fc_written = []\<rparr>"

record forwarder =
  pf_config :: port_forward_config
  pf_session :: session
  pf_mux :: mux_inner
  pf_permits :: nat
  pf_conns :: "forwarded list"
  pf_refused :: nat
  pf_shutdown :: bool
  pf_result :: "(unit, error) result option"

section \<open>One direction\<close>

text \<open>\<^verbatim>\<open>pump\<close>, cut at its polls: the reader gives bytes (none at the end of the stream) or an error, ...\<close>

definition pipe_fill :: "error + bytes \<Rightarrow> pipe \<Rightarrow> pipe" where
  "pipe_fill r p =
    (case r of
       Inl e \<Rightarrow> p\<lparr>pipe_phase := Finished (Err e)\<rparr>
     | Inr bs \<Rightarrow>
         if bs = [] then p\<lparr>pipe_eof := True, pipe_phase := (if pipe_buf p = [] then Closing else Copying)\<rparr>
         else p\<lparr>pipe_buf := pipe_buf p @ bs\<rparr>)"

text \<open>... the writer takes some of the buffer or fails, ...\<close>

definition pipe_drain :: "error + nat \<Rightarrow> pipe \<Rightarrow> pipe" where
  "pipe_drain r p =
    (case r of
       Inl e \<Rightarrow> p\<lparr>pipe_phase := Finished (Err e)\<rparr>
     | Inr k \<Rightarrow>
         if k = 0 then p\<lparr>pipe_phase := Finished (Err (Io OtherKind [Txt ''write zero byte into writer'']))\<rparr>
         else p\<lparr>pipe_buf := drop k (pipe_buf p), pipe_copied := pipe_copied p + min k (length (pipe_buf p)),
           pipe_phase := (if pipe_eof p \<and> length (pipe_buf p) \<le> k then Closing else Copying)\<rparr>)"

text \<open>... and the writer is shut down.\<close>

definition pipe_close :: "error + unit \<Rightarrow> pipe \<Rightarrow> pipe" where
  "pipe_close r p = p\<lparr>pipe_phase := Finished (case r of Inl e \<Rightarrow> Err e | Inr _ \<Rightarrow> Ok (pipe_copied p))\<rparr>"

definition may_read :: "pipe \<Rightarrow> bool" where
  "may_read p \<longleftrightarrow> pipe_phase p = Copying \<and> \<not> pipe_eof p \<and> length (pipe_buf p) < COPY_BUF"

definition may_write :: "pipe \<Rightarrow> bool" where
  "may_write p \<longleftrightarrow> pipe_phase p = Copying \<and> pipe_buf p \<noteq> []"

section \<open>A connection\<close>

text \<open>
  The polls of a connection's task: the task starts (\<open>CStart\<close>), looks at the shutdown signal
  (\<open>CCancelled\<close>), sees that both directions are finished (\<open>CJoin\<close>), or polls a socket or its stream. A
  socket read gives at most what fits the buffer.
\<close>

datatype conn_event =
    CStart | CCancelled | CJoin
  | CReadTcp "error + bytes" | CWriteMux | CShutMux
  | CReadMux | CWriteTcp "error + nat" | CShutTcp "error + unit"

definition finish_connection ::
    "(unit, error) result \<Rightarrow> forwarded \<times> mux_inner \<Rightarrow> forwarded \<times> mux_inner" where
  "finish_connection r cm = (let (c, m) = cm in (c\<lparr>fc_phase := Over r\<rparr>, smux_stream_drop (fc_object c) m))"

text \<open>\<^verbatim>\<open>sent?; received?;\<close>\<close>

definition join_result :: "(nat, error) result \<Rightarrow> (nat, error) result \<Rightarrow> (unit, error) result" where
  "join_result sent received = bind_result sent (\<lambda>_. bind_result received (\<lambda>_. Ok ()))"

fun running_step :: "bool \<Rightarrow> conn_event \<Rightarrow> forwarded \<Rightarrow> mux_inner \<Rightarrow> forwarded \<times> mux_inner" where
  "running_step sd CStart c m = (c, m)"
| "running_step sd CCancelled c m = (if sd then finish_connection (Ok ()) (c, m) else (c, m))"
| "running_step sd CJoin c m =
    (case (pipe_phase (fc_out c), pipe_phase (fc_in c)) of
       (Finished sent, Finished received) \<Rightarrow> finish_connection (join_result sent received) (c, m)
     | _ \<Rightarrow> (c, m))"
| "running_step sd (CReadTcp r) c m =
    (if \<not> may_read (fc_out c) then (c, m)
     else
       let r' = map_sum id (take (COPY_BUF - length (pipe_buf (fc_out c)))) r
       in (c\<lparr>fc_out := pipe_fill r' (fc_out c), fc_read := fc_read c @ (case r' of Inl _ \<Rightarrow> [] | Inr bs \<Rightarrow> bs)\<rparr>, m))"
| "running_step sd CWriteMux c m =
    (if \<not> may_write (fc_out c) then (c, m)
     else case poll_write (fc_object c) (pipe_buf (fc_out c)) m of
       (Pending, m1) \<Rightarrow> (c, m1)
     | (Ready (Ok n), m1) \<Rightarrow>
         (c\<lparr>fc_out := pipe_drain (Inr n) (fc_out c), fc_sent := fc_sent c @ take n (pipe_buf (fc_out c))\<rparr>, m1)
     | (Ready (Err e), m1) \<Rightarrow> (c\<lparr>fc_out := pipe_drain (Inl e) (fc_out c)\<rparr>, m1)
     | (Ready Panic, m1) \<Rightarrow> (c, m1))"
| "running_step sd CShutMux c m =
    (if pipe_phase (fc_out c) \<noteq> Closing then (c, m)
     else case poll_shutdown (fc_object c) m of
       (Pending, m1) \<Rightarrow> (c, m1)
     | (Ready _, m1) \<Rightarrow> (c\<lparr>fc_out := pipe_close (Inr ()) (fc_out c)\<rparr>, m1))"
| "running_step sd CReadMux c m =
    (if \<not> may_read (fc_in c) then (c, m)
     else case poll_read (fc_object c) (COPY_BUF - length (pipe_buf (fc_in c))) m of
       (Pending, m1) \<Rightarrow> (c, m1)
     | (Ready bs, m1) \<Rightarrow> (c\<lparr>fc_in := pipe_fill (Inr bs) (fc_in c), fc_got := fc_got c @ bs\<rparr>, m1))"
| "running_step sd (CWriteTcp r) c m =
    (if \<not> may_write (fc_in c) then (c, m)
     else
       let r' = map_sum id (min (length (pipe_buf (fc_in c)))) r
       in (c\<lparr>fc_in := pipe_drain r' (fc_in c),
             fc_written := fc_written c @ (case r' of Inl _ \<Rightarrow> [] | Inr k \<Rightarrow> take k (pipe_buf (fc_in c)))\<rparr>, m))"
| "running_step sd (CShutTcp r) c m =
    (if pipe_phase (fc_in c) \<noteq> Closing then (c, m)
     else (c\<lparr>fc_in := pipe_close r (fc_in c), fc_shut := (fc_shut c \<or> \<not> isl r)\<rparr>, m))"

definition forward_connection :: "bool \<Rightarrow> conn_event \<Rightarrow> forwarded \<Rightarrow> mux_inner \<Rightarrow> forwarded \<times> mux_inner" where
  "forward_connection sd ev c m =
    (case fc_phase c of
       Over _ \<Rightarrow> (c, m)
     | Spawned \<Rightarrow>
         (case open_stream m of
            (Ok i, m1) \<Rightarrow> (c\<lparr>fc_phase := Running, fc_object := i, fc_opened := True\<rparr>, m1)
          | (Err e, m1) \<Rightarrow> (c\<lparr>fc_phase := Over (Err e)\<rparr>, m1)
          | (Panic, m1) \<Rightarrow> (c\<lparr>fc_phase := Over Panic\<rparr>, m1))
     | Running \<Rightarrow> running_step sd ev c m)"

section \<open>The forwarder\<close>

text \<open>
  \<^verbatim>\<open>forward\<close> up to its loop: it refuses, it returns (\<^const>\<open>None\<close>), or it has a multiplexer and
  enters the loop; \<open>expired\<close> says whether the time allowed for the handshake has passed.
\<close>

definition forward_start ::
    "port_forward_config \<Rightarrow> session \<Rightarrow> bool \<Rightarrow> bool \<Rightarrow> forwarder option io" where
  "forward_start config s sd expired =
    (if config_session_type (sess_config s) \<noteq> session_type.Port
     then Done (Err (Config [Txt ''PortForwarder needs a port-forwarding session. Start it with SessionBuilder::port_forward(port) or .document(PortForwardingToRemoteHost::new(host, port)).'']))
     else if sd then Done (Ok None)
     else case wait_ready expired s of
       Waits w \<Rightarrow> Waits w
     | Done (Ok _) \<Rightarrow>
         if MAX_PERMITS < pf_max_connections config then Done Panic
         else Done (Ok (Some \<lparr>pf_config = config, pf_session = s, pf_mux = mux_new,
           pf_permits = pf_max_connections config, pf_conns = [], pf_refused = 0, pf_shutdown = False,
           pf_result = None\<rparr>))
     | Done (Err e) \<Rightarrow> Done (Err e)
     | Done Panic \<Rightarrow> Done Panic)"

text \<open>One round of the loop; \<open>accepted\<close> is what the listener gives in it, if anything.\<close>

definition accept_step :: "(unit, error) result option \<Rightarrow> forwarder \<Rightarrow> forwarder" where
  "accept_step accepted st =
    (if pf_result st \<noteq> None then st
     else if pf_shutdown st then st\<lparr>pf_result := Some (Ok ())\<rparr>
     else if sess_closed (pf_session st) then st\<lparr>pf_shutdown := True, pf_result := Some (Ok ())\<rparr>
     else case accepted of
       None \<Rightarrow> st
     | Some (Err e) \<Rightarrow> st\<lparr>pf_result := Some (Err e)\<rparr>
     | Some Panic \<Rightarrow> st\<lparr>pf_result := Some Panic\<rparr>
     | Some (Ok _) \<Rightarrow>
         if pf_permits st = 0 then st\<lparr>pf_refused := pf_refused st + 1\<rparr>
         else st\<lparr>pf_permits := pf_permits st - 1, pf_conns := pf_conns st @ [forwarded_new]\<rparr>)"

definition is_over :: "forwarded \<Rightarrow> bool" where
  "is_over c = (case fc_phase c of Over _ \<Rightarrow> True | _ \<Rightarrow> False)"

text \<open>A step of connection \<open>i\<close>'s task; the permit goes back when the task ends.\<close>

definition conn_step :: "nat \<Rightarrow> conn_event \<Rightarrow> forwarder \<Rightarrow> forwarder" where
  "conn_step i ev st =
    (if i < length (pf_conns st) then
       let c = pf_conns st ! i; (c1, m1) = forward_connection (pf_shutdown st) ev c (pf_mux st)
       in st\<lparr>pf_conns := (pf_conns st)[i := c1], pf_mux := m1,
             pf_permits := pf_permits st + (if is_over c1 \<and> \<not> is_over c then 1 else 0)\<rparr>
     else st)"

text \<open>The multiplexer goes when the loop and every connection have let go of it.\<close>

definition release_mux :: "forwarder \<Rightarrow> forwarder" where
  "release_mux st =
    (if pf_result st \<noteq> None \<and> list_all is_over (pf_conns st) then st\<lparr>pf_mux := mux_drop (pf_mux st)\<rparr> else st)"

datatype pf_op =
    FAccept "(unit, error) result option" | FConn nat conn_event | FShutdown | FSessionEnds close_reason
  | FRoute mux_frame | FTake | FKeepalive | FClose bool | FEnd | FRelease

fun pf_step :: "pf_op \<Rightarrow> forwarder \<Rightarrow> forwarder" where
  "pf_step (FAccept a) st = accept_step a st"
| "pf_step (FConn i ev) st = conn_step i ev st"
| "pf_step FShutdown st = st\<lparr>pf_shutdown := True\<rparr>"
| "pf_step (FSessionEnds r) st = st\<lparr>pf_session := sess_close r (pf_session st)\<rparr>"
| "pf_step (FRoute f) st = st\<lparr>pf_mux := handle_frame f (pf_mux st)\<rparr>"
| "pf_step FTake st = st\<lparr>pf_mux := mux_step MTake (pf_mux st)\<rparr>"
| "pf_step FKeepalive st =
    (if pf_keepalive (pf_config st) then st\<lparr>pf_mux := mux_step MKeepalive (pf_mux st)\<rparr> else st)"
| "pf_step (FClose desync) st = st\<lparr>pf_mux := mux_step (MClose desync) (pf_mux st)\<rparr>"
| "pf_step FEnd st = st\<lparr>pf_mux := mux_step MEnd (pf_mux st)\<rparr>"
| "pf_step FRelease st = release_mux st"

definition pf_run :: "pf_op list \<Rightarrow> forwarder \<Rightarrow> forwarder" where
  "pf_run ops st = fold pf_step ops st"

section \<open>The multiplexer's part of a run\<close>

text \<open>The calls on the multiplexer that a step makes: none or one.\<close>

fun running_calls :: "bool \<Rightarrow> conn_event \<Rightarrow> forwarded \<Rightarrow> mux_op list" where
  "running_calls sd CCancelled c = (if sd then [MDrop (fc_object c)] else [])"
| "running_calls sd CJoin c =
    (case (pipe_phase (fc_out c), pipe_phase (fc_in c)) of
       (Finished sent, Finished received) \<Rightarrow> [MDrop (fc_object c)]
     | _ \<Rightarrow> [])"
| "running_calls sd CWriteMux c =
    (if may_write (fc_out c) then [MWrite (fc_object c) (pipe_buf (fc_out c))] else [])"
| "running_calls sd CShutMux c = (if pipe_phase (fc_out c) = Closing then [MShut (fc_object c)] else [])"
| "running_calls sd CReadMux c =
    (if may_read (fc_in c) then [MRead (fc_object c) (COPY_BUF - length (pipe_buf (fc_in c)))] else [])"
| "running_calls sd _ c = []"

definition conn_calls :: "bool \<Rightarrow> conn_event \<Rightarrow> forwarded \<Rightarrow> mux_op list" where
  "conn_calls sd ev c =
    (case fc_phase c of Over _ \<Rightarrow> [] | Spawned \<Rightarrow> [MOpen] | Running \<Rightarrow> running_calls sd ev c)"

fun mux_calls :: "pf_op \<Rightarrow> forwarder \<Rightarrow> mux_op list" where
  "mux_calls (FConn i ev) st = (if i < length (pf_conns st) then conn_calls (pf_shutdown st) ev (pf_conns st ! i) else [])"
| "mux_calls (FRoute f) st = [MRoute f]"
| "mux_calls FTake st = [MTake]"
| "mux_calls FKeepalive st = (if pf_keepalive (pf_config st) then [MKeepalive] else [])"
| "mux_calls (FClose desync) st = [MClose desync]"
| "mux_calls FEnd st = [MEnd]"
| "mux_calls FRelease st =
    (if pf_result st \<noteq> None \<and> list_all is_over (pf_conns st) then [MClose False] else [])"
| "mux_calls _ st = []"

fun mux_trace :: "pf_op list \<Rightarrow> forwarder \<Rightarrow> mux_op list" where
  "mux_trace [] st = []"
| "mux_trace (op # ops) st = mux_calls op st @ mux_trace ops (pf_step op st)"

lemma mux_trace_snoc: "mux_trace (ops @ [op]) st = mux_trace ops st @ mux_calls op (pf_run ops st)"
  by (induction ops arbitrary: st) (simp_all add: pf_run_def)

lemma running_step_mux:
  "fc_object c < length (objects m) \<Longrightarrow> snd (running_step sd ev c m) = fold mux_step (running_calls sd ev c) m"
  by (cases ev) (auto simp: finish_connection_def Let_def split: poll.splits prod.splits result.splits pipe_phase.splits)

text \<open>A connection in order: nothing is lost or invented between its two ends.\<close>

definition pipe_ok :: "bytes \<Rightarrow> bytes \<Rightarrow> pipe \<Rightarrow> bool" where
  "pipe_ok src dst p \<longleftrightarrow> src = dst @ pipe_buf p \<and> pipe_copied p = length dst \<and> length (pipe_buf p) \<le> COPY_BUF
     \<and> (pipe_phase p = Closing \<longrightarrow> pipe_eof p \<and> pipe_buf p = [])
     \<and> (\<forall>n. pipe_phase p = Finished (Ok n) \<longrightarrow> pipe_eof p \<and> pipe_buf p = [] \<and> n = length dst)"

definition conn_ok :: "mux_inner \<Rightarrow> forwarded \<Rightarrow> bool" where
  "conn_ok m c \<longleftrightarrow> pipe_ok (fc_read c) (fc_sent c) (fc_out c) \<and> pipe_ok (fc_got c) (fc_written c) (fc_in c)
     \<and> (fc_phase c = Running \<longrightarrow> fc_opened c) \<and> (fc_phase c = Spawned \<longrightarrow> \<not> fc_opened c)
     \<and> (\<not> fc_opened c \<longrightarrow> fc_read c = [] \<and> fc_got c = [] \<and> pipe_phase (fc_out c) = Copying)
     \<and> (fc_opened c \<longrightarrow> fc_object c < length (objects m)
          \<and> (write_closed (objects m ! fc_object c) \<longrightarrow> (\<exists>n. pipe_phase (fc_out c) = Finished (Ok n))))
     \<and> (fc_shut c \<longrightarrow> (\<exists>n. pipe_phase (fc_in c) = Finished (Ok n)))"

lemma pipe_ok_new [simp]: "pipe_ok [] [] pipe_new"
  by (simp add: pipe_ok_def pipe_new_def)

lemma pipe_ok_fill:
  assumes "pipe_ok src dst p" and "may_read p"
    and "\<forall>bs. r = Inr bs \<longrightarrow> length bs \<le> COPY_BUF - length (pipe_buf p)"
  shows "pipe_ok (src @ (case r of Inl _ \<Rightarrow> [] | Inr bs \<Rightarrow> bs)) dst (pipe_fill r p)"
  using assms by (auto simp: pipe_ok_def pipe_fill_def may_read_def split: sum.splits)

lemma pipe_ok_drain:
  assumes "pipe_ok src dst p" and "may_write p"
  shows "pipe_ok src (dst @ (case r of Inl _ \<Rightarrow> [] | Inr k \<Rightarrow> take k (pipe_buf p))) (pipe_drain r p)"
  using assms by (auto simp: pipe_ok_def pipe_drain_def may_write_def split: sum.splits)

lemma pipe_ok_close:
  "pipe_ok src dst p \<Longrightarrow> pipe_phase p = Closing \<Longrightarrow> pipe_ok src dst (pipe_close r p)"
  by (auto simp: pipe_ok_def pipe_close_def split: sum.splits)

text \<open>What an operation of the multiplexer keeps of a stream that exists.\<close>

definition keeps_object :: "nat \<Rightarrow> mux_inner \<Rightarrow> mux_inner \<Rightarrow> bool" where
  "keeps_object i s s' \<longleftrightarrow> i < length (objects s') \<and> stream_id (objects s' ! i) = stream_id (objects s ! i)
     \<and> write_closed (objects s' ! i) = write_closed (objects s ! i)"

lemma keeps_object_trans: "keeps_object i s s' \<Longrightarrow> keeps_object i s' s'' \<Longrightarrow> keeps_object i s s''"
  by (simp add: keeps_object_def)

lemma keeps_object_update:
  assumes "i < length (objects s)"
    and "\<And>ob. stream_id (f ob) = stream_id ob" and "i = j \<Longrightarrow> (\<And>ob. write_closed (f ob) = write_closed ob)"
  shows "keeps_object i s (update_object j f s)"
  using assms by (simp add: keeps_object_def mux_frame_rules)

lemma keeps_object_table:
  assumes "i < length (objects s)"
  shows "keeps_object i s (s\<lparr>frame_queue := q\<rparr>)" and "keeps_object i s (queue_frame f s)"
    and "keeps_object i s (remove_stream sid s)" and "keeps_object i s s"
  using assms
  by (auto simp: keeps_object_def mux_frame_rules remove_stream_def queue_frame_def split: option.split)

lemma keeps_object_close:
  "mux_inv s \<Longrightarrow> i < length (objects s) \<Longrightarrow> keeps_object i s (inner_close r s)"
  by (auto simp: keeps_object_def inner_close_simps)

lemma keeps_object_route:
  assumes "i < length (objects s)"
  shows "keeps_object i s (handle_frame f s)"
proof -
  have "keeps_object i s (route_push sid pl s)" for sid pl
  proof (cases "map_of (streams s) sid")
    case (Some j)
    then show ?thesis
      using assms by (simp add: route_push_def keeps_object_def mux_frame_rules split: prod.split send_outcome.split)
  qed (use assms in \<open>simp add: route_push_def keeps_object_table\<close>)
  moreover have "keeps_object i s (route_fin sid s)" for sid
    using assms by (simp add: route_fin_def keeps_object_def mux_frame_rules split: option.split)
  ultimately show ?thesis using assms by (simp add: handle_frame_def keeps_object_table)
qed

lemma keeps_object_open:
  assumes "i < length (objects s)"
  shows "keeps_object i s (snd (open_stream s))"
proof -
  have "keeps_object i s (remove_stream (next_id s) s)" by (rule keeps_object_table [OF assms])
  then show ?thesis
    using assms by (auto simp: open_stream_def keeps_object_def Let_def nth_append remove_stream_simps(1)
        split: prod.split send_outcome.split)
qed

lemma keeps_object_step:
  assumes "mux_inv s" and "i < length (objects s)" and "op \<noteq> MShut i"
  shows "keeps_object i s (mux_step op s)"
proof (cases op)
  case (MRead j n)
  then show ?thesis
    using assms(2) by (cases j n s rule: poll_read_cases) (auto simp: hand_out_def Let_def keeps_object_def mux_frame_rules)
next
  case (MWrite j bs)
  then show ?thesis
    using assms(2) by (auto simp: poll_write_def Let_def keeps_object_table split: prod.split send_outcome.split)
next
  case (MShut j)
  then have "keeps_object i s (update_object j (\<lambda>ob. ob\<lparr>write_closed := True\<rparr>) s)"
    using assms(2,3) by (intro keeps_object_update) auto
  with MShut assms(2) show ?thesis
    by (auto simp: poll_shutdown_def Let_def keeps_object_table intro: keeps_object_trans keeps_object_table(1)
        split: prod.split send_outcome.split) (auto simp: keeps_object_def)
next
  case (MDrop j)
  then show ?thesis
    using assms(2) by (auto simp: smux_stream_drop_def Let_def keeps_object_def mux_frame_rules queue_frame_def
        remove_stream_def split: option.split)
next
  case MEnd
  with keeps_object_close [OF assms(1,2)] show ?thesis by (simp add: end_send_task_def keeps_object_def)
qed (use assms in \<open>simp_all add: keeps_object_route keeps_object_open keeps_object_close keeps_object_table
       keepalive_step_def split_beta\<close>)

lemma conn_ok_other:
  assumes "conn_ok m c" and "mux_inv m" and "op \<noteq> MShut (fc_object c) \<or> \<not> fc_opened c"
  shows "conn_ok (mux_step op m) c"
  using assms keeps_object_step [OF assms(2), of "fc_object c" op]
  by (auto simp: conn_ok_def keeps_object_def)

lemma open_stream_result:
  assumes "open_stream m = (r, m')"
  shows "r \<noteq> Panic \<and> (\<forall>i. r = Ok i \<longrightarrow> i = length (objects m) \<and> length (objects m') = Suc i
    \<and> \<not> write_closed (objects m' ! i) \<and> stream_id (objects m' ! i) = next_id m)"
  using assms
  by (auto simp: open_stream_def Let_def nth_append remove_stream_simps(1) split: prod.splits send_outcome.splits if_splits)

lemma poll_read_len: "poll_read i n m = (Ready bs, m') \<Longrightarrow> length bs \<le> n"
  by (cases i n m rule: poll_read_cases) (auto simp: hand_out_def Let_def)

lemma poll_write_len: "poll_write i bs m = (Ready (Ok n), m') \<Longrightarrow> n \<le> length bs"
  by (auto simp: poll_write_def Let_def split: if_splits prod.splits send_outcome.splits)

lemma poll_write_not_Panic: "poll_write i bs m \<noteq> (Ready Panic, m')"
  by (auto simp: poll_write_def Let_def split: if_splits prod.splits send_outcome.splits)

lemma conn_ok_out:
  assumes "conn_ok m c" and "fc_opened c" and "pipe_phase (fc_out c) = Copying" and "pipe_ok rd sent p"
  shows "conn_ok m (c\<lparr>fc_out := p, fc_read := rd, fc_sent := sent\<rparr>)"
  using assms by (auto simp: conn_ok_def)

lemma conn_ok_in:
  assumes "conn_ok m c" and "fc_opened c" and "pipe_phase (fc_in c) = Copying" and "pipe_ok got written p"
  shows "conn_ok m (c\<lparr>fc_in := p, fc_got := got, fc_written := written\<rparr>)"
  using assms by (auto simp: conn_ok_def)

text \<open>A poll of the running task.\<close>

lemma running_step_ok:
  assumes "conn_ok m c" and "fc_phase c = Running" and "mux_inv m"
  shows "conn_ok (snd (running_step sd ev c m)) (fst (running_step sd ev c m))"
proof -
  have ok: "pipe_ok (fc_read c) (fc_sent c) (fc_out c)" "pipe_ok (fc_got c) (fc_written c) (fc_in c)"
      "fc_opened c" "fc_object c < length (objects m)"
    using assms by (auto simp: conn_ok_def)
  have same: "conn_ok (mux_step op m) c" if "op \<noteq> MShut (fc_object c)" for op
    using conn_ok_other [OF assms(1,3)] that by blast
  show ?thesis
  proof (cases ev)
    case CCancelled
    then show ?thesis
      using assms same [of "MDrop (fc_object c)"] ok by (auto simp: finish_connection_def conn_ok_def)
  next
    case CJoin
    then show ?thesis
      using assms same [of "MDrop (fc_object c)"] ok
      by (auto simp: finish_connection_def conn_ok_def split: pipe_phase.split)
  next
    case (CReadTcp r)
    let ?r = "map_sum id (take (COPY_BUF - length (pipe_buf (fc_out c)))) r"
    show ?thesis
    proof (cases "may_read (fc_out c)")
      case True
      have "pipe_ok (fc_read c @ (case ?r of Inl _ \<Rightarrow> [] | Inr bs \<Rightarrow> bs)) (fc_sent c) (pipe_fill ?r (fc_out c))"
        using ok(1) True by (rule pipe_ok_fill) (auto simp: map_sum_def split: sum.splits)
      from conn_ok_out [OF assms(1) ok(3) _ this] show ?thesis
        using CReadTcp True by (simp add: may_read_def Let_def)
    qed (use CReadTcp assms in simp)
  next
    case CWriteMux
    show ?thesis
    proof (cases "may_write (fc_out c)")
      case True
      obtain r m1 where w: "poll_write (fc_object c) (pipe_buf (fc_out c)) m = (r, m1)" by fastforce
      have m1: "conn_ok m1 c" using same [of "MWrite (fc_object c) (pipe_buf (fc_out c))"] w ok(4) by simp
      have "pipe_ok (fc_read c) (fc_sent c @ (case q of Inl _ \<Rightarrow> [] | Inr k \<Rightarrow> take k (pipe_buf (fc_out c))))
          (pipe_drain q (fc_out c))" for q using ok(1) True by (rule pipe_ok_drain)
      from conn_ok_out [OF m1 ok(3) _ this [of "Inl _"]] conn_ok_out [OF m1 ok(3) _ this [of "Inr _"]]
      show ?thesis using CWriteMux True w m1 by (auto simp: may_write_def split: poll.split result.split)
    qed (use CWriteMux assms in simp)
  next
    case CShutMux
    show ?thesis
    proof (cases "pipe_phase (fc_out c) = Closing")
      case True
      then show ?thesis
        using CShutMux assms pipe_ok_close [OF ok(1) True, of "Inr ()"] ok
        by (auto simp: conn_ok_def poll_shutdown_def Let_def mux_frame_rules pipe_close_def
            split: poll.split prod.splits send_outcome.splits if_splits)
    qed (use CShutMux assms in simp)
  next
    case CReadMux
    show ?thesis
    proof (cases "may_read (fc_in c)")
      case True
      let ?n = "COPY_BUF - length (pipe_buf (fc_in c))"
      obtain r m1 where w: "poll_read (fc_object c) ?n m = (r, m1)" by fastforce
      have m1: "conn_ok m1 c" using same [of "MRead (fc_object c) ?n"] w ok(4) by simp
      have "pipe_ok (fc_got c @ bs) (fc_written c) (pipe_fill (Inr bs) (fc_in c))" if "r = Ready bs" for bs
        using pipe_ok_fill [OF ok(2) True, of "Inr bs"] poll_read_len w that by auto
      from conn_ok_in [OF m1 ok(3) _ this] show ?thesis
        using CReadMux True w m1 by (auto simp: may_read_def split: poll.split)
    qed (use CReadMux assms in simp)
  next
    case (CWriteTcp r)
    let ?r = "map_sum id (min (length (pipe_buf (fc_in c)))) r"
    show ?thesis
    proof (cases "may_write (fc_in c)")
      case True
      from conn_ok_in [OF assms(1) ok(3) _ pipe_ok_drain [OF ok(2) True, of ?r]] show ?thesis
        using CWriteTcp True by (simp add: may_write_def Let_def)
    qed (use CWriteTcp assms in simp)
  next
    case (CShutTcp r)
    show ?thesis
    proof (cases "pipe_phase (fc_in c) = Closing")
      case True
      from pipe_ok_close [OF ok(2) True, of r] show ?thesis
        using CShutTcp True assms by (auto simp: conn_ok_def pipe_close_def split: sum.split)
    qed (use CShutTcp assms in simp)
  qed (use assms in simp)
qed

lemma running_effect:
  fixes sd :: bool and ev :: conn_event
  assumes "conn_ok m c" and "fc_phase c = Running"
  defines "c' \<equiv> fst (running_step sd ev c m)" and "calls \<equiv> running_calls sd ev c"
  shows "fc_got c' = fc_got c @ concat (map (\<lambda>op. reads (fc_object c) op m) calls)
    \<and> fc_sent c' = fc_sent c @ concat (map (\<lambda>op. accepts (stream_id (objects m ! fc_object c)) op m) calls)
    \<and> fc_object c' = fc_object c \<and> fc_opened c' = fc_opened c \<and> fc_phase c' \<noteq> Spawned
    \<and> MOpen \<notin> set calls \<and> length calls \<le> 1
    \<and> (\<forall>op \<in> set calls. (\<forall>i. i \<noteq> fc_object c \<longrightarrow> reads i op m = [] \<and> op \<noteq> MShut i)
         \<and> (\<forall>sid. sid \<noteq> stream_id (objects m ! fc_object c) \<longrightarrow> accepts sid op m = []))"
proof -
  have obj: "fc_object c < length (objects m)" using assms(1,2) by (simp add: conn_ok_def)
  show ?thesis
  proof (cases ev)
    case CWriteMux
    then show ?thesis
      using obj assms(2) by (auto simp: c'_def calls_def split: poll.split result.split prod.split)
  next
    case CReadMux
    then show ?thesis using obj assms(2) by (auto simp: c'_def calls_def split: poll.split prod.split)
  next
    case CShutMux
    then show ?thesis using obj assms(2) by (auto simp: c'_def calls_def split: poll.split prod.split)
  qed (auto simp: c'_def calls_def assms(2) finish_connection_def Let_def split: pipe_phase.split)
qed

section \<open>The forwarder's invariant\<close>

definition active_connections :: "forwarder \<Rightarrow> nat" where
  "active_connections st = length (filter (\<lambda>c. \<not> is_over c) (pf_conns st))"

definition own_objects :: "forwarded list \<Rightarrow> bool" where
  "own_objects cs \<longleftrightarrow> (\<forall>i < length cs. \<forall>j < length cs. i \<noteq> j \<and> fc_opened (cs ! i) \<and> fc_opened (cs ! j)
     \<longrightarrow> fc_object (cs ! i) \<noteq> fc_object (cs ! j))"

definition pf_inv :: "forwarder \<Rightarrow> bool" where
  "pf_inv st \<longleftrightarrow> mux_inv (pf_mux st) \<and> (\<forall>i < length (pf_conns st). conn_ok (pf_mux st) (pf_conns st ! i))
     \<and> own_objects (pf_conns st)
     \<and> active_connections st + pf_permits st = pf_max_connections (pf_config st)"

lemma is_over_phases [simp]:
  "fc_phase c = Spawned \<Longrightarrow> \<not> is_over c" "fc_phase c = Running \<Longrightarrow> \<not> is_over c" "fc_phase c = Over r \<Longrightarrow> is_over c"
  by (simp_all add: is_over_def)

lemma length_filter_update:
  "i < length xs \<Longrightarrow> length (filter P (xs[i := y])) + (if P (xs ! i) then 1 else 0)
    = length (filter P xs) + (if P y then 1 else 0)"
proof (induction xs arbitrary: i)
  case (Cons x xs)
  then show ?case by (cases i) auto
qed simp

text \<open>The task of a connection keeps it in order, whatever it does to the multiplexer.\<close>

lemma forward_connection_ok:
  assumes "conn_ok m c" and "mux_inv m" and "forward_connection sd ev c m = (c', m')"
  shows "m' = fold mux_step (conn_calls sd ev c) m" and "conn_ok m' c'"
    and "is_over c \<Longrightarrow> c' = c" and "fc_opened c \<Longrightarrow> fc_opened c' \<and> fc_object c' = fc_object c"
    and "\<not> fc_opened c \<Longrightarrow> fc_opened c' \<Longrightarrow> fc_object c' = length (objects m)"
proof -
  have obj: "fc_phase c = Running \<Longrightarrow> fc_object c < length (objects m) \<and> fc_opened c"
    using assms(1) by (simp add: conn_ok_def)
  show calls: "m' = fold mux_step (conn_calls sd ev c) m"
  proof (cases "fc_phase c")
    case Running
    then show ?thesis
      using assms(3) running_step_mux [of c m sd ev] obj by (auto simp: forward_connection_def conn_calls_def)
  qed (use assms(3) in \<open>auto simp: forward_connection_def conn_calls_def split: prod.splits result.splits\<close>)
  show "conn_ok m' c'"
  proof (cases "fc_phase c")
    case Spawned
    obtain r m1 where o: "open_stream m = (r, m1)" by fastforce
    have "conn_ok m1 c" using conn_ok_other [OF assms(1,2), of MOpen] o by simp
    with Spawned o assms(3) open_stream_result [OF o] show ?thesis
      by (auto simp: forward_connection_def conn_ok_def split: result.splits)
  next
    case Running
    then show ?thesis
      using running_step_ok [OF assms(1) _ assms(2), of sd ev] assms(3) by (simp add: forward_connection_def)
  qed (use assms in \<open>simp add: forward_connection_def\<close>)
  show "c' = c" if "is_over c"
    using that assms(3) by (auto simp: forward_connection_def is_over_def split: forwarded_phase.splits)
  show "fc_opened c' \<and> fc_object c' = fc_object c" if "fc_opened c"
    using that assms running_effect [OF assms(1), of sd ev]
    by (auto simp: forward_connection_def conn_ok_def split: forwarded_phase.splits)
  show "fc_object c' = length (objects m)" if "\<not> fc_opened c" "fc_opened c'"
    using that assms open_stream_result [of m]
    by (auto simp: forward_connection_def conn_ok_def split: forwarded_phase.splits prod.splits result.splits)
qed

lemma conn_calls_short: "length (conn_calls sd ev c) \<le> 1"
  by (cases ev) (auto simp: conn_calls_def split: forwarded_phase.split pipe_phase.split)

lemma conn_calls_other:
  assumes "conn_ok m c" and "conn_ok m d" and "fc_opened c" and "fc_opened d \<longrightarrow> fc_object d \<noteq> fc_object c"
    and "op \<in> set (conn_calls sd ev d)"
  shows "reads (fc_object c) op m = [] \<and> op \<noteq> MShut (fc_object c)
    \<and> (distinct (map stream_id (objects m)) \<longrightarrow> accepts (stream_id (objects m ! fc_object c)) op m = [])"
proof (cases "fc_phase d")
  case Running
  then have "fc_opened d" "fc_object d < length (objects m)" "fc_object c < length (objects m)"
    using assms(1-3) by (auto simp: conn_ok_def)
  moreover from this have "distinct (map stream_id (objects m)) \<Longrightarrow>
      stream_id (objects m ! fc_object c) \<noteq> stream_id (objects m ! fc_object d)"
    using assms(4) by (auto simp: distinct_conv_nth)
  ultimately show ?thesis
    using running_effect [OF assms(2) Running, of sd ev] assms(4,5) Running by (auto simp: conn_calls_def)
qed (use assms(5) in \<open>auto simp: conn_calls_def\<close>)

lemma own_objects_update:
  assumes "own_objects cs" and "i < length cs"
    and "\<And>j. j < length cs \<Longrightarrow> fc_opened (cs ! j) \<Longrightarrow> fc_object (cs ! j) < n"
    and "fc_opened (cs ! i) \<Longrightarrow> fc_opened c \<and> fc_object c = fc_object (cs ! i)"
    and "\<not> fc_opened (cs ! i) \<Longrightarrow> fc_opened c \<Longrightarrow> fc_object c = n"
  shows "own_objects (cs[i := c])"
proof -
  have "fc_object c \<noteq> fc_object (cs ! j)" if "j < length cs" "j \<noteq> i" "fc_opened c" "fc_opened (cs ! j)" for j
    using assms that unfolding own_objects_def by (metis less_irrefl)
  then show ?thesis using assms(1,2) unfolding own_objects_def by (auto simp: nth_update_at) metis
qed

lemma pf_inv_conn:
  assumes "pf_inv st"
  shows "pf_inv (conn_step i ev st)"
proof (cases "i < length (pf_conns st)")
  case True
  let ?c = "pf_conns st ! i" and ?sd = "pf_shutdown st" and ?m = "pf_mux st"
  obtain c' m' where f: "forward_connection ?sd ev ?c ?m = (c', m')" by fastforce
  have inv: "conn_ok ?m ?c" "mux_inv ?m" "\<And>j. j < length (pf_conns st) \<Longrightarrow> conn_ok ?m (pf_conns st ! j)"
    using assms True by (auto simp: pf_inv_def)
  note step = forward_connection_ok [OF inv(1,2) f]
  consider "conn_calls ?sd ev ?c = []" | op where "conn_calls ?sd ev ?c = [op]"
    using conn_calls_short [of ?sd ev ?c] by (cases "conn_calls ?sd ev ?c") auto
  then have m': "mux_inv m' \<and> (\<forall>j < length (pf_conns st). j \<noteq> i \<longrightarrow> conn_ok m' (pf_conns st ! j))"
  proof cases
    case (2 op)
    have "conn_ok (mux_step op ?m) (pf_conns st ! j)" if "j < length (pf_conns st)" "j \<noteq> i" for j
    proof (rule conn_ok_other [OF inv(3) [OF that(1)] inv(2)])
      show "op \<noteq> MShut (fc_object (pf_conns st ! j)) \<or> \<not> fc_opened (pf_conns st ! j)"
        using conn_calls_other [OF inv(3) [OF that(1)] inv(1), of op ?sd ev] 2 that True assms
        unfolding pf_inv_def own_objects_def by (metis list.set_intros(1))
    qed
    then show ?thesis using 2 step(1) mux_inv_step [OF inv(2)] by simp
  qed (use inv step(1) in simp)
  have fresh: "fc_object (pf_conns st ! j) < length (objects ?m)"
    if "j < length (pf_conns st)" "fc_opened (pf_conns st ! j)" for j
    using inv(3) that by (simp add: conn_ok_def)
  have "length (filter (\<lambda>c. \<not> is_over c) ((pf_conns st)[i := c'])) + (if is_over ?c then 0 else 1)
      = active_connections st + (if is_over c' then 0 else 1)"
    using length_filter_update [OF True, of "\<lambda>c. \<not> is_over c" c']
    by (simp add: active_connections_def split: if_splits)
  moreover have "is_over ?c \<Longrightarrow> is_over c'" using step(3) by auto
  moreover have "active_connections st + pf_permits st = pf_max_connections (pf_config st)"
    using assms by (simp add: pf_inv_def)
  ultimately have "length (filter (\<lambda>c. \<not> is_over c) ((pf_conns st)[i := c']))
      + (pf_permits st + (if is_over c' \<and> \<not> is_over ?c then 1 else 0)) = pf_max_connections (pf_config st)"
    by (simp split: if_splits)
  moreover have "own_objects ((pf_conns st)[i := c'])"
    using assms True fresh step(4,5) by (intro own_objects_update) (auto simp: pf_inv_def)
  moreover have "\<forall>j < length (pf_conns st). conn_ok m' ((pf_conns st)[i := c'] ! j)"
    using m' step(2) True by (simp add: nth_update_at)
  ultimately show ?thesis
    using True f m' by (simp add: conn_step_def pf_inv_def active_connections_def)
qed (use assms in \<open>simp add: conn_step_def\<close>)

lemma pf_inv_accept:
  assumes "pf_inv st"
  shows "pf_inv (accept_step a st)"
proof -
  have "conn_ok m forwarded_new" for m by (simp add: conn_ok_def forwarded_new_def pipe_new_def pipe_ok_def)
  then have "pf_inv (st\<lparr>pf_permits := pf_permits st - 1, pf_conns := pf_conns st @ [forwarded_new]\<rparr>)"
    if "pf_permits st \<noteq> 0"
    using assms that
    by (auto simp: pf_inv_def own_objects_def active_connections_def nth_append less_Suc_eq forwarded_new_def is_over_def)
  then show ?thesis
    using assms by (auto simp: accept_step_def pf_inv_def active_connections_def split: option.split result.split)
qed

lemma pf_inv_mux:
  assumes "pf_inv st" and "\<forall>i. op \<noteq> MShut i"
  shows "pf_inv (st\<lparr>pf_mux := mux_step op (pf_mux st)\<rparr>)"
  using assms by (auto simp: pf_inv_def mux_inv_step conn_ok_other active_connections_def)

lemma pf_inv_step: "pf_inv st \<Longrightarrow> pf_inv (pf_step op st)"
proof (cases op)
  case (FRoute f)
  then show "pf_inv st \<Longrightarrow> ?thesis" using pf_inv_mux [of st "MRoute f"] by simp
next
  case FRelease
  then show "pf_inv st \<Longrightarrow> ?thesis"
    using pf_inv_mux [of st "MClose False"] by (simp add: release_mux_def mux_drop_def)
qed (auto simp: pf_inv_conn pf_inv_accept pf_inv_mux simp del: mux_step.simps,
     auto simp: pf_inv_def active_connections_def)

interpretation fw: machine pf_step pf_inv
  by unfold_locales (rule pf_inv_step)

lemma pf_inv_run: "pf_inv st \<Longrightarrow> pf_inv (pf_run ops st)"
  unfolding pf_run_def by (rule fw.run_inv)

lemma forward_start_inv:
  "forward_start config s sd expired = Done (Ok (Some st)) \<Longrightarrow> pf_inv st \<and> pf_mux st = mux_new \<and> pf_conns st = []
     \<and> pf_config st = config"
  using mux_inv_new
  by (auto simp: forward_start_def pf_inv_def own_objects_def active_connections_def split: if_splits io.splits result.splits)

lemma pf_step_config: "pf_config (pf_step op u) = pf_config u"
  by (cases op) (auto simp: accept_step_def conn_step_def release_mux_def split_beta Let_def
      split: option.split result.split)

interpretation fw_config: constant_part pf_step pf_config
  by unfold_locales (rule pf_step_config)

lemma pf_run_config: "pf_config (pf_run ops u) = pf_config u"
  unfolding pf_run_def by (rule fw_config.run_keeps)

section \<open>Properties\<close>

definition toy_port_session :: session where
  "toy_port_session = \<lparr>chan = toy_reader\<lparr>core := (core_new ''s-1'' 4)\<lparr>is_sendable := True\<rparr>\<rparr>,
     sess_config = toy_config\<lparr>cfg_document := Some (document_spec_new (PortForwardingSession 80))\<rparr>,
     sess_ssm = True, sess_tasks = 5\<rparr>"

definition toy_forwarder :: forwarder where
  "toy_forwarder = \<lparr>pf_config = port_forward_config_default\<lparr>pf_max_connections := 1\<rparr>, pf_session = toy_port_session,
     pf_mux = mux_new, pf_permits = 1, pf_conns = [], pf_refused = 0, pf_shutdown = False, pf_result = None\<rparr>"

lemma toy_forward_start:
  "forward_start (port_forward_config_default\<lparr>pf_max_connections := 1\<rparr>) toy_port_session False False
    = Done (Ok (Some toy_forwarder))"
  by (simp add: forward_start_def MAX_PERMITS_def toy_forwarder_def toy_port_session_def config_session_type_def
      document_spec_new_def wait_ready_def toy_config_def config_new_def core_new_def)

text \<open>
  (C25) The limit on connections. However connections arrive, run and end, the connections that are
  being forwarded and the free permits add up to the configured limit, so there are never more
  connections than it allows; a connection that arrives when the limit is reached is refused and
  changes nothing else, and one that arrives below it is taken.
\<close>

theorem connection_limit_holds:
  assumes "forward_start config s sd expired = Done (Ok (Some st0))" and "st = pf_run ops st0"
  shows "active_connections st + pf_permits st = pf_max_connections config
    \<and> active_connections st \<le> pf_max_connections config
    \<and> (pf_result st = None \<and> \<not> pf_shutdown st \<and> \<not> sess_closed (pf_session st) \<longrightarrow>
        accept_step (Some (Ok ())) st =
          (if active_connections st = pf_max_connections config then st\<lparr>pf_refused := pf_refused st + 1\<rparr>
           else st\<lparr>pf_permits := pf_permits st - 1, pf_conns := pf_conns st @ [forwarded_new]\<rparr>))"
proof -
  have "pf_config (pf_run ops u) = pf_config u" for u by (rule pf_run_config)
  moreover have "pf_inv st" using forward_start_inv [OF assms(1)] pf_inv_run assms(2) by blast
  ultimately have "active_connections st + pf_permits st = pf_max_connections config"
    using forward_start_inv [OF assms(1)] assms(2) by (simp add: pf_inv_def)
  then show ?thesis by (auto simp: accept_step_def)
qed

theorem connection_limit_holds_witness:
  "active_connections (pf_run [FAccept (Some (Ok ())), FAccept (Some (Ok ()))] toy_forwarder) = 1
    \<and> pf_refused (pf_run [FAccept (Some (Ok ())), FAccept (Some (Ok ()))] toy_forwarder) = 1"
proof -
  have "active_connections (pf_run [FAccept (Some (Ok ())), FAccept (Some (Ok ()))] toy_forwarder) \<le> 1"
    using connection_limit_holds [OF toy_forward_start refl] by simp
  then show ?thesis
    by (simp add: pf_run_def accept_step_def toy_forwarder_def toy_port_session_def core_new_def
        active_connections_def forwarded_new_def is_over_def)
qed

text \<open>Every connection's task is polled twice: a task that has not opened its stream yet does so first.\<close>

definition wind_down :: "forwarder \<Rightarrow> forwarder" where
  "wind_down st = fold (\<lambda>i u. conn_step i CCancelled (conn_step i CCancelled u)) [0..<length (pf_conns st)] st"

lemma conn_step_simps [simp]:
  "length (pf_conns (conn_step i ev st)) = length (pf_conns st)" "pf_shutdown (conn_step i ev st) = pf_shutdown st"
  "pf_result (conn_step i ev st) = pf_result st" "pf_config (conn_step i ev st) = pf_config st"
  by (simp_all add: conn_step_def split_beta Let_def)

lemma conn_step_over:
  "j < length (pf_conns st) \<Longrightarrow> is_over (pf_conns st ! j) \<Longrightarrow> is_over (pf_conns (conn_step i ev st) ! j)"
  by (auto simp: conn_step_def split_beta Let_def nth_update_at forward_connection_def is_over_def
      split: forwarded_phase.splits)

lemma cancelled_twice_over:
  assumes "pf_shutdown st" and "i < length (pf_conns st)"
  shows "is_over (pf_conns (conn_step i CCancelled (conn_step i CCancelled st)) ! i)"
proof -
  have "fc_phase (pf_conns (conn_step i CCancelled u) ! i) \<noteq> Spawned" if "i < length (pf_conns u)" for u
    using that
    by (auto simp: conn_step_def split_beta Let_def forward_connection_def finish_connection_def
        split: forwarded_phase.splits prod.splits result.splits)
  moreover have "is_over (pf_conns (conn_step i CCancelled u) ! i)"
    if "i < length (pf_conns u)" "pf_shutdown u" "fc_phase (pf_conns u ! i) \<noteq> Spawned" for u
    using that by (auto simp: conn_step_def split_beta Let_def forward_connection_def finish_connection_def
        is_over_def split: forwarded_phase.splits)
  ultimately show ?thesis using assms by simp
qed

lemma wind_down_upto:
  assumes "pf_shutdown st" and "pf_inv st" and "n \<le> length (pf_conns st)"
  defines "u \<equiv> fold (\<lambda>i u. conn_step i CCancelled (conn_step i CCancelled u)) [0..<n] st"
  shows "pf_inv u \<and> length (pf_conns u) = length (pf_conns st) \<and> pf_shutdown u \<and> pf_result u = pf_result st
    \<and> pf_config u = pf_config st \<and> (\<forall>i < n. is_over (pf_conns u ! i))"
  using assms(3) unfolding u_def
proof (induction n)
  case (Suc n)
  let ?u = "fold (\<lambda>i u. conn_step i CCancelled (conn_step i CCancelled u)) [0..<n] st"
  have ih: "pf_inv ?u" "length (pf_conns ?u) = length (pf_conns st)" "pf_shutdown ?u" "pf_result ?u = pf_result st"
      "pf_config ?u = pf_config st" "\<forall>i < n. is_over (pf_conns ?u ! i)"
    using Suc by auto
  have "is_over (pf_conns (conn_step n CCancelled (conn_step n CCancelled ?u)) ! i)" if "i < Suc n" for i
    using that ih Suc.prems cancelled_twice_over [of ?u n] by (cases "i = n") (simp_all add: conn_step_over)
  with ih show ?case by (simp add: pf_inv_conn)
qed (use assms in simp)

text \<open>
  (C26) The end of the tunnel. The accept loop is only entered with a session that was started for port
  forwarding and is ready. From every state that the forwarder can reach: once the
  shutdown signal is up or the session has ended, the next round of the accept loop returns without
  an error and without taking a connection, and raises the signal; when the task of every connection
  has been polled, all of them have ended, all permits are back, and the multiplexer is closed.
\<close>

theorem forwarding_ends_with_session:
  assumes "forward_start config s sd expired = Done (Ok (Some st0))" and "st = pf_run ops st0"
    and "pf_result st = None" and "pf_shutdown st \<or> sess_closed (pf_session st)"
  shows "config_session_type (sess_config s) = session_type.Port \<and> is_sendable (sess_core s)
    \<and> (let st' = pf_step FRelease (wind_down (accept_step accepted st))
       in pf_result st' = Some (Ok ()) \<and> pf_shutdown st' \<and> length (pf_conns st') = length (pf_conns st)
         \<and> list_all is_over (pf_conns st') \<and> pf_permits st' = pf_max_connections config \<and> mux_closed (pf_mux st'))"
proof -
  let ?st1 = "accept_step accepted st"
  have st1: "?st1 = st\<lparr>pf_shutdown := True, pf_result := Some (Ok ())\<rparr>"
    using assms(3,4) by (auto simp: accept_step_def)
  have "pf_inv st" "pf_config st = config"
    using forward_start_inv [OF assms(1)] pf_inv_run pf_run_config assms(2) by auto
  then have inv1: "pf_inv ?st1" and cfg: "pf_config ?st1 = config"
    using pf_inv_accept [of st accepted] by (simp_all add: st1)
  note wd = wind_down_upto [OF _ inv1 order_refl, folded wind_down_def]
  have over: "list_all is_over (pf_conns (wind_down ?st1))" using wd by (simp add: st1 list_all_length)
  then have "filter (\<lambda>c. \<not> is_over c) (pf_conns (wind_down ?st1)) = []"
    by (simp add: filter_empty_conv list_all_iff)
  then have "pf_permits (wind_down ?st1) = pf_max_connections config"
    using wd cfg by (auto simp: st1 pf_inv_def active_connections_def)
  moreover have "mux_closed (mux_drop m)" for m by (simp add: mux_drop_def inner_close_def)
  ultimately show ?thesis
    using wd over assms(1)
    by (auto simp: st1 release_mux_def Let_def forward_start_def wait_ready_def split: if_splits io.splits result.splits)
qed

theorem forwarding_ends_with_session_witness:
  "let st = pf_run [FAccept (Some (Ok ())), FConn 0 CStart, FSessionEnds Terminated] toy_forwarder;
       st' = pf_step FRelease (wind_down (accept_step None st))
   in active_connections st = 1 \<and> pf_permits st' = 1 \<and> mux_closed (pf_mux st')"
proof -
  let ?st = "pf_run [FAccept (Some (Ok ())), FConn 0 CStart, FSessionEnds Terminated] toy_forwarder"
  have st: "pf_result ?st = None" "pf_shutdown ?st \<or> sess_closed (pf_session ?st)"
    by (simp_all add: pf_run_def accept_step_def conn_step_def toy_forwarder_def toy_port_session_def core_new_def
        sess_close_def split_beta Let_def)
  have "active_connections ?st = 1"
    by (simp add: pf_run_def accept_step_def conn_step_def toy_forwarder_def toy_port_session_def core_new_def
        forward_connection_def open_stream_def mux_new_def remove_stream_def try_send_def new_channel_def
        FRAME_QUEUE_DEPTH_def active_connections_def is_over_def forwarded_new_def Let_def)
  then show ?thesis
    using forwarding_ends_with_session [OF toy_forward_start refl st, where accepted = None] by (simp add: Let_def)
qed

text \<open>
  A client that resets its connection: the direction towards the agent ends with the error and without
  shutting its stream down, and the task goes on waiting for the other direction. As long as the
  agent sends nothing, the stream stays open on both sides and the permit is held.
\<close>

theorem reset_client_holds_permit:
  assumes "conn_ok m c" and "fc_phase c = Running" and "may_read (fc_out c)" and "may_read (fc_in c)"
    and "poll_read (fc_object c) (COPY_BUF - length (pipe_buf (fc_in c))) m = (Pending, m)"
    and "pipe_buf (fc_in c) = []"
    and "ev \<noteq> CCancelled"
  shows "let (c1, m1) = running_step False (CReadTcp (Inl e)) c m; (c2, m2) = running_step False ev c1 m1
    in pipe_phase (fc_out c1) = Finished (Err e) \<and> \<not> write_closed (objects m1 ! fc_object c1)
      \<and> c2 = c1 \<and> m2 = m \<and> \<not> is_over c2"
  using assms
  by (cases ev) (auto simp: pipe_fill_def may_read_def may_write_def conn_ok_def Let_def)

end
