(* ===== verification/Tunnel.thy ===== *)
theory Tunnel
  imports Port_Forward
begin

text \<open>
  End to end through \<^verbatim>\<open>src/port_forward.rs\<close> and \<^verbatim>\<open>src/mux.rs\<close>: the bytes of a forwarded connection, from the
  local socket to the frames that the multiplexer hands to the session, and back. The calls that
  the connections make on the multiplexer are put beside those that the multiplexer has seen.
\<close>

section \<open>The bytes of a connection\<close>

lemma mux_run_snoc:
  "mux_run i (tr @ [op]) s = (let (a, g, s1) = mux_run i tr s in (a @ arrives i op s1, g @ reads i op s1, mux_step op s1))"
  by (induction tr arbitrary: s) (simp_all add: split_beta Let_def)

lemma send_run_snoc:
  "send_run sid (tr @ [op]) s = (let (a, out, s1) = send_run sid tr s in (a @ accepts sid op s1, out @ takes op s1, mux_step op s1))"
  by (induction tr arbitrary: s) (simp_all add: split_beta Let_def)

definition opens :: "mux_op list \<Rightarrow> nat" where
  "opens tr = length (filter ((=) MOpen) tr)"

definition started :: "forwarder \<Rightarrow> nat" where
  "started st = length (filter (\<lambda>c. fc_phase c \<noteq> Spawned) (pf_conns st))"

text \<open>What the multiplexer has seen, \<open>tr\<close>, agrees with what the connections did.\<close>

definition traced :: "mux_op list \<Rightarrow> forwarder \<Rightarrow> bool" where
  "traced tr st \<longleftrightarrow> (\<forall>i. snd (snd (mux_run i tr mux_new)) = pf_mux st)
     \<and> (\<forall>sid. snd (snd (send_run sid tr mux_new)) = pf_mux st)
     \<and> opens tr \<le> started st
     \<and> (\<forall>c \<in> set (pf_conns st). fc_opened c \<longrightarrow> fst (snd (mux_run (fc_object c) tr mux_new)) = fc_got c)
     \<and> (\<forall>c \<in> set (pf_conns st). fc_opened c \<longrightarrow>
          fst (send_run (stream_id (objects (pf_mux st) ! fc_object c)) tr mux_new) = fc_sent c)
     \<and> (\<forall>sid. sid \<notin> stream_id ` set (objects (pf_mux st)) \<longrightarrow> fst (send_run sid tr mux_new) = [])"

text \<open>A call that no connection makes, or that another one makes.\<close>

lemma traced_ids:
  assumes "traced tr st" and "opens tr \<le> 2 ^ 31"
  shows "distinct (map stream_id (objects (pf_mux st)))"
proof -
  have "ids_ok 0 mux_new" by (simp add: ids_ok_def mux_new_def)
  from ids_ok_run [OF this mux_inv_new, of tr 0] obtain k where "k \<le> opens tr" "ids_ok k (pf_mux st)"
    using assms(1) by (auto simp: traced_def opens_def)
  then show ?thesis using ids_ok_distinct assms(2) le_trans by blast
qed

lemma unread_object:
  assumes "traced tr st" and "mux_inv (pf_mux st)" and "length (objects (pf_mux st)) \<le> i"
  shows "fst (snd (mux_run i tr mux_new)) = []"
proof -
  obtain a g s where run: "mux_run i tr mux_new = (a, g, s)" by (metis prod_cases3)
  have "log_ok i ([] @ a) ([] @ g) s"
    by (rule log_ok_run [OF mux_inv_new _ run]) (simp add: log_ok_def mux_new_def)
  moreover have "s = pf_mux st" using assms(1) run by (metis snd_conv traced_def)
  ultimately show ?thesis using run assms(3) by (simp add: log_ok_def)
qed

lemma accepts_known: "accepts sid op m \<noteq> [] \<Longrightarrow> sid \<in> stream_id ` set (objects m)"
  by (cases op) (auto split: if_splits)

lemma ids_grow:
  assumes "mux_inv m"
  shows "stream_id ` set (objects m) \<subseteq> stream_id ` set (objects (mux_step op m))"
proof
  fix sid assume "sid \<in> stream_id ` set (objects m)"
  then obtain i where i: "i < length (objects m)" "stream_id (objects m ! i) = sid" by (auto simp: in_set_conv_nth)
  have "i < length (objects (mux_step op m)) \<and> stream_id (objects (mux_step op m) ! i) = sid"
  proof (cases "op = MShut i")
    case True
    then show ?thesis using i by (auto simp: poll_shutdown_def Let_def mux_frame_rules split: prod.split send_outcome.split)
  qed (use keeps_object_step [OF assms i(1), of op] i in \<open>simp add: keeps_object_def\<close>)
  then show "sid \<in> stream_id ` set (objects (mux_step op m))" by (metis image_eqI nth_mem)
qed

text \<open>One more call of the multiplexer, after which the connections are \<open>cs\<close>.\<close>

lemma traced_call:
  assumes "traced tr st" and "mux_inv (pf_mux st)"
    and "opens [op] + started st \<le> started (st\<lparr>pf_conns := cs\<rparr>)"
    and "\<And>c. c \<in> set cs \<Longrightarrow> fc_opened c \<Longrightarrow>
      fst (snd (mux_run (fc_object c) tr mux_new)) @ reads (fc_object c) op (pf_mux st) = fc_got c
      \<and> (let sid = stream_id (objects (mux_step op (pf_mux st)) ! fc_object c)
         in fst (send_run sid tr mux_new) @ accepts sid op (pf_mux st) = fc_sent c)"
  shows "traced (tr @ [op]) (st\<lparr>pf_conns := cs, pf_mux := mux_step op (pf_mux st)\<rparr>)"
proof -
  have run: "mux_run i (tr @ [op]) mux_new = (fst (mux_run i tr mux_new) @ arrives i op (pf_mux st),
      fst (snd (mux_run i tr mux_new)) @ reads i op (pf_mux st), mux_step op (pf_mux st))" for i
    using assms(1) by (simp add: mux_run_snoc traced_def split_beta Let_def)
  have send: "send_run sid (tr @ [op]) mux_new = (fst (send_run sid tr mux_new) @ accepts sid op (pf_mux st),
      fst (snd (send_run sid tr mux_new)) @ takes op (pf_mux st), mux_step op (pf_mux st))" for sid
    using assms(1) by (simp add: send_run_snoc traced_def split_beta Let_def)
  have "fst (send_run sid tr mux_new) @ accepts sid op (pf_mux st) = []"
    if "sid \<notin> stream_id ` set (objects (mux_step op (pf_mux st)))" for sid
    using that ids_grow [OF assms(2), of op] accepts_known [of sid op "pf_mux st"] assms(1)
    unfolding traced_def by blast
  moreover have "opens (tr @ [op]) \<le> started (st\<lparr>pf_conns := cs\<rparr>)"
    using assms(1,3) by (simp add: traced_def opens_def)
  ultimately show ?thesis
    using assms(4) unfolding traced_def run send by (auto simp: started_def Let_def)
qed

lemma stream_id_step:
  assumes "mux_inv m" and "i < length (objects m)"
  shows "i < length (objects (mux_step op m))" and "stream_id (objects (mux_step op m) ! i) = stream_id (objects m ! i)"
proof -
  have "i < length (objects (mux_step op m)) \<and> stream_id (objects (mux_step op m) ! i) = stream_id (objects m ! i)"
  proof (cases "op = MShut i")
    case True
    then show ?thesis
      using assms by (auto simp: poll_shutdown_def Let_def mux_frame_rules split: prod.split send_outcome.split)
  qed (use keeps_object_step [OF assms, of op] in \<open>simp add: keeps_object_def\<close>)
  then show "i < length (objects (mux_step op m))"
    and "stream_id (objects (mux_step op m) ! i) = stream_id (objects m ! i)" by simp_all
qed

lemma traced_ids_after:
  assumes "traced tr st" and "opens (tr @ [op]) \<le> 2 ^ 31"
  shows "distinct (map stream_id (objects (mux_step op (pf_mux st))))"
proof -
  have "ids_ok 0 mux_new" by (simp add: ids_ok_def mux_new_def)
  from ids_ok_run [OF this mux_inv_new, of "tr @ [op]" 0] obtain k
    where "k \<le> opens (tr @ [op])" "ids_ok k (mux_step op (pf_mux st))"
    using assms(1) by (auto simp: traced_def opens_def mux_run_snoc split_beta Let_def)
  then show ?thesis using ids_ok_distinct assms(2) le_trans by blast
qed

text \<open>A new stream has a history of its own.\<close>

lemma traced_fresh:
  assumes "traced tr st" and "mux_inv (pf_mux st)" and "opens (tr @ [MOpen]) \<le> 2 ^ 31"
    and "open_stream (pf_mux st) = (Ok i, m')"
  shows "fst (snd (mux_run i tr mux_new)) = []" and "fst (send_run (stream_id (objects m' ! i)) tr mux_new) = []"
proof -
  let ?m = "pf_mux st"
  have i: "i = length (objects ?m)" "length (objects m') = Suc i" using open_stream_result [OF assms(4)] by auto
  show "fst (snd (mux_run i tr mux_new)) = []" using unread_object [OF assms(1,2)] i by simp
  have d: "distinct (map stream_id (objects m'))" using traced_ids_after [OF assms(1,3)] assms(4) by simp
  have "stream_id (objects m' ! i) \<noteq> stream_id (objects ?m ! j)" if j: "j < i" for j
  proof -
    have "stream_id (objects m' ! j) = stream_id (objects ?m ! j)"
      using stream_id_step(2) [OF assms(2), of j MOpen] j i assms(4) by simp
    moreover have "stream_id (objects m' ! i) \<noteq> stream_id (objects m' ! j)"
      using d j i by (auto simp: distinct_conv_nth)
    ultimately show ?thesis by simp
  qed
  then have "stream_id (objects m' ! i) \<notin> stream_id ` set (objects ?m)" using i by (force simp: in_set_conv_nth)
  then show "fst (send_run (stream_id (objects m' ! i)) tr mux_new) = []" using assms(1) by (simp add: traced_def)
qed

lemma started_le: "started st \<le> length (pf_conns st)"
  by (simp add: started_def)

lemma traced_same_mux:
  assumes "traced tr st" and "pf_mux st' = pf_mux st" and "started st \<le> started st'"
    and "\<And>c. c \<in> set (pf_conns st') \<Longrightarrow> fc_opened c \<Longrightarrow>
      \<exists>d \<in> set (pf_conns st). fc_opened d \<and> fc_object d = fc_object c \<and> fc_got d = fc_got c \<and> fc_sent d = fc_sent c"
  shows "traced tr st'"
proof -
  have "opens tr \<le> started st'" using assms(1,3) by (simp add: traced_def)
  moreover have "fst (snd (mux_run (fc_object c) tr mux_new)) = fc_got c
      \<and> fst (send_run (stream_id (objects (pf_mux st) ! fc_object c)) tr mux_new) = fc_sent c"
    if c: "c \<in> set (pf_conns st')" "fc_opened c" for c
  proof -
    from assms(4) [OF c] obtain d where "d \<in> set (pf_conns st)" "fc_opened d" "fc_object d = fc_object c"
      "fc_got d = fc_got c" "fc_sent d = fc_sent c" by blast
    then show ?thesis using assms(1) unfolding traced_def by metis
  qed
  ultimately show ?thesis using assms(1,2) unfolding traced_def by simp
qed

text \<open>A step of connection \<open>i\<close> that makes the call \<open>op\<close>: the histories of all connections afterwards.\<close>

lemma conn_histories:
  assumes "pf_inv st" and "traced tr st" and "i < length (pf_conns st)" and "opens (tr @ [op]) \<le> 2 ^ 31"
    and "forward_connection (pf_shutdown st) ev (pf_conns st ! i) (pf_mux st) = (c', m')"
    and "conn_calls (pf_shutdown st) ev (pf_conns st ! i) = [op]"
    and "d \<in> set ((pf_conns st)[i := c'])" and "fc_opened d"
  shows "fst (snd (mux_run (fc_object d) tr mux_new)) @ reads (fc_object d) op (pf_mux st) = fc_got d
    \<and> (let sid = stream_id (objects (mux_step op (pf_mux st)) ! fc_object d)
       in fst (send_run sid tr mux_new) @ accepts sid op (pf_mux st) = fc_sent d)"
proof -
  let ?c = "pf_conns st ! i" and ?sd = "pf_shutdown st" and ?m = "pf_mux st"
  have inv: "conn_ok ?m ?c" "mux_inv ?m" "\<And>j. j < length (pf_conns st) \<Longrightarrow> conn_ok ?m (pf_conns st ! j)"
    using assms by (auto simp: pf_inv_def)
  have distinct: "distinct (map stream_id (objects ?m))"
    using traced_ids [OF assms(2)] assms(4) by (simp add: opens_def)
  have old: "fst (snd (mux_run (fc_object e) tr mux_new)) = fc_got e
      \<and> fst (send_run (stream_id (objects ?m ! fc_object e)) tr mux_new) = fc_sent e
      \<and> stream_id (objects (mux_step op ?m) ! fc_object e) = stream_id (objects ?m ! fc_object e)"
    if e: "e \<in> set (pf_conns st)" "fc_opened e" for e
  proof -
    from e(1) have "conn_ok ?m e" using inv(3) by (metis in_set_conv_nth)
    then have "fc_object e < length (objects ?m)" using e(2) by (simp add: conn_ok_def)
    then show ?thesis
      using assms(2) e stream_id_step(2) [OF inv(2), of "fc_object e" op] unfolding traced_def by blast
  qed
  consider (mine) "d = c'" "fc_phase ?c = Running" | (new) "d = c'" "fc_phase ?c = Spawned"
    | (other) j where "j < length (pf_conns st)" "j \<noteq> i" "d = pf_conns st ! j"
    using assms(3,6,7)
    by (cases "fc_phase ?c") (auto simp: in_set_conv_nth nth_update_at conn_calls_def split: if_splits)
  then show ?thesis
  proof cases
    case mine
    then have "fc_opened ?c" using inv(1) by (simp add: conn_ok_def)
    then show ?thesis
      using old [of ?c] running_effect [OF inv(1) mine(2), of ?sd ev] assms(3,5,6) mine
      by (simp add: forward_connection_def conn_calls_def Let_def)
  next
    case new
    obtain r m1 where o: "open_stream ?m = (r, m1)" by fastforce
    have op: "op = MOpen" using assms(6) new by (simp add: conn_calls_def)
    obtain k where k: "r = Ok k" "fc_object c' = k" "fc_got c' = fc_got ?c" "fc_sent c' = fc_sent ?c"
      using assms(5,8) new o inv(1) by (auto simp: forward_connection_def conn_ok_def split: result.splits)
    have "fc_got ?c = [] \<and> fc_sent ?c = []" using inv(1) new by (auto simp: conn_ok_def pipe_ok_def)
    then show ?thesis using traced_fresh [OF assms(2) inv(2) _ o [unfolded k(1)]] assms(4) op k new o by simp
  next
    case (other j)
    then have "fc_opened ?c \<longrightarrow> fc_object ?c \<noteq> fc_object d"
      using assms(1,3,8) unfolding pf_inv_def own_objects_def by metis
    with conn_calls_other [OF inv(3) [OF other(1)] inv(1), of op ?sd ev] other assms(6,8) distinct
    have "reads (fc_object d) op ?m = []" "accepts (stream_id (objects ?m ! fc_object d)) op ?m = []" by auto
    then show ?thesis using old [of d] other assms(8) by simp
  qed
qed

lemma traced_conn:
  assumes "pf_inv st" and "traced tr st" and "length (pf_conns st) \<le> 2 ^ 31" and "i < length (pf_conns st)"
  shows "traced (tr @ conn_calls (pf_shutdown st) ev (pf_conns st ! i)) (conn_step i ev st)"
proof -
  let ?c = "pf_conns st ! i" and ?sd = "pf_shutdown st" and ?m = "pf_mux st"
  obtain c' m' where f: "forward_connection ?sd ev ?c ?m = (c', m')" by fastforce
  have inv: "conn_ok ?m ?c" "mux_inv ?m" using assms by (auto simp: pf_inv_def)
  note calls = forward_connection_ok(1) [OF inv f]
  let ?cs = "(pf_conns st)[i := c']"
  have step: "conn_step i ev st = (st\<lparr>pf_conns := ?cs, pf_mux := m'\<rparr>)\<lparr>pf_permits := pf_permits (conn_step i ev st)\<rparr>"
    using assms(4) f by (simp add: conn_step_def)
  have "fc_phase c' \<noteq> Spawned"
    using f running_effect [OF inv(1), of ?sd ev]
    by (auto simp: forward_connection_def split: forwarded_phase.splits prod.splits result.splits)
  then have started: "started (st\<lparr>pf_conns := ?cs\<rparr>) = started st + (if fc_phase ?c = Spawned then 1 else 0)"
    using length_filter_update [OF assms(4), of "\<lambda>c. fc_phase c \<noteq> Spawned" c']
    by (simp add: started_def split: if_splits)
  have "traced (tr @ conn_calls ?sd ev ?c) (st\<lparr>pf_conns := ?cs, pf_mux := m'\<rparr>)"
  proof (cases "conn_calls ?sd ev ?c")
    case Nil
    have same: "fc_opened c' = fc_opened ?c \<and> fc_object c' = fc_object ?c \<and> fc_got c' = fc_got ?c \<and> fc_sent c' = fc_sent ?c"
      using Nil f running_effect [OF inv(1), of ?sd ev]
      by (auto simp: forward_connection_def conn_calls_def split: forwarded_phase.splits)
    have "\<exists>d \<in> set (pf_conns st). fc_opened d \<and> fc_object d = fc_object c \<and> fc_got d = fc_got c \<and> fc_sent d = fc_sent c"
      if "c \<in> set ?cs" "fc_opened c" for c
      using that same assms(4) set_update_subset_insert [of "pf_conns st" i c'] by (metis insertE nth_mem subsetD)
    then show ?thesis
      unfolding Nil append_Nil2 using started calls Nil
      by (intro traced_same_mux [OF assms(2)]) (auto simp: started_def)
  next
    case (Cons op ops)
    then have op: "conn_calls ?sd ev ?c = [op]" using conn_calls_short [of ?sd ev ?c] by simp
    have new: "opens [op] + started st \<le> started (st\<lparr>pf_conns := ?cs\<rparr>)"
      using op started running_effect [OF inv(1), of ?sd ev]
      by (cases "fc_phase ?c") (auto simp: opens_def conn_calls_def)
    then have "opens (tr @ [op]) \<le> 2 ^ 31"
      using assms(2,3) started_le [of "st\<lparr>pf_conns := ?cs\<rparr>"] by (simp add: opens_def traced_def)
    from traced_call [OF assms(2) inv(2) new conn_histories [OF assms(1,2,4) this f op]] op calls
    show ?thesis by simp
  qed
  then show ?thesis by (subst step) (simp add: traced_def started_def)
qed

lemma traced_step:
  assumes "pf_inv st" and "traced tr st" and "length (pf_conns st) \<le> 2 ^ 31"
  shows "traced (tr @ mux_calls op st) (pf_step op st)"
proof -
  have task: "traced (tr @ [mop]) (st\<lparr>pf_mux := mux_step mop (pf_mux st)\<rparr>)"
    if "mop \<in> {MTake, MKeepalive, MEnd} \<or> (\<exists>f. mop = MRoute f) \<or> (\<exists>b. mop = MClose b)" for mop
  proof -
    have "mux_inv (pf_mux st)" using assms(1) by (simp add: pf_inv_def)
    have "stream_id (objects (mux_step mop (pf_mux st)) ! fc_object c) = stream_id (objects (pf_mux st) ! fc_object c)"
      if "c \<in> set (pf_conns st)" "fc_opened c" for c
      using that assms(1) stream_id_step(2) [OF \<open>mux_inv (pf_mux st)\<close>, of "fc_object c" mop]
      by (auto simp: pf_inv_def conn_ok_def in_set_conv_nth)
    moreover have "reads i mop (pf_mux st) = []" "accepts sid mop (pf_mux st) = []" "opens [mop] = 0" for i sid
      using that by (auto simp: opens_def)
    ultimately show ?thesis
      using traced_call [OF assms(2) \<open>mux_inv (pf_mux st)\<close>, of mop "pf_conns st"] assms(2)
      by (auto simp: traced_def Let_def)
  qed
  show ?thesis
  proof (cases op)
    case (FAccept a)
    have "traced tr (accept_step a st)"
      by (rule traced_same_mux [OF assms(2)])
        (auto simp: accept_step_def started_def forwarded_new_def split: option.splits result.splits if_splits)
    with FAccept show ?thesis by simp
  next
    case (FConn i ev)
    then show ?thesis using traced_conn [OF assms] assms(2) by (simp add: conn_step_def)
  next
    case (FRoute f)
    with task [of "MRoute f"] show ?thesis by simp
  next
    case FRelease
    have "traced (tr @ [MClose False]) (st\<lparr>pf_mux := mux_drop (pf_mux st)\<rparr>)"
      using task [of "MClose False"] by (auto simp: mux_drop_def)
    with FRelease assms(2) show ?thesis by (simp add: release_mux_def)
  qed (use assms(2) task in \<open>auto simp: traced_def started_def simp del: mux_step.simps\<close>)
qed

lemma conns_grow: "length (pf_conns st) \<le> length (pf_conns (pf_step op st))"
  by (cases op) (auto simp: accept_step_def release_mux_def split: option.split result.split)

lemma traced_run:
  assumes "pf_inv st" and "traced [] st" and "length (pf_conns (pf_run ops st)) \<le> 2 ^ 31"
  shows "traced (mux_trace ops st) (pf_run ops st)"
  using assms(3)
proof (induction ops rule: rev_induct)
  case Nil
  then show ?case using assms(2) by (simp add: pf_run_def)
next
  case (snoc op ops)
  have run: "pf_run (ops @ [op]) st = pf_step op (pf_run ops st)" by (simp add: pf_run_def)
  have "length (pf_conns (pf_run ops st)) \<le> 2 ^ 31" using conns_grow snoc.prems unfolding run by (rule le_trans)
  with snoc.IH traced_step [OF pf_inv_run [OF assms(1)]] show ?case unfolding run mux_trace_snoc by simp
qed

section \<open>Properties\<close>



end
