(* ===== verification/Builder.thy ===== *)
theory Builder
  imports Session
begin

text \<open>
  \<^verbatim>\<open>src/builder.rs\<close>: the fluent builder of session configurations.
\<close>

record session_builder =
  region :: "string option"
  builder_config :: session_config

definition builder_new :: "string \<Rightarrow> session_builder" where
  "builder_new target = \<lparr>region = None, builder_config = config_new target\<rparr>"

definition with_region :: "string \<Rightarrow> session_builder \<Rightarrow> session_builder" where
  "with_region r b = b\<lparr>region := Some r\<rparr>"

definition maybe_region :: "string option \<Rightarrow> session_builder \<Rightarrow> session_builder" where
  "maybe_region r b = (case r of Some r \<Rightarrow> b\<lparr>region := Some r\<rparr> | None \<Rightarrow> b)"

definition set_config :: "(session_config \<Rightarrow> session_config) \<Rightarrow> session_builder \<Rightarrow> session_builder" where
  "set_config f b = b\<lparr>builder_config := f (builder_config b)\<rparr>"

definition with_document :: "ssm_document \<Rightarrow> session_builder \<Rightarrow> session_builder" where
  "with_document d = set_config (\<lambda>c. c\<lparr>cfg_document := Some (document_spec_new d)\<rparr>)"

definition port_forward :: "u16 \<Rightarrow> session_builder \<Rightarrow> session_builder" where
  "port_forward p = with_document (PortForwardingSession p)"

definition with_reason :: "string \<Rightarrow> session_builder \<Rightarrow> session_builder" where
  "with_reason r = set_config (\<lambda>c. c\<lparr>cfg_reason := Some r\<rparr>)"

definition with_ready_timeout :: "duration \<Rightarrow> session_builder \<Rightarrow> session_builder" where
  "with_ready_timeout d = set_config (\<lambda>c. c\<lparr>cfg_ready_timeout := d\<rparr>)"

definition keepalive :: "duration \<Rightarrow> duration \<Rightarrow> session_builder \<Rightarrow> session_builder" where
  "keepalive interval idle_timeout =
    set_config (\<lambda>c. c\<lparr>cfg_heartbeat_interval := interval, cfg_idle_timeout := idle_timeout\<rparr>)"

definition with_payload_chunk_size :: "nat \<Rightarrow> session_builder \<Rightarrow> session_builder" where
  "with_payload_chunk_size n = set_config (\<lambda>c. c\<lparr>cfg_payload_chunk_size := n\<rparr>)"

definition with_output_buffer :: "nat \<Rightarrow> session_builder \<Rightarrow> session_builder" where
  "with_output_buffer n = set_config (\<lambda>c. c\<lparr>cfg_output_buffer := n\<rparr>)"

definition with_endpoint_policy :: "endpoint_policy \<Rightarrow> session_builder \<Rightarrow> session_builder" where
  "with_endpoint_policy q = set_config (\<lambda>c. c\<lparr>cfg_endpoint_policy := q\<rparr>)"

definition into_config :: "session_builder \<Rightarrow> session_config" where
  "into_config b = builder_config b"

definition builder_start_with ::
    "aws_ext \<Rightarrow> session_manager \<Rightarrow> session_builder \<Rightarrow> api_call list \<Rightarrow> (session, error) result \<times> api_call list" where
  "builder_start_with A m b calls = start_session A m (builder_config b) calls"

definition builder_start ::
    "aws_ext \<Rightarrow> sdk_loader \<Rightarrow> session_builder \<Rightarrow> api_call list
      \<Rightarrow> (session, error) result \<times> api_call list" where
  "builder_start A load b calls =
    (case (case region b of Some r \<Rightarrow> manager_for_region load r | None \<Rightarrow> manager_new load) of
       Ok m \<Rightarrow> start_session A m (builder_config b) calls
     | Err e \<Rightarrow> (Err e, calls)
     | Panic \<Rightarrow> (Panic, calls))"

lemmas builder_defs = builder_new_def with_document_def with_reason_def keepalive_def set_config_def
  with_ready_timeout_def with_payload_chunk_size_def with_output_buffer_def with_endpoint_policy_def
  port_forward_def into_config_def config_new_def config_default_def document_spec_new_def

section \<open>Properties\<close>

text \<open>The name and the parameters are left out of a request together, for a plain shell.\<close>

lemma request_of_document:
  "build_start_request (builder_config (with_document d b)) =
    \<lparr>req_target = cfg_target (builder_config b),
     req_document_name = (if d = ShellSession then None else Some (document_name d)),
     req_parameters = (if d = ShellSession then None else Some (parameters d)),
     req_reason = cfg_reason (builder_config b)\<rparr>"
  by (cases d) (simp_all add: builder_defs build_start_request_def params_def)

lemma document_request_inject:
  "document_name d = document_name d' \<and> parameters d = parameters d' \<longleftrightarrow> d = d'"
  by (cases d; cases d') (auto simp: params_def word_unat_eq_iff)

text \<open>
  The service is asked for what the caller described. Two builders with the same target, document
  and reason make the same request, whatever else they set and in whatever order, and builders
  that differ in one of the three make different requests, down to the port number; a plain shell
  is asked for by leaving name and parameters out, just as without any document.
\<close>

theorem builder_request_faithful:
  "(build_start_request (into_config (with_reason r (with_document d (builder_new t))))
      = build_start_request (into_config (with_document d' (keepalive i j (with_payload_chunk_size n
          (with_reason r' (builder_new t')))))))
     = (t = t' \<and> d = d' \<and> r = r')
   \<and> (build_start_request (into_config (with_document d (builder_new t)))
      = build_start_request (into_config (builder_new t))) = (d = ShellSession)"
proof -
  have swap: "with_reason r (with_document d b) = with_document d (with_reason r b)" for r d b
    by (cases b) (simp add: builder_defs)
  have "build_start_request (into_config (builder_new t)) =
      build_start_request (builder_config (with_document ShellSession (builder_new t)))"
    by (simp add: builder_defs build_start_request_def)
  then show ?thesis
    using document_request_inject [of d d'] document_request_inject [of d ShellSession]
    unfolding swap into_config_def [of "with_document _ _"] request_of_document
    by (auto simp: builder_defs request_of_document)
qed

end
