(* ===== verification/Interactive.thy ===== *)
theory Interactive
  imports Builder
begin

text \<open>
  \<^verbatim>\<open>src/terminal.rs\<close> and \<^verbatim>\<open>src/interactive.rs\<close>: a shell on the local terminal. The terminal's answers
  (whether it is one, its size, whether a mode change or a write fails) are a parameter, what the
  threads of the terminal reader get from the system are arguments of their steps. The tasks of the
  session may do anything between two steps of the shell.
\<close>

section \<open>The terminal\<close>

definition STDIN_BUFFER :: nat where "STDIN_BUFFER = 16 * 1024"

record terminal_size =
  cols :: u16
  rows :: u16

definition size_default :: terminal_size where
  "size_default = \<lparr>cols = 80, rows = 24\<rparr>"

definition current_size :: "(u16 \<times> u16) option \<Rightarrow> terminal_size" where
  "current_size answer = (case answer of Some (c, r) \<Rightarrow> \<lparr>cols = c, rows = r\<rparr> | None \<Rightarrow> size_default)"

record terminal =
  raw_mode :: bool
  screen :: bytes
  printed :: "msg list"

record terminal_ext =
  stdin_tty :: bool
  stdout_tty :: bool
  raw_query_fails :: "error option"
  raw_enable_fails :: "error option"
  raw_disable_fails :: "error option"
  tty_size :: "(u16 \<times> u16) option"
  write_fails :: "bytes \<Rightarrow> bytes \<Rightarrow> error option"
  json_writer :: "json \<Rightarrow> string + string"

definition is_terminal :: "terminal_ext \<Rightarrow> bool" where
  "is_terminal T \<longleftrightarrow> stdin_tty T \<and> stdout_tty T"

definition require_terminal :: "terminal_ext \<Rightarrow> (unit, error) result" where
  "require_terminal T = (if is_terminal T then Ok () else Err (Config [Txt
     ''an interactive shell needs stdin and stdout attached to a terminal; use Session::send and Session::output for piped or headless use'']))"

text \<open>\<^verbatim>\<open>RawModeGuard\<close>: the guard is the mode before; dropping it restores a terminal that was not raw.\<close>

definition raw_enter :: "terminal_ext \<Rightarrow> terminal \<Rightarrow> (bool, error) result \<times> terminal" where
  "raw_enter T t =
    (case raw_query_fails T of
       Some e \<Rightarrow> (Err e, t)
     | None \<Rightarrow>
         if raw_mode t then (Ok True, t)
         else (case raw_enable_fails T of
                 Some e \<Rightarrow> (Err e, t)
               | None \<Rightarrow> (Ok False, t\<lparr>raw_mode := True\<rparr>)))"

definition raw_drop :: "terminal_ext \<Rightarrow> bool \<Rightarrow> terminal \<Rightarrow> terminal" where
  "raw_drop T was_raw t =
    (if was_raw then t
     else case raw_disable_fails T of
       Some e \<Rightarrow> t\<lparr>printed := printed t @ [[Txt ''warning: could not restore the terminal (''] @ error_to_string e
           @ [Txt ''); run `reset`'']]\<rparr>
     | None \<Rightarrow> t\<lparr>raw_mode := False\<rparr>)"

definition write_output :: "terminal_ext \<Rightarrow> bytes \<Rightarrow> terminal \<Rightarrow> (unit, error) result \<times> terminal" where
  "write_output T data t =
    (case write_fails T (screen t) data of
       Some e \<Rightarrow> (Err e, t)
     | None \<Rightarrow> (Ok (), t\<lparr>screen := screen t @ data\<rparr>))"

definition println :: "msg \<Rightarrow> terminal \<Rightarrow> terminal" where
  "println m t = t\<lparr>printed := printed t @ [m]\<rparr>"

section \<open>The terminal reader\<close>

datatype terminal_event = Input bytes | Resize terminal_size | Eof

text \<open>Where a producer is: at the top of its loop, waiting for the system, sending, or ended.\<close>

datatype producer = Looping | Blocked | Sending terminal_event | Stopped

text \<open>\<open>tr_read\<close> records what was read from the standard input; the code does not have it.\<close>

record terminal_reader =
  tr_events :: "terminal_event channel"
  tr_running :: bool
  tr_stdin :: producer
  tr_watcher :: producer
  tr_last :: terminal_size
  tr_read :: bytes

text \<open>The sending end goes with the last of the two producers.\<close>

definition tr_settle :: "terminal_reader \<Rightarrow> terminal_reader" where
  "tr_settle r =
    (if tr_stdin r = Stopped \<and> tr_watcher r = Stopped then r\<lparr>tr_events := drop_tx (tr_events r)\<rparr> else r)"

definition reader_start :: "bool \<Rightarrow> (u16 \<times> u16) option \<Rightarrow> terminal_reader" where
  "reader_start winch answer = \<lparr>tr_events = new_channel 64, tr_running = True, tr_stdin = Looping,
     tr_watcher = (if winch then Looping else Stopped), tr_last = current_size answer, tr_read = []\<rparr>"

definition reader_stop :: "terminal_reader \<Rightarrow> terminal_reader" where
  "reader_stop r = r\<lparr>tr_running := False\<rparr>"

definition reader_drop :: "terminal_reader \<Rightarrow> terminal_reader" where
  "reader_drop r = (reader_stop r)\<lparr>tr_events := drop_rx (tr_events r)\<rparr>"

text \<open>The thread's loop; \<open>got\<close> is what a read that was waiting returns.\<close>

definition stdin_step :: "io_error_kind + bytes \<Rightarrow> terminal_reader \<Rightarrow> terminal_reader" where
  "stdin_step got r =
    (case tr_stdin r of
       Stopped \<Rightarrow> r
     | Looping \<Rightarrow> tr_settle (r\<lparr>tr_stdin := (if tr_running r then Blocked else Stopped)\<rparr>)
     | Blocked \<Rightarrow>
         (case got of
            Inl k \<Rightarrow> r\<lparr>tr_stdin := (if k = Interrupted then Looping else Sending Eof)\<rparr>
          | Inr bs \<Rightarrow>
              let n = take STDIN_BUFFER bs in
              if n = [] then r\<lparr>tr_stdin := Sending Eof\<rparr>
              else r\<lparr>tr_stdin := Sending (Input n), tr_read := tr_read r @ n\<rparr>)
     | Sending ev \<Rightarrow>
         (case try_send ev (tr_events r) of
            (QueueFull, _) \<Rightarrow> r
          | (ReceiverGone, _) \<Rightarrow> tr_settle (r\<lparr>tr_stdin := Stopped\<rparr>)
          | (Sent, c) \<Rightarrow>
              tr_settle (r\<lparr>tr_events := c, tr_stdin := (if ev = Eof then Stopped else Looping)\<rparr>)))"

text \<open>The watcher's loop; \<open>signal\<close> is \<^const>\<open>None\<close> when the signal stream has ended, else the size then.\<close>

definition watcher_step :: "(u16 \<times> u16) option option \<Rightarrow> terminal_reader \<Rightarrow> terminal_reader" where
  "watcher_step signal r =
    (case tr_watcher r of
       Stopped \<Rightarrow> r
     | Looping \<Rightarrow> tr_settle (r\<lparr>tr_watcher := (if tr_running r then Blocked else Stopped)\<rparr>)
     | Blocked \<Rightarrow>
         (case signal of
            None \<Rightarrow> tr_settle (r\<lparr>tr_watcher := Stopped\<rparr>)
          | Some answer \<Rightarrow>
              let sz = current_size answer in
              if sz = tr_last r then r\<lparr>tr_watcher := Looping\<rparr>
              else r\<lparr>tr_watcher := Sending (Resize sz), tr_last := sz\<rparr>)
     | Sending ev \<Rightarrow>
         (case try_send ev (tr_events r) of
            (QueueFull, _) \<Rightarrow> r
          | (ReceiverGone, _) \<Rightarrow> tr_settle (r\<lparr>tr_watcher := Stopped\<rparr>)
          | (Sent, c) \<Rightarrow> r\<lparr>tr_events := c, tr_watcher := Looping\<rparr>))"

text \<open>
  Without signals for the window size, on Windows: the watcher's task looks at the size at every tick of
  a timer; \<open>answer\<close> is what the terminal says then.
\<close>

definition RESIZE_POLL_INTERVAL :: duration where "RESIZE_POLL_INTERVAL = millis 250"

definition poll_watcher_step :: "(u16 \<times> u16) option \<Rightarrow> terminal_reader \<Rightarrow> terminal_reader" where
  "poll_watcher_step answer r =
    (case tr_watcher r of
       Stopped \<Rightarrow> r
     | Looping \<Rightarrow> tr_settle (r\<lparr>tr_watcher := (if tr_running r then Blocked else Stopped)\<rparr>)
     | Blocked \<Rightarrow>
         let sz = current_size answer in
         if sz = tr_last r then r\<lparr>tr_watcher := Looping\<rparr>
         else r\<lparr>tr_watcher := Sending (Resize sz), tr_last := sz\<rparr>
     | Sending ev \<Rightarrow>
         (case try_send ev (tr_events r) of
            (QueueFull, _) \<Rightarrow> r
          | (ReceiverGone, _) \<Rightarrow> tr_settle (r\<lparr>tr_watcher := Stopped\<rparr>)
          | (Sent, c) \<Rightarrow> r\<lparr>tr_events := c, tr_watcher := Looping\<rparr>))"

text \<open>A tick is a signal that always comes: the two watchers are the same machine.\<close>

lemma poll_watcher_is_watcher: "poll_watcher_step answer r = watcher_step (Some answer) r"
  by (cases "tr_watcher r") (simp_all add: poll_watcher_step_def watcher_step_def)

section \<open>The shell\<close>

record interactive_config =
  show_banner :: bool
  send_initial_size :: bool
  shell_region :: "string option"
  shell_reason :: "string option"

definition interactive_config_default :: interactive_config where
  "interactive_config_default = \<lparr>show_banner = True, send_initial_size = True, shell_region = None, shell_reason = None\<rparr>"

text \<open>
  Where \<^verbatim>\<open>drive\<close> is: waiting for the session, sending the first size or pumping, with the guard it holds,
  or finished with its result.
\<close>

datatype drive_phase = Waiting_Ready | Sizing bool | Pumping bool | Finished "(int option, error) result"

text \<open>\<open>sh_busy\<close> is a command that the session has no room for yet. \<open>sh_sent\<close> and \<open>sh_shown\<close> record the input the session
  took and the output it gave; the code does not have them.\<close>

record shell =
  sh_config :: interactive_config
  sh_session :: session
  sh_term :: terminal
  sh_reader :: terminal_reader
  sh_out :: nat
  sh_busy :: "command option"
  sh_phase :: drive_phase
  sh_calls :: "api_call list"
  sh_sent :: bytes
  sh_shown :: bytes

text \<open>A send in the body of a branch: while the session has no room, nothing else is looked at.\<close>

definition shell_dispatch :: "command \<Rightarrow> shell \<Rightarrow> unit io \<times> shell" where
  "shell_dispatch cmd sh =
    (case dispatch cmd (sh_session sh) of
       (Done (Ok _), s) \<Rightarrow>
         (Done (Ok ()), sh\<lparr>sh_session := s, sh_busy := None, sh_sent := sh_sent sh @ command_data cmd\<rparr>)
     | (Waits w, s) \<Rightarrow> (Waits w, sh\<lparr>sh_session := s, sh_busy := Some cmd\<rparr>)
     | (Done r, s) \<Rightarrow> (Done r, sh\<lparr>sh_session := s, sh_busy := None\<rparr>))"

text \<open>What \<^verbatim>\<open>?\<close> makes of a send in the loop of \<^verbatim>\<open>pump\<close>: an error leaves it.\<close>

definition go_on :: "unit io \<times> shell \<Rightarrow> (unit, error) result option \<times> shell" where
  "go_on x = (case x of (Done (Err e), sh) \<Rightarrow> (Some (Err e), sh) | (Done Panic, sh) \<Rightarrow> (Some Panic, sh) | (_, sh) \<Rightarrow> (None, sh))"

definition size_command :: "terminal_ext \<Rightarrow> terminal_size \<Rightarrow> (command, error) result" where
  "size_command T sz =
    (case size_to_vec (json_writer T) (cols sz) (rows sz) of Inl e \<Rightarrow> Err (Serialization e) | Inr pl \<Rightarrow> Ok (Control Size pl))"

definition on_event :: "terminal_ext \<Rightarrow> terminal_event \<Rightarrow> shell \<Rightarrow> (unit, error) result option \<times> shell" where
  "on_event T ev sh =
    (case ev of
       Input bs \<Rightarrow> go_on (shell_dispatch (Data bs) sh)
     | Resize sz \<Rightarrow>
         (case size_command T sz of
            Ok cmd \<Rightarrow> go_on (shell_dispatch cmd sh)
          | Err e \<Rightarrow> (Some (Err e), sh)
          | Panic \<Rightarrow> (Some Panic, sh))
     | Eof \<Rightarrow> (Some (Ok ()), sh))"

text \<open>One round of the loop of \<^verbatim>\<open>pump\<close>; what it returns, if it does.\<close>

definition shell_pump_step :: "terminal_ext \<Rightarrow> shell \<Rightarrow> (unit, error) result option \<times> shell" where
  "shell_pump_step T sh =
    (case sh_busy sh of
       Some cmd \<Rightarrow> go_on (shell_dispatch cmd sh)
     | None \<Rightarrow>
         let s = sh_session sh; (chunk, f) = stream_recv (sh_out sh) (fanout (sess_core s));
             sh1 = sh\<lparr>sh_session := s\<lparr>chan := (chan s)\<lparr>core := (sess_core s)\<lparr>fanout := f\<rparr>\<rparr>\<rparr>\<rparr> in
         case chunk of
           Got data \<Rightarrow>
             let sh2 = sh1\<lparr>sh_shown := sh_shown sh @ data\<rparr> in
             (case write_output T data (sh_term sh2) of
                (Ok _, t) \<Rightarrow> (None, sh2\<lparr>sh_term := t\<rparr>)
              | (Err e, t) \<Rightarrow> (Some (Err e), sh2\<lparr>sh_term := t\<rparr>)
              | (Panic, t) \<Rightarrow> (Some Panic, sh2\<lparr>sh_term := t\<rparr>))
         | Ended \<Rightarrow> (Some (Ok ()), sh1)
         | Waiting \<Rightarrow>
             (case recv (tr_events (sh_reader sh)) of
                (Got ev, c) \<Rightarrow> on_event T ev (sh1\<lparr>sh_reader := (sh_reader sh)\<lparr>tr_events := c\<rparr>\<rparr>)
              | (Ended, _) \<Rightarrow> (Some (Ok ()), sh1)
              | (Waiting, _) \<Rightarrow> if sess_closed s then (Some (Ok ()), sh1) else (None, sh1)))"

text \<open>\<^verbatim>\<open>drive\<close> from the end of \<^verbatim>\<open>pump\<close> on.\<close>

definition ended_note :: "close_reason option \<Rightarrow> msg" where
  "ended_note reason =
    (case reason of
       None \<Rightarrow> [Txt ''Session ended.'']
     | Some r \<Rightarrow> if r = Terminated then [Txt ''Session ended.''] else Txt ''Session ended: '' # reason_to_string r)"

definition drive_end :: "terminal_ext \<Rightarrow> bool \<Rightarrow> (unit, error) result \<Rightarrow> shell \<Rightarrow> shell" where
  "drive_end T guard result sh =
    (let t1 = raw_drop T guard (snd (write_output T [13, 10] (sh_term sh)));
         reason = close_reason (sess_core (sh_session sh));
         code = exit_code (sess_core (sh_session sh));
         (r, calls, s) = terminate (sh_calls sh) (sh_session sh);
         t2 = (if show_banner (sh_config sh) then println (ended_note reason) t1 else t1)
     in sh\<lparr>sh_term := t2, sh_session := s, sh_calls := calls, sh_reader := reader_drop (sh_reader sh),
           sh_busy := None, sh_phase := Finished (bind_result result (\<lambda>_. Ok code))\<rparr>)"

text \<open>The pump starts: its reader, and its subscription to the session's output.\<close>

definition pump_start :: "terminal_ext \<Rightarrow> bool \<Rightarrow> bool \<Rightarrow> shell \<Rightarrow> shell" where
  "pump_start T winch guard sh =
    (let (k, s) = session_output (sh_session sh)
     in sh\<lparr>sh_session := s, sh_out := k, sh_reader := reader_start winch (tty_size T), sh_phase := Pumping guard\<rparr>)"

text \<open>A failure that \<^verbatim>\<open>?\<close> returns before the pump has ended, or a panic: a guard that is held is dropped.\<close>

definition drive_fail :: "terminal_ext \<Rightarrow> bool option \<Rightarrow> (int option, error) result \<Rightarrow> shell \<Rightarrow> shell" where
  "drive_fail T guard r sh =
    sh\<lparr>sh_term := (case guard of None \<Rightarrow> sh_term sh | Some g \<Rightarrow> raw_drop T g (sh_term sh)),
       sh_busy := None, sh_phase := Finished r\<rparr>"

definition drive_ready :: "terminal_ext \<Rightarrow> bool \<Rightarrow> shell \<Rightarrow> shell" where
  "drive_ready T winch sh =
    (let t1 = (case banner (sess_core (sh_session sh)) of
           None \<Rightarrow> sh_term sh | Some b \<Rightarrow> println [Str b] (sh_term sh)) in
     case raw_enter T t1 of
       (Err e, t2) \<Rightarrow> drive_fail T None (Err e) (sh\<lparr>sh_term := t2\<rparr>)
     | (Panic, t2) \<Rightarrow> drive_fail T None Panic (sh\<lparr>sh_term := t2\<rparr>)
     | (Ok g, t2) \<Rightarrow>
         let sh1 = sh\<lparr>sh_term := t2\<rparr> in
         if send_initial_size (sh_config sh) then
           (case size_command T (current_size (tty_size T)) of
              Ok cmd \<Rightarrow> sh1\<lparr>sh_busy := Some cmd, sh_phase := Sizing g\<rparr>
            | Err e \<Rightarrow> drive_fail T (Some g) (Err e) sh1
            | Panic \<Rightarrow> drive_fail T (Some g) Panic sh1)
         else pump_start T winch g sh1)"

text \<open>
  One step of \<^verbatim>\<open>drive\<close>; \<open>expired\<close> says whether the time allowed for the handshake has passed, \<open>winch\<close>
  whether the window signal can be watched.
\<close>

definition drive_step :: "terminal_ext \<Rightarrow> bool \<Rightarrow> bool \<Rightarrow> shell \<Rightarrow> shell" where
  "drive_step T expired winch sh =
    (case sh_phase sh of
       Finished _ \<Rightarrow> sh
     | Waiting_Ready \<Rightarrow>
         (case wait_ready expired (sh_session sh) of
            Waits _ \<Rightarrow> sh
          | Done (Ok _) \<Rightarrow> drive_ready T winch sh
          | Done (Err e) \<Rightarrow> drive_fail T None (Err e) sh
          | Done Panic \<Rightarrow> drive_fail T None Panic sh)
     | Sizing g \<Rightarrow>
         (case sh_busy sh of
            None \<Rightarrow> pump_start T winch g sh
          | Some cmd \<Rightarrow>
              (case shell_dispatch cmd sh of
                 (Waits _, sh1) \<Rightarrow> sh1
               | (Done (Ok _), sh1) \<Rightarrow> pump_start T winch g sh1
               | (Done (Err e), sh1) \<Rightarrow> drive_fail T (Some g) (Err e) sh1
               | (Done Panic, sh1) \<Rightarrow> drive_fail T (Some g) Panic sh1))
     | Pumping g \<Rightarrow>
         (case shell_pump_step T sh of
            (None, sh1) \<Rightarrow> sh1
          | (Some Panic, sh1) \<Rightarrow> drive_fail T (Some g) Panic sh1
          | (Some r, sh1) \<Rightarrow> drive_end T g r sh1))"

definition drive :: "interactive_config \<Rightarrow> session \<Rightarrow> terminal \<Rightarrow> api_call list \<Rightarrow> shell" where
  "drive cfg s t calls = \<lparr>sh_config = cfg, sh_session = s,
     sh_term = (if show_banner cfg then println [Txt ''Starting session with SessionId: '', Str (sess_id s)] t else t),
     sh_reader = reader_drop (reader_start False None), sh_out = 0, sh_busy = None, sh_phase = Waiting_Ready,
     sh_calls = calls, sh_sent = [], sh_shown = []\<rparr>"

definition shell_attach ::
    "terminal_ext \<Rightarrow> interactive_config \<Rightarrow> session \<Rightarrow> terminal \<Rightarrow> api_call list \<Rightarrow> (shell, error) result" where
  "shell_attach T cfg s t calls = bind_result (require_terminal T) (\<lambda>_. Ok (drive cfg s t calls))"

definition run_with ::
    "aws_ext \<Rightarrow> terminal_ext \<Rightarrow> interactive_config \<Rightarrow> string \<Rightarrow> session_manager \<Rightarrow> terminal \<Rightarrow> api_call list
      \<Rightarrow> (shell, error) result \<times> api_call list" where
  "run_with A T cfg target m t calls =
    (case require_terminal T of
       Ok _ \<Rightarrow>
         (case builder_start_with A m (builder_new target) calls of
            (Ok s, calls1) \<Rightarrow> (Ok (drive cfg s t calls1), calls1)
          | (Err e, calls1) \<Rightarrow> (Err e, calls1)
          | (Panic, calls1) \<Rightarrow> (Panic, calls1))
     | Err e \<Rightarrow> (Err e, calls)
     | Panic \<Rightarrow> (Panic, calls))"

definition shell_run ::
    "aws_ext \<Rightarrow> sdk_loader \<Rightarrow> terminal_ext \<Rightarrow> interactive_config \<Rightarrow> string
      \<Rightarrow> terminal \<Rightarrow> api_call list \<Rightarrow> (shell, error) result \<times> api_call list" where
  "shell_run A load T cfg target t calls =
    (case require_terminal T of
       Ok _ \<Rightarrow>
         let b = maybe_region (shell_region cfg) (builder_new target);
             b1 = (case shell_reason cfg of Some r \<Rightarrow> with_reason r b | None \<Rightarrow> b) in
         (case builder_start A load b1 calls of
            (Ok s, calls1) \<Rightarrow> (Ok (drive cfg s t calls1), calls1)
          | (Err e, calls1) \<Rightarrow> (Err e, calls1)
          | (Panic, calls1) \<Rightarrow> (Panic, calls1))
     | Err e \<Rightarrow> (Err e, calls)
     | Panic \<Rightarrow> (Panic, calls))"

section \<open>Runs\<close>

text \<open>The steps of the shell, of the reader's producers, and of the tasks of the session, which may change it freely.\<close>

datatype shell_op = ODrive bool bool | OStdin "io_error_kind + bytes" | OWinch "(u16 \<times> u16) option option" | OSession session

fun shell_step :: "terminal_ext \<Rightarrow> shell_op \<Rightarrow> shell \<Rightarrow> shell" where
  "shell_step T (ODrive expired winch) sh = drive_step T expired winch sh"
| "shell_step T (OStdin got) sh = sh\<lparr>sh_reader := stdin_step got (sh_reader sh)\<rparr>"
| "shell_step T (OWinch signal) sh = sh\<lparr>sh_reader := watcher_step signal (sh_reader sh)\<rparr>"
| "shell_step T (OSession s) sh = sh\<lparr>sh_session := s\<rparr>"

section \<open>Invariants\<close>

definition event_data :: "terminal_event \<Rightarrow> bytes" where
  "event_data ev = (case ev of Input bs \<Rightarrow> bs | _ \<Rightarrow> [])"

definition producer_data :: "producer \<Rightarrow> bytes" where
  "producer_data p = (case p of Sending ev \<Rightarrow> event_data ev | _ \<Rightarrow> [])"

definition busy_data :: "shell \<Rightarrow> bytes" where
  "busy_data sh = (case sh_busy sh of None \<Rightarrow> [] | Some cmd \<Rightarrow> command_data cmd)"

text \<open>What has been read from the standard input and has not left the reader.\<close>

definition pending_input :: "terminal_reader \<Rightarrow> bytes" where
  "pending_input r = concat (map event_data (queued (tr_events r))) @ producer_data (tr_stdin r)"

text \<open>The terminal, and the bytes in both directions, in each phase of the shell.\<close>

definition shell_inv :: "terminal \<Rightarrow> shell \<Rightarrow> bool" where
  "shell_inv t0 sh \<longleftrightarrow>
    (case sh_phase sh of
       Waiting_Ready \<Rightarrow> raw_mode (sh_term sh) = raw_mode t0 \<and> sh_sent sh = [] \<and> sh_busy sh = None
         \<and> sh_shown sh = [] \<and> screen (sh_term sh) = screen t0
     | Sizing g \<Rightarrow> g = raw_mode t0 \<and> raw_mode (sh_term sh) \<and> sh_sent sh = [] \<and> busy_data sh = []
         \<and> sh_shown sh = [] \<and> screen (sh_term sh) = screen t0
     | Pumping g \<Rightarrow> g = raw_mode t0 \<and> raw_mode (sh_term sh)
         \<and> sh_sent sh @ busy_data sh @ pending_input (sh_reader sh) = tr_read (sh_reader sh)
         \<and> \<not> rx_gone (tr_events (sh_reader sh)) \<and> screen (sh_term sh) = screen t0 @ sh_shown sh
         \<and> (\<forall>sz. tr_stdin (sh_reader sh) \<noteq> Sending (Resize sz))
         \<and> (\<forall>bs. tr_watcher (sh_reader sh) \<noteq> Sending (Input bs))
     | Finished r \<Rightarrow> raw_mode (sh_term sh) = raw_mode t0 \<and> prefix (sh_sent sh) (tr_read (sh_reader sh))
         \<and> (\<exists>k tl. tl \<in> {[], [13, 10]} \<and> screen (sh_term sh) = screen t0 @ take k (sh_shown sh) @ tl
              \<and> (\<forall>code. r = Ok code \<longrightarrow> length (sh_shown sh) \<le> k)))"

lemma raw_drop_simps [simp]:
  "screen (raw_drop T g t) = screen t"
  "raw_disable_fails T = None \<Longrightarrow> raw_mode (raw_drop T g t) = (g \<and> raw_mode t)"
  by (simp_all add: raw_drop_def split: option.split)

lemma println_simps [simp]: "screen (println m t) = screen t" "raw_mode (println m t) = raw_mode t"
  by (simp_all add: println_def)

lemma write_output_cases:
  assumes "write_output T data t = (r, t')"
  obtains (ok) "r = Ok ()" "t' = t\<lparr>screen := screen t @ data\<rparr>" | (failed) e where "r = Err e" "t' = t"
  using assms by (auto simp: write_output_def split: option.splits)

lemma raw_enter_cases:
  assumes "raw_enter T t = (r, t')"
  obtains (ok) "r = Ok (raw_mode t)" "t' = t\<lparr>raw_mode := True\<rparr>" | (failed) e where "r = Err e" "t' = t"
  using assms that by (cases t) (auto simp: raw_enter_def split: option.splits if_splits)

text \<open>A step of either producer neither loses nor invents input.\<close>

lemma tr_settle_simps [simp]:
  "tr_read (tr_settle r) = tr_read r" "tr_stdin (tr_settle r) = tr_stdin r" "tr_watcher (tr_settle r) = tr_watcher r"
  "queued (tr_events (tr_settle r)) = queued (tr_events r)" "rx_gone (tr_events (tr_settle r)) = rx_gone (tr_events r)"
  by (simp_all add: tr_settle_def)

lemma stdin_step_input:
  assumes "\<not> rx_gone (tr_events r)" and "\<forall>sz. tr_stdin r \<noteq> Sending (Resize sz)" and "sent @ pending_input r = tr_read r"
  shows "sent @ pending_input (stdin_step got r) = tr_read (stdin_step got r)"
    and "\<not> rx_gone (tr_events (stdin_step got r))" and "tr_stdin (stdin_step got r) \<noteq> Sending (Resize sz)"
    and "tr_watcher (stdin_step got r) = tr_watcher r"
  using assms
  by (auto simp: stdin_step_def pending_input_def producer_data_def event_data_def try_send_def Let_def
      split: producer.splits sum.splits terminal_event.splits if_splits)

lemma watcher_step_input:
  assumes "\<not> rx_gone (tr_events r)" and "\<forall>bs. tr_watcher r \<noteq> Sending (Input bs)"
  shows "pending_input (watcher_step sg r) = pending_input r" and "tr_read (watcher_step sg r) = tr_read r"
    and "\<not> rx_gone (tr_events (watcher_step sg r))" and "tr_watcher (watcher_step sg r) \<noteq> Sending (Input bs)"
    and "tr_stdin (watcher_step sg r) = tr_stdin r"
  using assms
  by (auto simp: watcher_step_def pending_input_def event_data_def try_send_def Let_def
      split: producer.splits option.splits terminal_event.splits if_splits)

lemma tr_read_grows: "prefix (tr_read r) (tr_read (stdin_step got r))" "tr_read (watcher_step sg r) = tr_read r"
  by (auto simp: stdin_step_def watcher_step_def Let_def
      split: producer.splits sum.splits option.splits prod.splits send_outcome.splits)

text \<open>What the pump's loop keeps, and what it leaves when it returns.\<close>

definition pump_ok :: "bytes \<Rightarrow> shell \<Rightarrow> bool" where
  "pump_ok s0 sh \<longleftrightarrow> raw_mode (sh_term sh) \<and> \<not> rx_gone (tr_events (sh_reader sh))
     \<and> sh_sent sh @ busy_data sh @ pending_input (sh_reader sh) = tr_read (sh_reader sh)
     \<and> screen (sh_term sh) = s0 @ sh_shown sh
     \<and> (\<forall>sz. tr_stdin (sh_reader sh) \<noteq> Sending (Resize sz))
     \<and> (\<forall>bs. tr_watcher (sh_reader sh) \<noteq> Sending (Input bs))"

definition pump_left :: "bytes \<Rightarrow> (unit, error) result \<Rightarrow> shell \<Rightarrow> bool" where
  "pump_left s0 r sh \<longleftrightarrow> raw_mode (sh_term sh) \<and> prefix (sh_sent sh) (tr_read (sh_reader sh))
     \<and> (\<exists>k. screen (sh_term sh) = s0 @ take k (sh_shown sh) \<and> (r = Ok () \<longrightarrow> length (sh_shown sh) \<le> k))"

lemma pump_ok_left: "pump_ok s0 sh \<Longrightarrow> pump_left s0 r sh"
  by (auto simp: pump_ok_def pump_left_def intro: prefixI [of _ _ "busy_data sh @ pending_input (sh_reader sh)"]
      exI [of _ "length (sh_shown sh)"])

lemma shell_inv_Pumping:
  "sh_phase sh = Pumping g \<Longrightarrow> shell_inv t0 sh \<longleftrightarrow> g = raw_mode t0 \<and> pump_ok (screen t0) sh"
  by (auto simp: shell_inv_def pump_ok_def)

lemma shell_dispatch_frame:
  assumes "shell_dispatch cmd sh = (r, sh')"
  shows "sh_term sh' = sh_term sh" "sh_reader sh' = sh_reader sh" "sh_phase sh' = sh_phase sh" "sh_shown sh' = sh_shown sh"
    and "sh_calls sh' = sh_calls sh" and "sh_config sh' = sh_config sh"
    and "r = Done (Ok ()) \<Longrightarrow> sh_sent sh' = sh_sent sh @ command_data cmd \<and> sh_busy sh' = None"
    and "r = Waits w \<Longrightarrow> sh_sent sh' = sh_sent sh \<and> sh_busy sh' = Some cmd"
    and "r = Done (Err e) \<Longrightarrow> sh_sent sh' = sh_sent sh" and "r \<noteq> Done Panic"
  using assms by (auto simp: shell_dispatch_def dispatch_def split: prod.splits io.splits result.splits send_outcome.splits if_splits)

lemma go_on_dispatch:
  assumes "pump_ok s0 (sh\<lparr>sh_busy := Some cmd\<rparr>)" and "go_on (shell_dispatch cmd sh) = (x, sh')"
  shows "sh_phase sh' = sh_phase sh \<and> (case x of None \<Rightarrow> pump_ok s0 sh' | Some r \<Rightarrow> r \<noteq> Panic \<and> pump_left s0 r sh')"
proof -
  obtain r sh1 where d: "shell_dispatch cmd sh = (r, sh1)" by fastforce
  note fr = shell_dispatch_frame [OF d]
  consider "r = Done (Ok ())" | e where "r = Done (Err e)" | w where "r = Waits w"
    using fr(10) by (cases r) (auto, metis (full_types) old.unit.exhaust result.exhaust)
  then show ?thesis
  proof cases
    case 1
    with assms d fr show ?thesis by (auto simp: go_on_def pump_ok_def busy_data_def)
  next
    case (2 e)
    then have "pump_left s0 (Err e) sh1"
      using pump_ok_left [OF assms(1)] fr by (auto simp: pump_left_def)
    with 2 assms(2) d fr show ?thesis by (auto simp: go_on_def)
  next
    case (3 w)
    with assms d fr show ?thesis by (auto simp: go_on_def pump_ok_def busy_data_def)
  qed
qed

lemma on_event_ok:
  assumes "pump_ok s0 (sh\<lparr>sh_busy := Some (Data (event_data ev))\<rparr>)" and "on_event T ev sh = (x, sh')"
    and "sh_busy sh = None"
  shows "sh_phase sh' = sh_phase sh \<and> (case x of None \<Rightarrow> pump_ok s0 sh' | Some r \<Rightarrow> r \<noteq> Panic \<and> pump_left s0 r sh')"
proof (cases ev)
  case (Input bs)
  then show ?thesis using assms by (intro go_on_dispatch) (auto simp: on_event_def event_data_def)
next
  case (Resize sz)
  have left: "pump_left s0 r sh" for r
    using pump_ok_left [OF assms(1)] by (auto simp: pump_left_def)
  have ok: "pump_ok s0 (sh\<lparr>sh_busy := Some (Control Size pl)\<rparr>)" for pl
    using assms(1) Resize by (auto simp: pump_ok_def busy_data_def command_data_def event_data_def)
  show ?thesis
  proof (cases "size_to_vec (json_writer T) (cols sz) (rows sz)")
    case (Inl e)
    then show ?thesis using assms(2) Resize left by (auto simp: on_event_def size_command_def)
  next
    case (Inr pl)
    then show ?thesis using assms(2) Resize by (intro go_on_dispatch [OF ok]) (simp add: on_event_def size_command_def)
  qed
next
  case Eof
  have "pump_left s0 (Ok ()) sh" using pump_ok_left [OF assms(1), of "Ok ()"] by (simp add: pump_left_def)
  then show ?thesis using Eof assms(2) by (auto simp: on_event_def)
qed

lemma shell_pump_step_ok:
  assumes "pump_ok s0 sh" and "shell_pump_step T sh = (x, sh')"
  shows "sh_phase sh' = sh_phase sh \<and> (case x of None \<Rightarrow> pump_ok s0 sh' | Some r \<Rightarrow> r \<noteq> Panic \<and> pump_left s0 r sh')"
proof (cases "sh_busy sh")
  case (Some cmd)
  then have "pump_ok s0 (sh\<lparr>sh_busy := Some cmd\<rparr>)" using assms(1) by (simp add: pump_ok_def busy_data_def)
  with Some assms(2) show ?thesis by (intro go_on_dispatch) (simp_all add: shell_pump_step_def)
next
  case None
  let ?s = "sh_session sh"
  obtain chunk f where recv: "stream_recv (sh_out sh) (fanout (sess_core ?s)) = (chunk, f)" by fastforce
  define sh1 where "sh1 = sh\<lparr>sh_session := ?s\<lparr>chan := (chan ?s)\<lparr>core := (sess_core ?s)\<lparr>fanout := f\<rparr>\<rparr>\<rparr>\<rparr>"
  have sh1: "pump_ok s0 sh1" "sh_phase sh1 = sh_phase sh" "sh_busy sh1 = None"
    using assms(1) None by (simp_all add: sh1_def pump_ok_def busy_data_def)
  show ?thesis
  proof (cases chunk)
    case (Got data)
    define sh2 where "sh2 = sh1\<lparr>sh_shown := sh_shown sh @ data\<rparr>"
    obtain r t where w: "write_output T data (sh_term sh2) = (r, t)" by fastforce
    from w show ?thesis
    proof (cases rule: write_output_cases)
      case ok
      then show ?thesis
        using assms Got None recv w by (auto simp: shell_pump_step_def sh1_def sh2_def pump_ok_def busy_data_def Let_def)
    next
      case (failed e)
      have "prefix (sh_sent sh) (tr_read (sh_reader sh)) \<and> raw_mode (sh_term sh) \<and> screen (sh_term sh) = s0 @ sh_shown sh"
        using assms(1) None by (auto simp: pump_ok_def busy_data_def intro: prefixI sym)
      then have "pump_left s0 (Err e) (sh2\<lparr>sh_term := t\<rparr>)"
        using failed by (auto simp: pump_left_def sh1_def sh2_def intro: exI [of _ "length (sh_shown sh)"])
      moreover have "(x, sh') = (Some (Err e), sh2\<lparr>sh_term := t\<rparr>)"
        using assms(2) Got None recv w failed by (auto simp: shell_pump_step_def sh1_def sh2_def Let_def)
      ultimately show ?thesis by (simp add: sh1_def sh2_def)
    qed
  next
    case Ended
    then show ?thesis
      using assms(2) None recv sh1 pump_ok_left [OF sh1(1)] by (auto simp: shell_pump_step_def sh1_def Let_def)
  next
    case Waiting
    show ?thesis
    proof (cases "queued (tr_events (sh_reader sh))")
      case Nil
      then show ?thesis
        using assms(2) None recv sh1 pump_ok_left [OF sh1(1)] Waiting
        by (auto simp: shell_pump_step_def sh1_def recv_def Let_def split: if_splits)
    next
      case (Cons ev evs)
      let ?r = "(sh_reader sh)\<lparr>tr_events := (tr_events (sh_reader sh))\<lparr>queued := evs\<rparr>\<rparr>"
      have "pump_ok s0 (sh1\<lparr>sh_reader := ?r, sh_busy := Some (Data (event_data ev))\<rparr>)"
        using assms(1) Cons None
        by (auto simp: sh1_def pump_ok_def pending_input_def busy_data_def command_data_def)
      moreover have "on_event T ev (sh1\<lparr>sh_reader := ?r\<rparr>) = (x, sh')"
        using assms(2) None recv Waiting Cons by (simp add: shell_pump_step_def sh1_def recv_def Let_def)
      ultimately show ?thesis using on_event_ok [of s0 ev "sh1\<lparr>sh_reader := ?r\<rparr>" T x sh'] sh1 by simp
    qed
  qed
qed

lemma drive_end_inv:
  assumes "pump_left (screen t0) r sh" and "raw_disable_fails T = None" and "g = raw_mode t0" and "r \<noteq> Panic"
  shows "shell_inv t0 (drive_end T g r sh)"
proof -
  obtain q t where w: "write_output T [13, 10] (sh_term sh) = (q, t)" by fastforce
  obtain r' calls s where tm: "terminate (sh_calls sh) (sh_session sh) = (r', calls, s)" by (metis prod_cases3)
  have reader: "tr_read (reader_drop x) = tr_read x" for x by (simp add: reader_drop_def reader_stop_def)
  obtain k where k: "screen (sh_term sh) = screen t0 @ take k (sh_shown sh)" "r = Ok () \<longrightarrow> length (sh_shown sh) \<le> k"
    using assms(1) by (auto simp: pump_left_def)
  from w have "\<exists>tl. tl \<in> {[], [13, 10]} \<and> raw_mode t \<and> screen t = screen t0 @ take k (sh_shown sh) @ tl"
    by (cases rule: write_output_cases) (use assms(1) k in \<open>auto simp: pump_left_def\<close>)
  then obtain tl where tl: "tl \<in> {[], [13, 10]}" "raw_mode t" "screen t = screen t0 @ take k (sh_shown sh) @ tl" by blast
  let ?sh = "drive_end T g r sh"
  have end_: "sh_phase ?sh = Finished (bind_result r (\<lambda>_. Ok (exit_code (sess_core (sh_session sh)))))"
      "sh_sent ?sh = sh_sent sh" "sh_shown ?sh = sh_shown sh" "tr_read (sh_reader ?sh) = tr_read (sh_reader sh)"
      "screen (sh_term ?sh) = screen t" "raw_mode (sh_term ?sh) = raw_mode t0"
    using w tm tl(2) assms(2,3) by (simp_all add: drive_end_def Let_def reader)
  have "bind_result r (\<lambda>_. Ok code) = Ok code' \<Longrightarrow> r = Ok ()" for code code' by (cases r) auto
  then have "\<exists>k tl. tl \<in> {[], [13, 10]} \<and> screen (sh_term ?sh) = screen t0 @ take k (sh_shown ?sh) @ tl
      \<and> (\<forall>code'. bind_result r (\<lambda>_. Ok (exit_code (sess_core (sh_session sh)))) = Ok code' \<longrightarrow> length (sh_shown ?sh) \<le> k)"
    using tl k(2) end_(3,5) by (intro exI [of _ k] exI [of _ tl]) auto
  moreover have "prefix (sh_sent sh) (tr_read (sh_reader sh))" using assms(1) by (simp add: pump_left_def)
  ultimately show ?thesis using end_ by (simp add: shell_inv_def)
qed

lemma drive_fail_inv:
  assumes "raw_disable_fails T = None" and "sh_sent sh = []" and "sh_shown sh = []" and "screen (sh_term sh) = screen t0"
    and "case guard of None \<Rightarrow> raw_mode (sh_term sh) = raw_mode t0 | Some g \<Rightarrow> g = raw_mode t0 \<and> raw_mode (sh_term sh)"
  shows "shell_inv t0 (drive_fail T guard r sh)"
  using assms by (auto simp: shell_inv_def drive_fail_def intro!: exI [of _ "[]"] split: option.splits)

lemma pump_start_inv:
  assumes "raw_mode (sh_term sh)" and "g = raw_mode t0" and "sh_sent sh = []" and "sh_shown sh = []" and "busy_data sh = []"
    and "screen (sh_term sh) = screen t0"
  shows "shell_inv t0 (pump_start T winch g sh)"
  using assms
  by (auto simp: shell_inv_def pump_start_def reader_start_def pending_input_def producer_data_def busy_data_def
      split: prod.split)

lemma drive_ready_inv:
  assumes "shell_inv t0 sh" and "sh_phase sh = Waiting_Ready" and "raw_disable_fails T = None"
  shows "shell_inv t0 (drive_ready T winch sh)"
proof -
  let ?t1 = "case banner (sess_core (sh_session sh)) of None \<Rightarrow> sh_term sh | Some b \<Rightarrow> println [Str b] (sh_term sh)"
  have t1: "raw_mode ?t1 = raw_mode t0" "screen ?t1 = screen t0" and sh: "sh_sent sh = []" "sh_shown sh = []" "busy_data sh = []"
    using assms by (auto simp: shell_inv_def busy_data_def split: option.split)
  obtain r t2 where e: "raw_enter T ?t1 = (r, t2)" by fastforce
  from e show ?thesis
  proof (cases rule: raw_enter_cases)
    case ok
    let ?sh1 = "sh\<lparr>sh_term := t2\<rparr>"
    have start: "shell_inv t0 (pump_start T winch (raw_mode t0) ?sh1)"
      using ok t1 sh by (intro pump_start_inv) (simp_all add: busy_data_def)
    have fail: "shell_inv t0 (drive_fail T (Some (raw_mode t0)) x ?sh1)" for x
      using ok t1 sh assms(3) by (intro drive_fail_inv) simp_all
    have "shell_inv t0 (?sh1\<lparr>sh_busy := Some (Control Size pl), sh_phase := Sizing (raw_mode t0)\<rparr>)" for pl
      using ok t1 sh by (simp add: shell_inv_def busy_data_def command_data_def)
    then show ?thesis
      using start fail ok e t1 by (auto simp: drive_ready_def size_command_def Let_def split: sum.split)
  next
    case (failed x)
    have "shell_inv t0 (drive_fail T None (Err x) (sh\<lparr>sh_term := t2\<rparr>))"
      using failed t1 sh assms(3) by (intro drive_fail_inv) simp_all
    then show ?thesis using failed e by (simp add: drive_ready_def)
  qed
qed

lemma shell_inv_sizing:
  assumes "shell_inv t0 sh" and "sh_phase sh = Sizing g" and "raw_disable_fails T = None"
  shows "shell_inv t0 (drive_step T expired winch sh)"
proof (cases "sh_busy sh")
  case None
  have "shell_inv t0 (pump_start T winch g sh)"
    using assms(1,2) by (intro pump_start_inv) (simp_all add: shell_inv_def)
  then show ?thesis using None assms(2) by (simp add: drive_step_def)
next
  case (Some cmd)
  obtain r sh1 where d: "shell_dispatch cmd sh = (r, sh1)" by fastforce
  note fr = shell_dispatch_frame [OF d]
  have sh: "g = raw_mode t0" "raw_mode (sh_term sh)" "sh_sent sh = []" "command_data cmd = []" "sh_shown sh = []"
      "screen (sh_term sh) = screen t0"
    using assms Some by (auto simp: shell_inv_def busy_data_def)
  consider "r = Done (Ok ())" | e where "r = Done (Err e)" | w where "r = Waits w"
    using fr(10) by (cases r) (auto, metis (full_types) old.unit.exhaust result.exhaust)
  then show ?thesis
  proof cases
    case 1
    have "shell_inv t0 (pump_start T winch g sh1)" using 1 sh fr by (intro pump_start_inv) (simp_all add: busy_data_def)
    then show ?thesis using 1 d Some assms(2) by (simp add: drive_step_def)
  next
    case (2 e)
    have "shell_inv t0 (drive_fail T (Some g) (Err e) sh1)" using 2 sh fr assms(3) by (intro drive_fail_inv) simp_all
    then show ?thesis using 2 d Some assms(2) by (simp add: drive_step_def)
  next
    case (3 w)
    then show ?thesis using d Some assms(2) sh fr by (simp add: drive_step_def shell_inv_def busy_data_def)
  qed
qed

lemma shell_inv_drive:
  assumes "shell_inv t0 sh" and "raw_disable_fails T = None"
  shows "shell_inv t0 (drive_step T expired winch sh)"
proof (cases "sh_phase sh")
  case Waiting_Ready
  have "shell_inv t0 (drive_fail T None x sh)" for x
    using Waiting_Ready assms by (intro drive_fail_inv) (simp_all add: shell_inv_def)
  then show ?thesis
    using Waiting_Ready assms drive_ready_inv by (auto simp: drive_step_def split: io.split result.split)
next
  case (Sizing g)
  then show ?thesis using shell_inv_sizing assms by blast
next
  case (Pumping g)
  then have pump: "g = raw_mode t0" "pump_ok (screen t0) sh" using assms(1) shell_inv_Pumping by blast+
  obtain x sh' where p: "shell_pump_step T sh = (x, sh')" by fastforce
  note ok = shell_pump_step_ok [OF pump(2) p]
  show ?thesis
  proof (cases x)
    case None
    then show ?thesis using ok p Pumping pump(1) shell_inv_Pumping [of sh' g t0] by (simp add: drive_step_def)
  next
    case (Some r)
    then show ?thesis
      using ok p Pumping pump(1) drive_end_inv [of t0 r sh' T g] assms(2)
      by (cases r) (simp_all add: drive_step_def)
  qed
qed (use assms in \<open>simp add: drive_step_def\<close>)

lemma shell_inv_step:
  assumes "shell_inv t0 sh" and "raw_disable_fails T = None"
  shows "shell_inv t0 (shell_step T op sh)"
proof (cases op)
  case (ODrive expired winch)
  then show ?thesis using shell_inv_drive assms by simp
next
  case (OStdin got)
  show ?thesis
  proof (cases "sh_phase sh")
    case (Pumping g)
    then show ?thesis
      using OStdin assms(1) stdin_step_input [of "sh_reader sh" "sh_sent sh @ busy_data sh" got]
      by (auto simp: shell_inv_def busy_data_def)
  next
    case (Finished r)
    then show ?thesis
      using OStdin assms(1) tr_read_grows(1) [of "sh_reader sh" got] by (auto simp: shell_inv_def intro: prefix_order.trans)
  qed (use OStdin assms(1) in \<open>auto simp: shell_inv_def busy_data_def\<close>)
next
  case (OWinch sg)
  show ?thesis
  proof (cases "sh_phase sh")
    case (Pumping g)
    then show ?thesis
      using OWinch assms(1) watcher_step_input [of "sh_reader sh" sg] by (auto simp: shell_inv_def busy_data_def)
  qed (use OWinch assms(1) tr_read_grows(2) [of sg "sh_reader sh"] in \<open>auto simp: shell_inv_def busy_data_def\<close>)
next
  case (OSession s)
  then show ?thesis using assms(1) by (auto simp: shell_inv_def busy_data_def split: drive_phase.splits)
qed

interpretation shells: machine "shell_step T" "\<lambda>sh. raw_disable_fails T = None \<and> shell_inv t0 sh" for T t0
  by unfold_locales (simp add: shell_inv_step)

lemma drive_inv: "shell_inv t (drive cfg s t calls)"
  by (simp add: shell_inv_def drive_def)

section \<open>Properties\<close>

text \<open>
  (C37) A shell on the local terminal, with any behaviour of the user, the terminal and the session.
  Input goes to the session verbatim: what the session has taken is a prefix of what was read from
  the standard input, and as long as the shell pumps, the rest is on its way. Output goes to the
  screen verbatim: the screen shows what it showed, followed by what the session has given, all of it
  when the shell returns without an error, and at most a line end behind it. And however the shell
  ends, the terminal is in the mode it was in before.
\<close>

theorem shell_is_transparent:
  assumes "raw_disable_fails T = None" and "sh = fold (shell_step T) ops (drive cfg s t calls)"
  shows "case sh_phase sh of
     Pumping g \<Rightarrow> sh_sent sh @ busy_data sh @ pending_input (sh_reader sh) = tr_read (sh_reader sh)
       \<and> screen (sh_term sh) = screen t @ sh_shown sh
   | Finished r \<Rightarrow> raw_mode (sh_term sh) = raw_mode t \<and> prefix (sh_sent sh) (tr_read (sh_reader sh))
       \<and> (\<exists>k tl. tl \<in> {[], [13, 10]} \<and> screen (sh_term sh) = screen t @ take k (sh_shown sh) @ tl
            \<and> (\<forall>code. r = Ok code \<longrightarrow> length (sh_shown sh) \<le> k))
   | _ \<Rightarrow> sh_sent sh = [] \<and> screen (sh_term sh) = screen t"
  using shells.run_inv [of T t "drive cfg s t calls" ops] drive_inv assms
  by (auto simp: shell_inv_def split: drive_phase.splits)

definition toy_terminal_ext :: terminal_ext where
  "toy_terminal_ext = \<lparr>stdin_tty = True, stdout_tty = True, raw_query_fails = None, raw_enable_fails = None,
     raw_disable_fails = None, tty_size = None, write_fails = (\<lambda>_ _. None), json_writer = (\<lambda>_. Inr [])\<rparr>"

definition toy_ready_session :: session where
  "toy_ready_session = \<lparr>chan = toy_reader\<lparr>core := (core_new ''s-1'' 4)\<lparr>is_sendable := True\<rparr>\<rparr>,
     sess_config = toy_config, sess_ssm = True, sess_tasks = 5\<rparr>"

definition toy_terminal :: terminal where
  "toy_terminal = \<lparr>raw_mode = False, screen = [], printed = []\<rparr>"

theorem shell_is_transparent_witness:
  "let sh = fold (shell_step toy_terminal_ext)
        [ODrive False False, OStdin (Inr []), OStdin (Inr [7]), OStdin (Inr []), ODrive False False]
        (drive (interactive_config_default\<lparr>send_initial_size := False\<rparr>) toy_ready_session toy_terminal [])
   in sh_sent sh @ busy_data sh @ pending_input (sh_reader sh) = [7]"
proof -
  let ?ops = "[ODrive False False, OStdin (Inr []), OStdin (Inr [7]), OStdin (Inr []), ODrive False False]"
  define sh where "sh = fold (shell_step toy_terminal_ext) ?ops
      (drive (interactive_config_default\<lparr>send_initial_size := False\<rparr>) toy_ready_session toy_terminal [])"
  have "sh_phase sh = Pumping False \<and> tr_read (sh_reader sh) = [7]"
    by (simp add: sh_def drive_def drive_step_def wait_ready_def toy_ready_session_def core_new_def drive_ready_def
        raw_enter_def toy_terminal_ext_def toy_terminal_def println_def interactive_config_default_def pump_start_def
        session_output_def core_subscribe_def subscribe_def fanout_new_def reader_start_def stdin_step_def tr_settle_def
        STDIN_BUFFER_def try_send_def new_channel_def shell_pump_step_def stream_recv_def recv_def on_event_def
        go_on_def shell_dispatch_def dispatch_def Let_def toy_reader_def toy_channel_def channel_new_def channel_state.defs)
  then show ?thesis
    using shell_is_transparent [OF _ sh_def] unfolding sh_def [symmetric] Let_def by (simp add: toy_terminal_ext_def)
qed

text \<open>
  A shell that is attached to a session is documented to terminate it when it exits. It does when the
  pump returns, but not when it fails before that: here the terminal cannot be asked for its mode,
  and the shell ends with the session open and no call to the service.
\<close>

theorem failed_shell_leaves_session_open:
  assumes "sh_phase sh = Waiting_Ready" and "is_sendable (sess_core (sh_session sh))"
    and "\<not> sess_closed (sh_session sh)" and "raw_query_fails T = Some e"
  shows "let sh' = drive_step T expired winch sh in sh_phase sh' = Finished (Err e)
    \<and> \<not> sess_closed (sh_session sh') \<and> sh_calls sh' = sh_calls sh"
  using assms by (simp add: drive_step_def wait_ready_def drive_ready_def raw_enter_def drive_fail_def Let_def)

end
