(* ===== verification/Pool.thy ===== *)
theory Pool
  imports Session
begin

text \<open>
  \<^verbatim>\<open>src/pool.rs\<close>: a bounded collection of sessions. A session is shared between the pool, its tasks
  and other holders, so the sessions live in a store (\<open>pool_world\<close>) and the pool's table maps
  session identifiers to indices. Starting a session takes two steps, between which anything can
  happen: the first checks admission and opens the session, the second checks again under the
  lock and enters it into the table or ends it.
\<close>

section \<open>State and operations\<close>

record pool_config =
  max_sessions :: nat
  allow_duplicate_targets :: bool
  session_defaults :: session_config

record pool_stats =
  live :: nat
  started_total :: nat
  ended_total :: nat

record session_pool =
  pool_cfg :: pool_config
  pool_manager :: session_manager
  pool_table :: "(string \<times> nat) list"
  pool_started :: nat
  pool_world :: "session list"
  pool_calls :: "api_call list"

definition pool_config_default :: pool_config where
  "pool_config_default = \<lparr>max_sessions = 100, allow_duplicate_targets = True, session_defaults = config_default\<rparr>"

definition with_manager :: "pool_config \<Rightarrow> session_manager \<Rightarrow> session_pool" where
  "with_manager c m = \<lparr>pool_cfg = c, pool_manager = m, pool_table = [], pool_started = 0,
     pool_world = [], pool_calls = []\<rparr>"

abbreviation target_of :: "session_pool \<Rightarrow> nat \<Rightarrow> string" where
  "target_of p i \<equiv> cfg_target (sess_config (pool_world p ! i))"

definition reap :: "session_pool \<Rightarrow> session_pool" where
  "reap p = p\<lparr>pool_table := filter (\<lambda>(_, i). \<not> sess_closed (pool_world p ! i)) (pool_table p)\<rparr>"

definition admit :: "string \<Rightarrow> session_pool \<Rightarrow> (unit, error) result" where
  "admit target p =
    (let c = pool_cfg p; n = length (pool_table p) in
     if max_sessions c > 0 \<and> n \<ge> max_sessions c then
       Err (Config [Txt ''session pool is full ('', Num (int n), Txt '' of '', Num (int (max_sessions c)),
         Txt '' in use)''])
     else if \<not> allow_duplicate_targets c \<and> list_ex (\<lambda>(_, i). target_of p i = target) (pool_table p) then
       Err (Config [Txt ''a session to '', Str target,
         Txt '' is already open and PoolConfig::allow_duplicate_targets is false''])
     else Ok ())"

definition check_admission :: "string \<Rightarrow> session_pool \<Rightarrow> (unit, error) result \<times> session_pool" where
  "check_admission target p = (admit target (reap p), reap p)"

definition end_session :: "nat \<Rightarrow> session_pool \<Rightarrow> session_pool" where
  "end_session i p =
    (let (_, calls, s) = terminate (pool_calls p) (pool_world p ! i)
     in p\<lparr>pool_calls := calls, pool_world := (pool_world p)[i := s]\<rparr>)"

definition enter :: "nat \<Rightarrow> session_pool \<Rightarrow> session_pool" where
  "enter i p = p\<lparr>pool_table := AList.update (sess_id (pool_world p ! i)) i (pool_table p)\<rparr>"

definition begin_start :: "aws_ext \<Rightarrow> session_config \<Rightarrow> session_pool \<Rightarrow> (nat, error) result \<times> session_pool" where
  "begin_start A config p =
    (let p1 = reap p in
     case admit (cfg_target config) p1 of
       Err e \<Rightarrow> (Err e, p1)
     | Panic \<Rightarrow> (Panic, p1)
     | Ok _ \<Rightarrow>
         (case start_session A (pool_manager p1) config (pool_calls p1) of
            (Ok s, calls) \<Rightarrow>
              (Ok (length (pool_world p1)), p1\<lparr>pool_world := pool_world p1 @ [s], pool_calls := calls\<rparr>)
          | (Err e, calls) \<Rightarrow> (Err e, p1\<lparr>pool_calls := calls\<rparr>)
          | (Panic, calls) \<Rightarrow> (Panic, p1\<lparr>pool_calls := calls\<rparr>)))"

definition finish_start :: "nat \<Rightarrow> session_pool \<Rightarrow> (nat, error) result \<times> session_pool" where
  "finish_start i p =
    (let p1 = reap p in
     case admit (target_of p1 i) p1 of
       Ok _ \<Rightarrow> (Ok i, (enter i p1)\<lparr>pool_started := Suc (pool_started p1)\<rparr>)
     | Err e \<Rightarrow> (Err e, end_session i p1)
     | Panic \<Rightarrow> (Panic, p1))"

text \<open>The two steps of a start with nothing in between.\<close>

definition start_with :: "aws_ext \<Rightarrow> session_config \<Rightarrow> session_pool \<Rightarrow> (nat, error) result \<times> session_pool" where
  "start_with A config p =
    (case begin_start A config p of
       (Ok i, p1) \<Rightarrow> finish_start i p1
     | r \<Rightarrow> r)"

definition pool_start :: "aws_ext \<Rightarrow> string \<Rightarrow> session_pool \<Rightarrow> (nat, error) result \<times> session_pool" where
  "pool_start A target p = start_with A ((session_defaults (pool_cfg p))\<lparr>cfg_target := target\<rparr>) p"

definition pool_insert :: "nat \<Rightarrow> session_pool \<Rightarrow> (nat, error) result \<times> session_pool" where
  "pool_insert i p =
    (let p1 = reap p in
     case admit (target_of p1 i) p1 of
       Ok _ \<Rightarrow> (Ok i, (enter i p1)\<lparr>pool_started := Suc (pool_started p1)\<rparr>)
     | Err e \<Rightarrow> (Err e, p1)
     | Panic \<Rightarrow> (Panic, p1))"

definition pool_get :: "string \<Rightarrow> session_pool \<Rightarrow> nat option \<times> session_pool" where
  "pool_get sid p = (map_of (pool_table (reap p)) sid, reap p)"

definition for_target :: "string \<Rightarrow> session_pool \<Rightarrow> nat list \<times> session_pool" where
  "for_target target p =
    (filter (\<lambda>i. target_of (reap p) i = target) (map snd (pool_table (reap p))), reap p)"

definition pool_sessions :: "session_pool \<Rightarrow> nat list \<times> session_pool" where
  "pool_sessions p = (map snd (pool_table (reap p)), reap p)"

definition session_ids :: "session_pool \<Rightarrow> string list \<times> session_pool" where
  "session_ids p = (map fst (pool_table (reap p)), reap p)"

definition stats :: "session_pool \<Rightarrow> pool_stats \<times> session_pool" where
  "stats p =
    (let p1 = reap p; n = length (pool_table p1)
     in (\<lparr>live = n, started_total = pool_started p1, ended_total = pool_started p1 - n\<rparr>, p1))"

definition terminate_all :: "nat list \<Rightarrow> session_pool \<Rightarrow> session_pool" where
  "terminate_all is p = fold end_session is p"

definition pool_terminate :: "string \<Rightarrow> session_pool \<Rightarrow> session_pool" where
  "pool_terminate sid p =
    (case map_of (pool_table p) sid of
       Some i \<Rightarrow> end_session i (p\<lparr>pool_table := AList.delete sid (pool_table p)\<rparr>)
     | None \<Rightarrow> p)"

definition terminate_target :: "string \<Rightarrow> session_pool \<Rightarrow> session_pool" where
  "terminate_target target p =
    terminate_all (map snd (filter (\<lambda>(_, i). target_of p i = target) (pool_table p)))
      (p\<lparr>pool_table := filter (\<lambda>(_, i). target_of p i \<noteq> target) (pool_table p)\<rparr>)"

definition pool_shutdown :: "session_pool \<Rightarrow> session_pool" where
  "pool_shutdown p = terminate_all (map snd (pool_table p)) (p\<lparr>pool_table := []\<rparr>)"

section \<open>Runs\<close>

text \<open>
  The calls on a pool in the order the lock serialises them, and the events of the sessions
  themselves: any session may end at any time, and sessions may be opened elsewhere.
\<close>

datatype pool_op =
    PBegin session_config | PFinish nat | PInsert nat | PQuery string | PTerminate string
  | PTerminateTarget string | PShutdown | PEnds nat close_reason | PElsewhere session

fun pool_step :: "aws_ext \<Rightarrow> pool_op \<Rightarrow> session_pool \<Rightarrow> session_pool" where
  "pool_step A (PBegin c) p = snd (begin_start A c p)"
| "pool_step A (PFinish i) p = (if i < length (pool_world p) then snd (finish_start i p) else p)"
| "pool_step A (PInsert i) p = (if i < length (pool_world p) then snd (pool_insert i p) else p)"
| "pool_step A (PQuery sid) p = snd (pool_get sid p)"
| "pool_step A (PTerminate sid) p = pool_terminate sid p"
| "pool_step A (PTerminateTarget t) p = terminate_target t p"
| "pool_step A PShutdown p = pool_shutdown p"
| "pool_step A (PEnds i r) p = p\<lparr>pool_world := (pool_world p)[i := sess_close r (pool_world p ! i)]\<rparr>"
| "pool_step A (PElsewhere s) p = p\<lparr>pool_world := pool_world p @ [s]\<rparr>"

definition pool_run :: "aws_ext \<Rightarrow> pool_op list \<Rightarrow> session_pool \<Rightarrow> session_pool" where
  "pool_run A ops p = fold (pool_step A) ops p"

text \<open>The two limits, as a property of a table over a store.\<close>

definition table_ok :: "pool_config \<Rightarrow> session list \<Rightarrow> (string \<times> nat) list \<Rightarrow> bool" where
  "table_ok c w t \<longleftrightarrow> distinct (map fst t) \<and> (\<forall>(sid, i) \<in> set t. i < length w \<and> sess_id (w ! i) = sid)
     \<and> (0 < max_sessions c \<longrightarrow> length t \<le> max_sessions c)
     \<and> (\<not> allow_duplicate_targets c \<longrightarrow>
          (\<forall>(sid, i) \<in> set t. \<forall>(sid', j) \<in> set t.
             cfg_target (sess_config (w ! i)) = cfg_target (sess_config (w ! j)) \<longrightarrow> sid = sid'))"

definition pool_inv :: "session_pool \<Rightarrow> bool" where
  "pool_inv p \<longleftrightarrow> table_ok (pool_cfg p) (pool_world p) (pool_table p)"

section \<open>The invariant\<close>

lemma table_ok_Nil: "table_ok c w []"
  by (simp add: table_ok_def)

lemma table_ok_filter:
  assumes "table_ok c w t"
  shows "table_ok c w (filter P t)"
proof -
  have sub: "set (filter P t) \<subseteq> set t" by auto
  have "distinct (map fst (filter P t))" using assms by (simp add: table_ok_def distinct_map_filter)
  moreover have "\<forall>(sid, i) \<in> set (filter P t). i < length w \<and> sess_id (w ! i) = sid"
    using assms sub by (auto simp: table_ok_def)
  moreover have "0 < max_sessions c \<longrightarrow> length (filter P t) \<le> max_sessions c"
    using assms length_filter_le [of P t] by (auto simp: table_ok_def simp del: length_filter_le)
  moreover have "\<not> allow_duplicate_targets c \<longrightarrow>
      (\<forall>(sid, i) \<in> set (filter P t). \<forall>(sid', j) \<in> set (filter P t).
         cfg_target (sess_config (w ! i)) = cfg_target (sess_config (w ! j)) \<longrightarrow> sid = sid')"
    using assms sub unfolding table_ok_def by blast
  ultimately show ?thesis by (simp only: table_ok_def)
qed

text \<open>What sessions do to themselves leaves their identifiers and configurations alone.\<close>

definition same_sessions :: "session list \<Rightarrow> session list \<Rightarrow> bool" where
  "same_sessions w w' \<longleftrightarrow> length w \<le> length w'
     \<and> (\<forall>i < length w. sess_id (w' ! i) = sess_id (w ! i) \<and> sess_config (w' ! i) = sess_config (w ! i))"

lemma same_sessions_refl [simp]: "same_sessions w w"
  by (simp add: same_sessions_def)

lemma same_sessions_trans [trans]: "same_sessions u v \<Longrightarrow> same_sessions v w \<Longrightarrow> same_sessions u w"
  by (auto simp: same_sessions_def)

lemma same_sessions_append [simp]: "same_sessions w (w @ xs)"
  by (simp add: same_sessions_def nth_append)

lemma same_sessions_update:
  "sess_id s = sess_id (w ! i) \<Longrightarrow> sess_config s = sess_config (w ! i) \<Longrightarrow> same_sessions w (w[i := s])"
  by (auto simp: same_sessions_def nth_update_at)

lemma table_ok_world:
  assumes "table_ok c w t" and "same_sessions w w'"
  shows "table_ok c w' t"
proof -
  have "i < length w' \<and> sess_id (w' ! i) = sid \<and> sess_config (w' ! i) = sess_config (w ! i)"
    if "(sid, i) \<in> set t" for sid i
    using assms that by (auto simp: table_ok_def same_sessions_def)
  with assms(1) show ?thesis unfolding table_ok_def by fastforce
qed

lemma table_ok_update:
  assumes ok: "table_ok c w t" and i: "i < length w"
    and room: "0 < max_sessions c \<longrightarrow> length t < max_sessions c"
    and new: "\<not> allow_duplicate_targets c \<longrightarrow>
      (\<forall>(sid, j) \<in> set t. cfg_target (sess_config (w ! j)) \<noteq> cfg_target (sess_config (w ! i)))"
  shows "table_ok c w (AList.update (sess_id (w ! i)) i t)"
proof -
  let ?t = "AList.update (sess_id (w ! i)) i t"
  have d: "distinct (map fst t)" using ok by (simp add: table_ok_def)
  have set_t: "set ?t = insert (sess_id (w ! i), i) {e \<in> set t. fst e \<noteq> sess_id (w ! i)}"
    using d by (induction t) (auto, metis fst_conv image_eqI)
  have "length ?t \<le> Suc (length t)" by (induction t) auto
  with room have "0 < max_sessions c \<longrightarrow> length ?t \<le> max_sessions c" by linarith
  moreover have "distinct (map fst ?t)" using d by (simp add: distinct_update)
  moreover have "\<forall>(sid, j) \<in> set ?t. j < length w \<and> sess_id (w ! j) = sid"
    using ok i unfolding set_t table_ok_def by auto
  moreover have "\<forall>(sid, j) \<in> set ?t. \<forall>(sid', k) \<in> set ?t.
      cfg_target (sess_config (w ! j)) = cfg_target (sess_config (w ! k)) \<longrightarrow> sid = sid'"
    if "\<not> allow_duplicate_targets c"
    using ok new that unfolding set_t table_ok_def by fastforce
  ultimately show ?thesis unfolding table_ok_def by blast
qed

lemma reap_simps [simp]:
  "pool_cfg (reap p) = pool_cfg p" "pool_world (reap p) = pool_world p" "pool_calls (reap p) = pool_calls p"
  "pool_manager (reap p) = pool_manager p" "pool_started (reap p) = pool_started p"
  by (simp_all add: reap_def)

lemma pool_inv_reap: "pool_inv p \<Longrightarrow> pool_inv (reap p)"
  by (simp add: pool_inv_def reap_def table_ok_filter)

lemma end_session_simps [simp]:
  "pool_cfg (end_session i p) = pool_cfg p" "pool_table (end_session i p) = pool_table p"
  "pool_started (end_session i p) = pool_started p" "pool_manager (end_session i p) = pool_manager p"
  "length (pool_world (end_session i p)) = length (pool_world p)"
  by (simp_all add: end_session_def split_beta)

lemma end_session_world:
  "same_sessions (pool_world p) (pool_world (end_session i p))"
  unfolding end_session_def
  by (auto simp: split_beta terminate_def Let_def join_tasks_def sess_close_def close_core_def core_close_def
      intro!: same_sessions_update)

lemma terminate_all_keeps:
  "pool_cfg (terminate_all is p) = pool_cfg p \<and> pool_table (terminate_all is p) = pool_table p
    \<and> same_sessions (pool_world p) (pool_world (terminate_all is p))"
  unfolding terminate_all_def
  by (induction "is" arbitrary: p) (auto intro: same_sessions_trans end_session_world)

lemma admit_Ok:
  assumes "admit target p = Ok u"
  shows "0 < max_sessions (pool_cfg p) \<longrightarrow> length (pool_table p) < max_sessions (pool_cfg p)"
    and "\<not> allow_duplicate_targets (pool_cfg p) \<longrightarrow> (\<forall>(sid, j) \<in> set (pool_table p). target_of p j \<noteq> target)"
  using assms by (auto simp: admit_def Let_def list_ex_iff split: if_splits)

lemma pool_inv_enter:
  assumes "pool_inv p" and "i < length (pool_world p)" and "admit (target_of p i) p = Ok u"
  shows "pool_inv (enter i p)"
  using table_ok_update [of "pool_cfg p" "pool_world p" "pool_table p" i] admit_Ok [OF assms(3)] assms(1,2)
  by (auto simp: pool_inv_def enter_def)

lemma pool_inv_started [simp]: "pool_inv (p\<lparr>pool_started := n\<rparr>) = pool_inv p" "pool_inv (p\<lparr>pool_calls := cs\<rparr>) = pool_inv p"
  by (simp_all add: pool_inv_def)

lemma pool_inv_end_session: "pool_inv p \<Longrightarrow> pool_inv (end_session i p)"
  using end_session_world [of p i] by (auto simp: pool_inv_def intro: table_ok_world)

lemma pool_inv_terminate_all: "pool_inv p \<Longrightarrow> pool_inv (terminate_all is p)"
  using terminate_all_keeps [of "is" p] by (auto simp: pool_inv_def intro: table_ok_world)

lemma pool_inv_grows: "pool_inv p \<Longrightarrow> pool_inv (p\<lparr>pool_world := pool_world p @ [s]\<rparr>)"
  by (auto simp: pool_inv_def intro: table_ok_world)

lemma pool_inv_step:
  assumes "pool_inv p"
  shows "pool_inv (pool_step A op p)"
proof (cases op)
  case (PBegin c)
  then show ?thesis
    using pool_inv_reap [OF assms] pool_inv_grows [OF pool_inv_reap [OF assms]]
    by (auto simp: begin_start_def Let_def split: result.splits prod.splits)
next
  case (PFinish i)
  then show ?thesis
    using pool_inv_reap [OF assms] pool_inv_enter [OF pool_inv_reap [OF assms], of i] assms
    by (auto simp: finish_start_def Let_def pool_inv_end_session split: result.splits)
next
  case (PInsert i)
  then show ?thesis
    using pool_inv_reap [OF assms] pool_inv_enter [OF pool_inv_reap [OF assms], of i] assms
    by (auto simp: pool_insert_def Let_def split: result.splits)
next
  case (PQuery sid)
  then show ?thesis by (simp add: pool_get_def pool_inv_reap [OF assms])
next
  case (PTerminate sid)
  have "pool_inv (p\<lparr>pool_table := AList.delete sid (pool_table p)\<rparr>)"
    using assms by (simp add: pool_inv_def AList.delete_eq table_ok_filter)
  then show ?thesis
    using PTerminate assms by (auto simp: pool_terminate_def pool_inv_end_session split: option.split)
next
  case (PTerminateTarget tg)
  have "pool_inv (p\<lparr>pool_table := filter P (pool_table p)\<rparr>)" for P
    using assms by (simp add: pool_inv_def table_ok_filter)
  then show ?thesis using PTerminateTarget by (simp add: terminate_target_def pool_inv_terminate_all)
next
  case PShutdown
  have "pool_inv (p\<lparr>pool_table := []\<rparr>)" by (simp add: pool_inv_def table_ok_Nil)
  then show ?thesis using PShutdown by (simp add: pool_shutdown_def pool_inv_terminate_all)
next
  case (PEnds i r)
  have "same_sessions (pool_world p) ((pool_world p)[i := sess_close r (pool_world p ! i)])"
    by (rule same_sessions_update) (simp_all add: sess_close_def close_core_def core_close_def)
  then show ?thesis using PEnds assms by (auto simp: pool_inv_def intro: table_ok_world)
next
  case (PElsewhere s)
  then show ?thesis using assms by (simp add: pool_inv_grows)
qed

interpretation pooled: machine "pool_step A" pool_inv for A
  by unfold_locales (rule pool_inv_step)

lemma pool_inv_run: "pool_inv p \<Longrightarrow> pool_inv (pool_run A ops p)"
  unfolding pool_run_def by (rule pooled.run_inv)

section \<open>Properties\<close>

lemma with_manager_inv: "pool_inv (with_manager c m)"
  by (simp add: pool_inv_def with_manager_def table_ok_Nil)

lemma pool_step_cfg: "pool_cfg (pool_step A op p) = pool_cfg p"
  using terminate_all_keeps
  by (cases op) (auto simp: begin_start_def finish_start_def pool_insert_def enter_def pool_get_def
      pool_terminate_def terminate_target_def pool_shutdown_def Let_def
      split: result.split prod.split option.split)

interpretation pooled_cfg: constant_part "pool_step A" pool_cfg for A
  by unfold_locales (rule pool_step_cfg)

lemma pool_cfg_run [simp]: "pool_cfg (pool_run A ops p) = pool_cfg p"
  unfolding pool_run_def by (rule pooled_cfg.run_keeps)

text \<open>
  (C23) The limits of a pool hold at every moment, however starts, insertions, terminations and the
  ends of sessions interleave: it never holds more sessions than its maximum, even when many starts
  wait for the service at the same time; with duplicates disallowed no two of its sessions have
  the same target; and a lookup returns an open session with the identifier asked for.
\<close>

theorem pool_limits_hold:
  assumes "p = pool_run A ops (with_manager c m)"
  shows "(0 < max_sessions c \<longrightarrow> length (pool_table p) \<le> max_sessions c)
    \<and> (\<not> allow_duplicate_targets c \<longrightarrow>
         (\<forall>(sid, i) \<in> set (pool_table p). \<forall>(sid', j) \<in> set (pool_table p).
            target_of p i = target_of p j \<longrightarrow> sid = sid'))
    \<and> (\<forall>sid i p'. pool_get sid p = (Some i, p') \<longrightarrow> i < length (pool_world p)
         \<and> sess_id (pool_world p ! i) = sid \<and> \<not> sess_closed (pool_world p ! i))"
proof -
  have cfg: "pool_cfg p = c" by (simp add: assms with_manager_def)
  have inv: "pool_inv p" unfolding assms by (intro pool_inv_run with_manager_inv)
  then have ok: "table_ok c (pool_world p) (pool_table p)" by (simp add: pool_inv_def cfg)
  have "i < length (pool_world p) \<and> sess_id (pool_world p ! i) = sid \<and> \<not> sess_closed (pool_world p ! i)"
    if "pool_get sid p = (Some i, p')" for sid i p'
  proof -
    have "(sid, i) \<in> set (pool_table (reap p))" using that by (auto simp: pool_get_def dest: map_of_SomeD)
    then show ?thesis using ok by (auto simp: reap_def table_ok_def)
  qed
  with ok show ?thesis unfolding table_ok_def by blast
qed

definition toy_pool_config :: pool_config where
  "toy_pool_config = \<lparr>max_sessions = 1, allow_duplicate_targets = False, session_defaults = toy_config\<rparr>"

definition toy_session :: "string \<Rightarrow> session" where
  "toy_session sid = \<lparr>chan = toy_reader\<lparr>core := core_new sid 4\<rparr>, sess_config = toy_config,
     sess_ssm = True, sess_tasks = 5\<rparr>"

theorem pool_limits_hold_witness:
  "\<exists>p. p = pool_run toy_aws_ext [PElsewhere (toy_session ''a''), PElsewhere (toy_session ''b''),
        PFinish 0, PFinish 1] (with_manager toy_pool_config toy_manager)
     \<and> length (pool_table p) = 1 \<and> length (pool_table p) \<le> max_sessions toy_pool_config"
proof -
  let ?p = "pool_run toy_aws_ext [PElsewhere (toy_session ''a''), PElsewhere (toy_session ''b''),
        PFinish 0, PFinish 1] (with_manager toy_pool_config toy_manager)"
  have "length (pool_table ?p) = 1"
    by (simp add: pool_run_def with_manager_def finish_start_def reap_def admit_def enter_def
        toy_pool_config_def toy_session_def core_new_def Let_def)
  moreover have "length (pool_table ?p) \<le> max_sessions toy_pool_config"
    using pool_limits_hold [OF refl [of ?p]] by (simp add: toy_pool_config_def)
  ultimately show ?thesis by blast
qed

text \<open>A terminated session is closed, and stays where it is.\<close>

lemma end_session_closes:
  "i < length (pool_world p) \<Longrightarrow> sess_closed (pool_world (end_session i p) ! i)"
  by (simp add: end_session_def split_beta terminate_def Let_def join_tasks_def sess_close_def)

lemma end_session_closed_stays:
  "j < length (pool_world p) \<Longrightarrow> sess_closed (pool_world p ! j) \<Longrightarrow> sess_closed (pool_world (end_session i p) ! j)"
  by (auto simp: end_session_def split_beta terminate_def Let_def join_tasks_def sess_close_def
      nth_update_at)

lemma terminate_all_closed_stays:
  "j < length (pool_world p) \<Longrightarrow> sess_closed (pool_world p ! j) \<Longrightarrow> sess_closed (pool_world (terminate_all is p) ! j)"
  unfolding terminate_all_def
  by (induction "is" arbitrary: p) (auto simp: end_session_closed_stays)

lemma terminate_all_closes:
  "j \<in> set is \<Longrightarrow> j < length (pool_world p) \<Longrightarrow> sess_closed (pool_world (terminate_all is p) ! j)"
proof (induction "is" arbitrary: p)
  case (Cons i "is")
  have step: "terminate_all (i # is) p = terminate_all is (end_session i p)" by (simp add: terminate_all_def)
  show ?case
  proof (cases "j \<in> set is")
    case True
    with Cons.IH [of "end_session i p"] Cons.prems show ?thesis unfolding step by simp
  next
    case False
    then have "j = i" using Cons.prems by simp
    with Cons.prems terminate_all_closed_stays [of j "end_session i p"] end_session_closes [of i p]
    show ?thesis unfolding step by simp
  qed
qed simp



text \<open>
  The statistics can count an end that did not happen: inserting the same open session twice
  leaves one live session, but reports two started and one ended.
\<close>

theorem pool_stats_overcount:
  "let p = pool_run toy_aws_ext [PElsewhere (toy_session ''a''), PInsert 0, PInsert 0]
        (with_manager pool_config_default toy_manager)
   in \<not> sess_closed (pool_world p ! 0) \<and> fst (stats p) = \<lparr>live = 1, started_total = 2, ended_total = 1\<rparr>"
  by (simp add: pool_run_def with_manager_def pool_insert_def reap_def admit_def enter_def stats_def
      pool_config_default_def toy_session_def core_new_def Let_def)

end
