(* ===== verification/Reconnect.thy ===== *)
theory Reconnect
  imports Session
begin

text \<open>
  \<^verbatim>\<open>src/reconnect.rs\<close>: a handle that outlives the sessions underneath it. The sessions live in a
  store; the supervisor watches the current one and resumes or replaces it when it is lost; one pump
  per session forwards its output to the durable fan-out. The random number generator and the
  moments at which a shutdown arrives are parameters. Attempts are counted in 32 bits and wrap, as a
  \<^verbatim>\<open>u32\<close> does in a release build, and doubling a delay beyond what a \<^verbatim>\<open>Duration\<close> holds panics. The
  loop of a supervisor without a limit on attempts may run for ever, so it takes fuel, one unit
  per attempt.
\<close>

section \<open>State\<close>

record reconnect_config =
  max_attempts :: nat
  initial_delay :: duration
  max_delay :: duration
  rc_template :: session_config

definition reconnect_config_default :: reconnect_config where
  "reconnect_config_default = \<lparr>max_attempts = 10, initial_delay = secs 1, max_delay = secs 60,
     rc_template = config_default\<rparr>"

datatype reconnect_event =
    Disconnected close_reason
  | Reconnecting nat duration
  | Resumed string nat
  | Reconnected string nat
  | GaveUpReconnecting nat msg

record pump =
  pump_session :: nat
  pump_stream :: "nat option"
  pump_done :: bool

record reconnecting =
  rc_config :: reconnect_config
  rc_manager :: session_manager
  rc_current :: "nat option"
  rc_output :: output_fanout
  rc_events :: "reconnect_event list"
  rc_shutdown :: bool
  rc_generation :: nat
  rc_world :: "session list"
  rc_pumps :: "pump list"
  rc_calls :: "api_call list"

record reconnect_ext =
  gen_range :: "nat \<Rightarrow> nat \<Rightarrow> nat"
  shutdown_in_sleep :: "nat \<Rightarrow> bool"

definition rc_emit :: "reconnect_event \<Rightarrow> reconnecting \<Rightarrow> reconnecting" where
  "rc_emit e st = st\<lparr>rc_events := rc_events st @ [e]\<rparr>"

definition adopt :: "nat \<Rightarrow> reconnecting \<Rightarrow> reconnecting" where
  "adopt i st = st\<lparr>rc_current := Some i, rc_generation := rc_generation st + 1,
     rc_pumps := rc_pumps st @ [\<lparr>pump_session = i, pump_stream = None, pump_done = False\<rparr>]\<rparr>"

definition rc_add :: "session \<Rightarrow> reconnecting \<Rightarrow> nat \<times> reconnecting" where
  "rc_add s st = (length (rc_world st), st\<lparr>rc_world := rc_world st @ [s]\<rparr>)"

definition connect_with ::
    "aws_ext \<Rightarrow> string \<Rightarrow> reconnect_config \<Rightarrow> session_manager \<Rightarrow> api_call list
      \<Rightarrow> (reconnecting, error) result \<times> api_call list" where
  "connect_with A target config m calls =
    (let config' = config\<lparr>rc_template := (rc_template config)\<lparr>cfg_target := target\<rparr>\<rparr> in
     case start_session A m (rc_template config') calls of
       (Ok s, calls1) \<Rightarrow>
         (Ok (adopt 0 \<lparr>rc_config = config', rc_manager = m, rc_current = None, rc_output = fanout_new,
            rc_events = [], rc_shutdown = False, rc_generation = 0, rc_world = [s], rc_pumps = [],
            rc_calls = calls1\<rparr>), calls1)
     | (Err e, calls1) \<Rightarrow> (Err e, calls1)
     | (Panic, calls1) \<Rightarrow> (Panic, calls1))"

definition rc_connect ::
    "aws_ext \<Rightarrow> sdk_loader \<Rightarrow> string \<Rightarrow> reconnect_config \<Rightarrow> api_call list
      \<Rightarrow> (reconnecting, error) result \<times> api_call list" where
  "rc_connect A load target config calls =
    (case manager_new load of
       Ok m \<Rightarrow> connect_with A target config m calls
     | Err e \<Rightarrow> (Err e, calls)
     | Panic \<Rightarrow> (Panic, calls))"

section \<open>Reconnecting\<close>

text \<open>\<^verbatim>\<open>jitter\<close>: a sample from zero to the ceiling, in whole milliseconds.\<close>

definition jitter :: "reconnect_ext \<Rightarrow> nat \<Rightarrow> duration \<Rightarrow> duration" where
  "jitter R n ceiling =
    (let ms = min (ceiling div 1000000) (2 ^ 64 - 1) in
     if ms = 0 then 0 else millis (gen_range R n ms))"

text \<open>
  One attempt: resume, if there is something to resume, else start anew. The result is
  \<^const>\<open>None\<close> when the loop goes round again; then comes what the next round can resume.
\<close>

definition attempt_start ::
    "aws_ext \<Rightarrow> nat \<Rightarrow> reconnecting \<Rightarrow> (unit, error) result option \<times> reconnecting" where
  "attempt_start A attempt st =
    (case start_session A (rc_manager st) (rc_template (rc_config st)) (rc_calls st) of
       (Ok s, calls) \<Rightarrow>
         let (i, st1) = rc_add s (st\<lparr>rc_calls := calls\<rparr>)
         in (Some (Ok ()), rc_emit (Reconnected (sess_id s) attempt) (adopt i st1))
     | (Err e, calls) \<Rightarrow> (if is_retriable e then None else Some (Err e), st\<lparr>rc_calls := calls\<rparr>)
     | (Panic, calls) \<Rightarrow> (Some Panic, st\<lparr>rc_calls := calls\<rparr>))"

definition attempt_once ::
    "aws_ext \<Rightarrow> nat \<Rightarrow> (string \<times> continuity) option \<Rightarrow> reconnecting
      \<Rightarrow> (unit, error) result option \<times> (string \<times> continuity) option \<times> reconnecting" where
  "attempt_once A attempt resume_from st =
    (case resume_from of
       None \<Rightarrow> let (r, st1) = attempt_start A attempt st in (r, None, st1)
     | Some (sid, k) \<Rightarrow>
         (case resume_session A (rc_manager st) sid (rc_template (rc_config st)) k (rc_calls st) of
            (Ok (Some s), calls) \<Rightarrow>
              let (i, st1) = rc_add s (st\<lparr>rc_calls := calls\<rparr>)
              in (Some (Ok ()), resume_from, rc_emit (Resumed sid attempt) (adopt i st1))
          | (Ok None, calls) \<Rightarrow>
              let (r, st1) = attempt_start A attempt (st\<lparr>rc_calls := calls\<rparr>) in (r, None, st1)
          | (Err e, calls) \<Rightarrow>
              if \<not> is_retriable e
              then let (r, st1) = attempt_start A attempt (st\<lparr>rc_calls := calls\<rparr>) in (r, None, st1)
              else (None, resume_from, st\<lparr>rc_calls := calls\<rparr>)
          | (Panic, calls) \<Rightarrow> (Some Panic, resume_from, st\<lparr>rc_calls := calls\<rparr>)))"

fun reconnect_loop ::
    "nat \<Rightarrow> aws_ext \<Rightarrow> reconnect_ext \<Rightarrow> (string \<times> continuity) option \<Rightarrow> nat \<Rightarrow> duration \<Rightarrow> reconnecting
      \<Rightarrow> ((unit, error) result \<times> reconnecting) option" where
  "reconnect_loop 0 A R resume_from made ceiling st = None"
| "reconnect_loop (Suc fuel) A R resume_from made ceiling st =
    (let attempt = (made + 1) mod 2 ^ 32; limit = max_attempts (rc_config st) in
     if limit > 0 \<and> attempt > limit then
       Some (Err (Transport [Txt ''gave up reconnecting to '', Str (cfg_target (rc_template (rc_config st))),
         Txt '' after '', Num (int limit), Txt '' attempts'']), st)
     else
       let delay = jitter R attempt ceiling; st1 = rc_emit (Reconnecting attempt delay) st in
       if rc_shutdown st1 \<or> shutdown_in_sleep R attempt then
         Some (Err (SessionClosed [Txt ''shutdown requested while reconnecting'']), st1)
       else case attempt_once A attempt resume_from st1 of
         (Some r, _, st2) \<Rightarrow> Some (r, st2)
       | (None, resume', st2) \<Rightarrow>
           if DURATION_MAX < ceiling * 2 then Some (Panic, st2)
           else reconnect_loop fuel A R resume' attempt (min (ceiling * 2) (max_delay (rc_config st))) st2)"

definition reconnect ::
    "nat \<Rightarrow> aws_ext \<Rightarrow> reconnect_ext \<Rightarrow> (string \<times> continuity) option \<Rightarrow> reconnecting
      \<Rightarrow> ((unit, error) result \<times> reconnecting) option" where
  "reconnect fuel A R resume_from st =
    reconnect_loop fuel A R resume_from 0 (initial_delay (rc_config st)) st"

section \<open>The supervisor\<close>

definition rc_finish :: "reconnecting \<Rightarrow> reconnecting" where
  "rc_finish st = st\<lparr>rc_output := fanout_close (rc_output st), rc_current := None\<rparr>"

text \<open>One round of the supervisor's loop; \<^const>\<open>False\<close> when it was the last.\<close>

definition supervise_step ::
    "nat \<Rightarrow> aws_ext \<Rightarrow> reconnect_ext \<Rightarrow> reconnecting \<Rightarrow> (bool \<times> reconnecting) option" where
  "supervise_step fuel A R st =
    (case rc_current st of
       None \<Rightarrow> Some (False, st)
     | Some i \<Rightarrow>
         let s = rc_world st ! i in
         if rc_shutdown st then Some (False, st)
         else if \<not> sess_closed s then Some (True, st)
         else
           let reason = (case close_reason (sess_core s) of
                 Some r \<Rightarrow> r | None \<Rightarrow> Transport_Failure [Txt ''connection lost'']);
               st1 = rc_emit (Disconnected reason) st in
           if \<not> is_recoverable reason
           then Some (False, rc_finish (rc_emit (GaveUpReconnecting 0 (reason_to_string reason)) st1))
           else
             (case reconnect fuel A R
                (if is_resumable reason then Some (sess_id s, stream (chan s)) else None) st1 of
                None \<Rightarrow> None
              | Some (Ok _, st2) \<Rightarrow> Some (True, st2)
              | Some (Err e, st2) \<Rightarrow>
                  Some (False, rc_finish (rc_emit
                    (GaveUpReconnecting (max_attempts (rc_config st2)) (error_to_string e)) st2))
              | Some (Panic, st2) \<Rightarrow> Some (False, st2)))"

section \<open>The handle\<close>

text \<open>One look at the current session; \<open>expired\<close> says whether the deadline has passed.\<close>

definition rc_send_wait :: "bool \<Rightarrow> reconnecting \<Rightarrow> unit io" where
  "rc_send_wait expired st =
    (if rc_shutdown st then Done (Err (SessionClosed [Txt ''the reconnecting session has stopped'']))
     else if expired then Done (Err (Timeout (cfg_ready_timeout (rc_template (rc_config st)))))
     else Waits None)"

definition rc_send :: "bytes \<Rightarrow> bool \<Rightarrow> reconnecting \<Rightarrow> unit io \<times> reconnecting" where
  "rc_send data expired st =
    (case rc_current st of
       Some i \<Rightarrow>
         if sess_closed (rc_world st ! i) then (rc_send_wait expired st, st)
         else
           let (r, s) = session_send data (rc_world st ! i);
               st1 = st\<lparr>rc_world := (rc_world st)[i := s]\<rparr>
           in (case r of
                 Done (Err (SessionClosed _)) \<Rightarrow> (rc_send_wait expired st1, st1)
               | _ \<Rightarrow> (r, st1))
     | None \<Rightarrow> (rc_send_wait expired st, st))"

definition rc_target :: "reconnecting \<Rightarrow> string" where
  "rc_target st = cfg_target (rc_template (rc_config st))"

definition rc_current_session :: "reconnecting \<Rightarrow> session option" where
  "rc_current_session st = map_option (\<lambda>i. rc_world st ! i) (rc_current st)"

definition get_generation :: "reconnecting \<Rightarrow> nat" where
  "get_generation st = rc_generation st"

definition rc_is_ready :: "reconnecting \<Rightarrow> bool" where
  "rc_is_ready st =
    (case rc_current_session st of Some s \<Rightarrow> sess_ready s \<and> \<not> sess_closed s | None \<Rightarrow> False)"

definition rc_output_stream :: "reconnecting \<Rightarrow> nat \<times> reconnecting" where
  "rc_output_stream st =
    (let (k, f) = subscribe (cfg_output_buffer (rc_template (rc_config st))) (rc_output st)
     in (k, st\<lparr>rc_output := f\<rparr>))"

definition rc_terminate :: "reconnecting \<Rightarrow> (unit, error) result \<times> reconnecting" where
  "rc_terminate st =
    (case rc_current st of
       Some i \<Rightarrow>
         let (r, calls, s) = terminate (rc_calls st) (rc_world st ! i)
         in (r, st\<lparr>rc_shutdown := True, rc_current := None, rc_calls := calls,
                rc_world := (rc_world st)[i := s], rc_output := fanout_close (rc_output st)\<rparr>)
     | None \<Rightarrow> (Ok (), st\<lparr>rc_shutdown := True, rc_output := fanout_close (rc_output st)\<rparr>))"

text \<open>\<^verbatim>\<open>Drop\<close>, with the number of handles left before it: the last one raises the signal and aborts the supervisor.\<close>

definition rc_drop :: "nat \<Rightarrow> reconnecting \<Rightarrow> reconnecting" where
  "rc_drop handles st = (if handles = 1 then st\<lparr>rc_shutdown := True\<rparr> else st)"

section \<open>The pumps\<close>

text \<open>
  One step of pump \<open>j\<close>: its first is the subscription, which happens when the spawned task first
  runs; later ones forward a chunk.
\<close>

definition pump_step :: "nat \<Rightarrow> reconnecting \<Rightarrow> reconnecting" where
  "pump_step j st =
    (let p = rc_pumps st ! j; i = pump_session p; s = rc_world st ! i in
     if pump_done p then st
     else case pump_stream p of
       None \<Rightarrow>
         let (k, s1) = session_output s
         in st\<lparr>rc_world := (rc_world st)[i := s1], rc_pumps := (rc_pumps st)[j := p\<lparr>pump_stream := Some k\<rparr>]\<rparr>
     | Some k \<Rightarrow>
         let (r, f) = stream_recv k (fanout (sess_core s));
             st1 = st\<lparr>rc_world := (rc_world st)[i := s\<lparr>chan := (chan s)\<lparr>core := (sess_core s)\<lparr>fanout := f\<rparr>\<rparr>\<rparr>]\<rparr>
         in (case r of
               Got chunk \<Rightarrow> st1\<lparr>rc_output := fanout_send chunk (rc_output st1)\<rparr>
             | Ended \<Rightarrow> st1\<lparr>rc_pumps := (rc_pumps st)[j := p\<lparr>pump_done := True\<rparr>]\<rparr>
             | Waiting \<Rightarrow> st1))"

section \<open>Backoff and termination\<close>

text \<open>The ceiling of the delay before attempt \<open>n + 1\<close>.\<close>

fun backoff :: "reconnect_config \<Rightarrow> nat \<Rightarrow> duration" where
  "backoff c 0 = initial_delay c"
| "backoff c (Suc n) = min (backoff c n * 2) (max_delay c)"

lemma backoff_bounds:
  "backoff c n \<le> initial_delay c * 2 ^ n" "0 < n \<Longrightarrow> backoff c n \<le> max_delay c"
  by (induction n) (auto simp: min_le_iff_disj)

text \<open>Delays that can be doubled; the ceiling of every later attempt can be then, too.\<close>

definition doubles :: "duration \<Rightarrow> bool" where
  "doubles d \<longleftrightarrow> d * 2 \<le> DURATION_MAX"

lemma doubles_min [simp]: "doubles b \<Longrightarrow> doubles (min a b)"
  by (simp add: doubles_def min_def)

lemma jitter_le:
  assumes "\<forall>n m. gen_range R n m \<le> m"
  shows "jitter R n ceiling \<le> ceiling"
proof -
  let ?ms = "min (ceiling div 1000000) (2 ^ 64 - 1)"
  have "gen_range R n ?ms \<le> ceiling div 1000000" using assms min.cobounded1 order_trans by blast
  then have "millis (gen_range R n ?ms) \<le> ceiling div 1000000 * 1000000" by simp
  also have "\<dots> \<le> ceiling" by simp
  finally show ?thesis by (simp add: jitter_def Let_def)
qed

definition waits :: "reconnect_event list \<Rightarrow> (nat \<times> duration) list" where
  "waits es = concat (map (\<lambda>e. case e of Reconnecting n d \<Rightarrow> [(n, d)] | _ \<Rightarrow> []) es)"

lemma waits_simps [simp]:
  "waits [] = []" "waits (es @ es') = waits es @ waits es'"
  "waits (Reconnecting n d # es) = (n, d) # waits es" "waits (Resumed sid n # es) = waits es"
  "waits (Reconnected sid n # es) = waits es" "waits (Disconnected reason # es) = waits es"
  "waits (GaveUpReconnecting n why # es) = waits es"
  by (simp_all add: waits_def)

lemma reconnecting_frame [simp]:
  "rc_events (rc_emit e st) = rc_events st @ [e]" "rc_config (rc_emit e st) = rc_config st"
  "rc_calls (rc_emit e st) = rc_calls st" "rc_world (rc_emit e st) = rc_world st"
  "rc_manager (rc_emit e st) = rc_manager st" "rc_shutdown (rc_emit e st) = rc_shutdown st"
  "rc_current (rc_emit e st) = rc_current st"
  "rc_events (adopt i st) = rc_events st" "rc_config (adopt i st) = rc_config st"
  "rc_calls (adopt i st) = rc_calls st" "rc_world (adopt i st) = rc_world st"
  "rc_manager (adopt i st) = rc_manager st" "rc_current (adopt i st) = Some i"
  "rc_shutdown (adopt i st) = rc_shutdown st"
  by (simp_all add: rc_emit_def adopt_def)

lemma start_session_not_Panic: "fst (start_session A m cfg calls) \<noteq> Panic"
proof -
  have "response_fields x \<noteq> Panic" for x
    by (auto simp: response_fields_def ok_or_def bind_result_eq_Panic split: option.splits)
  then show ?thesis
    using session_open_not_Panic
    by (auto simp: start_session_def Let_def split: result.splits sum.splits)
qed

lemma resume_session_not_Panic: "fst (resume_session A m sid cfg k calls) \<noteq> Panic"
  using session_open_not_Panic
  by (auto simp: resume_session_def Let_def bind_result_eq_Panic split: result.splits sum.splits option.splits)

text \<open>What an attempt does to the state, apart from the calls it makes.\<close>

lemma attempt_start_frame:
  assumes "attempt_start A n st = (r, st')"
  shows "rc_config st' = rc_config st \<and> rc_manager st' = rc_manager st \<and> rc_shutdown st' = rc_shutdown st
    \<and> r \<noteq> Some Panic \<and> waits (rc_events st') = waits (rc_events st)
    \<and> (r \<noteq> Some (Ok ()) \<longrightarrow> rc_events st' = rc_events st \<and> rc_current st' = rc_current st)"
  using assms start_session_not_Panic [of A "rc_manager st" "rc_template (rc_config st)" "rc_calls st"]
  by (auto simp: attempt_start_def rc_add_def Let_def split: prod.splits result.splits if_splits)

lemma attempt_once_cases:
  assumes "attempt_once A n rf st = (r, rf', st')"
  obtains (new) "rf = None" "attempt_start A n st = (r, st')" "rf' = None"
  | (gone) sid k x calls where "rf = Some (sid, k)" "rf' = None"
      "resume_session A (rc_manager st) sid (rc_template (rc_config st)) k (rc_calls st) = (x, calls)"
      "x = Ok None \<or> (\<exists>e. x = Err e \<and> \<not> is_retriable e)"
      "attempt_start A n (st\<lparr>rc_calls := calls\<rparr>) = (r, st')"
  | (resumed) sid k s calls where "rf = Some (sid, k)" "r = Some (Ok ())"
      "resume_session A (rc_manager st) sid (rc_template (rc_config st)) k (rc_calls st) = (Ok (Some s), calls)"
      "st' = rc_emit (Resumed sid n) (adopt (length (rc_world st))
         (st\<lparr>rc_calls := calls, rc_world := rc_world st @ [s]\<rparr>))"
  | (again) sid k e calls where "rf = Some (sid, k)" "r = None" "rf' = rf" "is_retriable e"
      "resume_session A (rc_manager st) sid (rc_template (rc_config st)) k (rc_calls st) = (Err e, calls)"
      "st' = st\<lparr>rc_calls := calls\<rparr>"
proof (cases rf)
  case None
  then show thesis using new assms by (auto simp: attempt_once_def split: prod.splits)
next
  case (Some y)
  obtain sid k where y: "y = (sid, k)" by (cases y)
  obtain x calls where x: "resume_session A (rc_manager st) sid (rc_template (rc_config st)) k (rc_calls st) = (x, calls)"
    by fastforce
  consider s where "x = Ok (Some s)" | "x = Ok None" | e where "x = Err e" "\<not> is_retriable e"
    | e where "x = Err e" "is_retriable e"
    using resume_session_not_Panic [of A "rc_manager st" sid "rc_template (rc_config st)" k "rc_calls st"] x
    by (metis fst_conv option.exhaust result.exhaust)
  then show thesis
  proof cases
    case 1
    then show thesis using assms Some y x by (intro resumed) (auto simp: attempt_once_def rc_add_def)
  next
    case 2
    then show thesis
      using assms Some y x by (intro gone [of sid k x calls]) (auto simp: attempt_once_def split: prod.splits)
  next
    case 3
    then show thesis
      using assms Some y x by (intro gone [of sid k x calls]) (auto simp: attempt_once_def split: prod.splits)
  next
    case 4
    then show thesis using assms Some y x by (intro again) (auto simp: attempt_once_def)
  qed
qed

lemma attempt_once_frame:
  assumes "attempt_once A n rf st = (r, rf', st')"
  shows "rc_config st' = rc_config st \<and> rc_manager st' = rc_manager st \<and> rc_shutdown st' = rc_shutdown st
    \<and> r \<noteq> Some Panic \<and> waits (rc_events st') = waits (rc_events st)
    \<and> (r \<noteq> Some (Ok ()) \<longrightarrow> rc_events st' = rc_events st \<and> rc_current st' = rc_current st)"
  using assms by (cases rule: attempt_once_cases) (auto dest: attempt_start_frame)

lemma reconnect_loop_ends:
  assumes "0 < max_attempts (rc_config st)" and "made \<le> max_attempts (rc_config st)"
    and "max_attempts (rc_config st) - made < fuel" and "\<forall>n m. gen_range R n m \<le> m"
    and "ceiling = backoff (rc_config st) made" and "max_attempts (rc_config st) < 2 ^ 32 - 1"
    and "doubles ceiling" and "doubles (max_delay (rc_config st))"
  shows "\<exists>r st' ds. reconnect_loop fuel A R rf made ceiling st = Some (r, st') \<and> r \<noteq> Panic
    \<and> rc_config st' = rc_config st
    \<and> waits (rc_events st') = waits (rc_events st) @ zip [made + 1..<made + 1 + length ds] ds
    \<and> length ds \<le> max_attempts (rc_config st) - made
    \<and> (\<forall>j < length ds. ds ! j \<le> backoff (rc_config st) (made + j))"
  using assms
proof (induction fuel arbitrary: rf made ceiling st)
  case (Suc fuel)
  let ?c = "rc_config st"
  have wrap: "Suc made mod 4294967296 = Suc made" using Suc.prems(2,6) by simp
  show ?case
  proof (cases "made + 1 > max_attempts ?c")
    case True
    then show ?thesis using Suc.prems wrap by (intro exI [of _ "[]"] exI) (auto simp: Let_def)
  next
    case False
    let ?d = "jitter R (made + 1) ceiling"
    let ?st1 = "rc_emit (Reconnecting (made + 1) ?d) st"
    have d: "?d \<le> backoff ?c made" using jitter_le [OF Suc.prems(4)] Suc.prems(5) by simp
    show ?thesis
    proof (cases "rc_shutdown st \<or> shutdown_in_sleep R (made + 1)")
      case True
      then show ?thesis
        using False d Suc.prems wrap by (intro exI [of _ "[?d]"] exI) (auto simp: Let_def)
    next
      case awake: False
      obtain r rf' st2 where once: "attempt_once A (made + 1) rf ?st1 = (r, rf', st2)"
        by (metis prod_cases3)
      note fr = attempt_once_frame [OF once]
      show ?thesis
      proof (cases r)
        case (Some q)
        then show ?thesis
          using False awake d once fr Suc.prems wrap
          by (intro exI [of _ "[?d]"] exI [of _ q] exI [of _ st2]) (auto simp: Let_def)
      next
        case None
        have loop: "reconnect_loop (Suc fuel) A R rf made ceiling st
            = reconnect_loop fuel A R rf' (made + 1) (min (ceiling * 2) (max_delay ?c)) st2"
          using False awake once None wrap Suc.prems(7) by (simp add: Let_def doubles_def)
        have cfg: "rc_config st2 = ?c" using fr by simp
        have "\<exists>q st' ds. reconnect_loop fuel A R rf' (made + 1) (min (ceiling * 2) (max_delay ?c)) st2 = Some (q, st')
            \<and> q \<noteq> Panic \<and> rc_config st' = rc_config st2
            \<and> waits (rc_events st') = waits (rc_events st2) @ zip [made + 1 + 1..<made + 1 + 1 + length ds] ds
            \<and> length ds \<le> max_attempts (rc_config st2) - (made + 1)
            \<and> (\<forall>j < length ds. ds ! j \<le> backoff (rc_config st2) (made + 1 + j))"
          by (rule Suc.IH) (use False Suc.prems cfg in auto)
        then obtain q st' ds where ih: "reconnect_loop fuel A R rf' (made + 1) (min (ceiling * 2) (max_delay ?c)) st2
              = Some (q, st')" "q \<noteq> Panic" "rc_config st' = ?c"
            "waits (rc_events st') = waits (rc_events st2) @ zip [made + 2..<made + 2 + length ds] ds"
            "length ds \<le> max_attempts ?c - (made + 1)" "\<forall>j < length ds. ds ! j \<le> backoff ?c (made + 1 + j)"
          unfolding cfg by auto
        have "waits (rc_events st2) = waits (rc_events st) @ [(made + 1, ?d)]" using fr by simp
        then have w: "waits (rc_events st') = waits (rc_events st)
            @ zip [made + 1..<made + 1 + length (?d # ds)] (?d # ds)"
          using ih(4) by (simp add: upt_conv_Cons [of "Suc made"] del: upt_Suc)
        have "\<forall>j < length (?d # ds). (?d # ds) ! j \<le> backoff ?c (made + j)"
          using d ih(6) by (auto simp: nth_Cons split: nat.split)
        with w ih(1-3,5) False loop show ?thesis
          by (intro exI [of _ q] exI [of _ st'] exI [of _ "?d # ds"]) auto
      qed
    qed
  qed
qed simp

section \<open>Calls to the service\<close>

definition no_resume :: "api_call list \<Rightarrow> bool" where
  "no_resume xs \<longleftrightarrow> (\<forall>s. ResumeSession s \<notin> set xs)"

lemma no_resume_simps [simp]:
  "no_resume []" "no_resume (xs @ ys) \<longleftrightarrow> no_resume xs \<and> no_resume ys"
  "no_resume (StartSession q # xs) = no_resume xs" "no_resume (TerminateSession s # xs) = no_resume xs"
  by (auto simp: no_resume_def)

text \<open>An attempt to start anew: its calls, and the session it installs.\<close>

lemma attempt_start_calls:
  assumes "attempt_start A n st = (r, st')"
  obtains xs where "rc_calls st' = rc_calls st @ xs" "no_resume xs"
    and "r = Some (Ok ()) \<Longrightarrow> xs \<noteq> [] \<and> (\<exists>s. rc_world st' = rc_world st @ [s]
      \<and> rc_current st' = Some (length (rc_world st)) \<and> \<not> sess_closed s \<and> stream (chan s) = continuity_fresh)"
    and "r \<noteq> Some (Ok ()) \<Longrightarrow> rc_world st' = rc_world st"
proof -
  let ?cfg = "rc_template (rc_config st)"
  obtain x calls where x: "start_session A (rc_manager st) ?cfg (rc_calls st) = (x, calls)" by fastforce
  consider s where "x = Ok s" "calls = rc_calls st @ [StartSession (build_start_request ?cfg)]"
      "\<not> sess_closed s" "stream (chan s) = continuity_fresh"
    | e xs where "x = Err e" "calls = rc_calls st @ xs" "no_resume xs"
    using start_session_outcome [OF x] by fastforce
  then show thesis
  proof cases
    case 1
    then have "r = Some (Ok ())" "st' = rc_emit (Reconnected (sess_id s) n) (adopt (length (rc_world st))
        (st\<lparr>rc_calls := calls, rc_world := rc_world st @ [s]\<rparr>))"
      using assms x by (simp_all add: attempt_start_def rc_add_def)
    with 1 show thesis by (intro that [of "[StartSession (build_start_request ?cfg)]"]) auto
  next
    case 2
    then have "r \<noteq> Some (Ok ())" "st' = st\<lparr>rc_calls := calls\<rparr>"
      using assms x by (auto simp: attempt_start_def split: if_splits)
    with 2 show thesis by (intro that [of xs]) auto
  qed
qed

lemma resume_session_calls:
  assumes "resume_session A m sid cfg k calls = (x, calls')" and "stream_inv k"
  shows "calls' = calls @ [ResumeSession sid] \<or> (calls' = calls \<and> (\<exists>e. x = Err e \<and> \<not> is_retriable e))"
    and "x = Ok (Some s) \<Longrightarrow> sess_id s = sid \<and> stream (chan s) = k \<and> \<not> sess_closed s"
proof -
  have "is_retriable e = False" if "validate_config cfg = Err e" for e
    using that by (auto simp: validate_config_def validate_reason_def Let_def split: if_splits option.splits)
  then show "calls' = calls @ [ResumeSession sid] \<or> (calls' = calls \<and> (\<exists>e. x = Err e \<and> \<not> is_retriable e))"
    using assms(1) by (auto simp: resume_session_def Let_def split: result.splits sum.splits option.splits if_splits)
  assume "x = Ok (Some s)"
  then obtain url tok where "session_open (conn_env A calls') (net_env A calls') (time_env A calls')
      \<lparr>op_session_id = sid, op_config = cfg, op_stream_url = url, op_token = tok,
       op_ssm = True, op_signer = mgr_signer m, op_continuity = k, op_kms = mgr_kms m\<rparr> = Ok s"
    using assms(1) by (auto simp: resume_session_def Let_def split: result.splits sum.splits option.splits if_splits)
  from session_open_Ok [OF this, simplified, OF assms(2)]
  show "sess_id s = sid \<and> stream (chan s) = k \<and> \<not> sess_closed s" by simp
qed

text \<open>
  What \<open>reconnect\<close> hands over on success: one more session, installed and open, that carries on
  \<open>sid\<close> with its stream, or that is new.
\<close>

definition carries_on :: "string \<Rightarrow> continuity \<Rightarrow> session list \<Rightarrow> reconnecting \<Rightarrow> bool" where
  "carries_on sid k w st \<longleftrightarrow> (case rc_current st of None \<Rightarrow> False | Some i \<Rightarrow>
     i = length w \<and> length (rc_world st) = i + 1 \<and> take i (rc_world st) = w
     \<and> \<not> sess_closed (rc_world st ! i) \<and> sess_id (rc_world st ! i) = sid
     \<and> stream (chan (rc_world st ! i)) = k)"

definition starts_anew :: "session list \<Rightarrow> reconnecting \<Rightarrow> bool" where
  "starts_anew w st \<longleftrightarrow> (case rc_current st of None \<Rightarrow> False | Some i \<Rightarrow>
     i = length w \<and> length (rc_world st) = i + 1 \<and> take i (rc_world st) = w
     \<and> \<not> sess_closed (rc_world st ! i) \<and> stream (chan (rc_world st ! i)) = continuity_fresh)"

lemma starts_anewI:
  "rc_world st = w @ [s] \<Longrightarrow> rc_current st = Some (length w) \<Longrightarrow> \<not> sess_closed s
    \<Longrightarrow> stream (chan s) = continuity_fresh \<Longrightarrow> starts_anew w st"
  by (simp add: starts_anew_def)

lemma carries_onI:
  "rc_world st = w @ [s] \<Longrightarrow> rc_current st = Some (length w) \<Longrightarrow> \<not> sess_closed s
    \<Longrightarrow> sess_id s = sid \<Longrightarrow> stream (chan s) = k \<Longrightarrow> carries_on sid k w st"
  by (simp add: carries_on_def)

text \<open>The service, asked after the calls so far, says that the session cannot be resumed.\<close>

definition resume_refused ::
    "aws_ext \<Rightarrow> session_manager \<Rightarrow> string \<Rightarrow> session_config \<Rightarrow> continuity \<Rightarrow> api_call list \<Rightarrow> bool" where
  "resume_refused A m sid cfg k calls =
    (case fst (resume_session A m sid cfg k calls) of
       Ok None \<Rightarrow> True | Ok (Some s) \<Rightarrow> False | Err e \<Rightarrow> \<not> is_retriable e | Panic \<Rightarrow> False)"

lemma attempt_start_effect:
  assumes "attempt_start A n st = (r, st')"
  shows "\<exists>xs. rc_calls st' = rc_calls st @ xs \<and> no_resume xs \<and> r \<noteq> Some Panic
    \<and> (r = Some (Ok ()) \<longrightarrow> xs \<noteq> [] \<and> starts_anew (rc_world st) st')
    \<and> (r \<noteq> Some (Ok ()) \<longrightarrow> rc_world st' = rc_world st)
    \<and> rc_manager st' = rc_manager st \<and> rc_config st' = rc_config st"
proof -
  from attempt_start_calls [OF assms] obtain xs where xs: "rc_calls st' = rc_calls st @ xs" "no_resume xs"
    "r = Some (Ok ()) \<Longrightarrow> xs \<noteq> [] \<and> (\<exists>s. rc_world st' = rc_world st @ [s]
      \<and> rc_current st' = Some (length (rc_world st)) \<and> \<not> sess_closed s \<and> stream (chan s) = continuity_fresh)"
    "r \<noteq> Some (Ok ()) \<Longrightarrow> rc_world st' = rc_world st" by blast
  moreover have "r = Some (Ok ()) \<Longrightarrow> starts_anew (rc_world st) st'" using xs(3) starts_anewI by blast
  ultimately show ?thesis using attempt_start_frame [OF assms] by blast
qed

text \<open>One round of the loop, unfolded once for the proofs about it.\<close>

lemma reconnect_loop_round:
  assumes "reconnect_loop (Suc fuel) A R rf made ceiling st = Some (r, st')"
    and "doubles ceiling"
  obtains (stop) e where "r = Err e" "rc_calls st' = rc_calls st" "rc_world st' = rc_world st"
  | (round) q n rf' st1 st2 where "attempt_once A n rf st1 = (q, rf', st2)"
      "rc_calls st1 = rc_calls st" "rc_world st1 = rc_world st" "rc_config st1 = rc_config st"
      "rc_manager st1 = rc_manager st"
      "q = Some r \<and> st' = st2 \<or> q = None \<and>
        reconnect_loop fuel A R rf' n (min (ceiling * 2) (max_delay (rc_config st))) st2 = Some (r, st')"
proof -
  define n where "n = (made + 1) mod 2 ^ 32"
  let ?st1 = "rc_emit (Reconnecting n (jitter R n ceiling)) st"
  obtain q rf' st2 where once: "attempt_once A n rf ?st1 = (q, rf', st2)" by (metis prod_cases3)
  show thesis
  proof (cases "(max_attempts (rc_config st) > 0 \<and> n > max_attempts (rc_config st))
      \<or> rc_shutdown st \<or> shutdown_in_sleep R n")
    case True
    then show thesis using assms stop by (auto simp: Let_def n_def split: if_splits)
  next
    case False
    then show thesis
      using assms once
      by (intro round [OF once])
        (auto simp: Let_def doubles_def simp flip: n_def [simplified] split: if_splits option.splits)
  qed
qed

lemma reconnect_loop_new:
  assumes "reconnect_loop fuel A R None made ceiling st = Some (r, st')"
    and "doubles ceiling" and "doubles (max_delay (rc_config st))"
  shows "\<exists>xs. rc_calls st' = rc_calls st @ xs \<and> no_resume xs \<and> r \<noteq> Panic
    \<and> (r = Ok () \<longrightarrow> xs \<noteq> [] \<and> starts_anew (rc_world st) st')"
  using assms
proof (induction fuel arbitrary: made ceiling st)
  case (Suc fuel)
  from Suc.prems(1,2) show ?case
  proof (cases rule: reconnect_loop_round)
    case (round q n rf' st1 st2)
    then have q: "attempt_start A n st1 = (q, st2)" "rf' = None"
      by (auto simp: attempt_once_def split: prod.splits)
    from attempt_start_effect [OF q(1)] obtain xs where
      "rc_calls st2 = rc_calls st @ xs" "no_resume xs" "q \<noteq> Some Panic"
      "q = Some (Ok ()) \<longrightarrow> xs \<noteq> [] \<and> starts_anew (rc_world st) st2"
      "q \<noteq> Some (Ok ()) \<longrightarrow> rc_world st2 = rc_world st" "rc_config st2 = rc_config st" unfolding round by blast
    with Suc.IH [of n "min (ceiling * 2) (max_delay (rc_config st))" st2] Suc.prems(3) round(6) q(2)
    show ?thesis by fastforce
  qed auto
qed simp

lemma reconnect_loop_resume:
  assumes "reconnect_loop fuel A R (Some (sid, k)) made ceiling st = Some (r, st')" and "stream_inv k"
    and "doubles ceiling" and "doubles (max_delay (rc_config st))"
  shows "\<exists>n xs. rc_calls st' = rc_calls st @ replicate n (ResumeSession sid) @ xs \<and> no_resume xs \<and> r \<noteq> Panic
    \<and> (xs \<noteq> [] \<longrightarrow> (\<exists>j \<le> n. resume_refused A (rc_manager st) sid (rc_template (rc_config st)) k
        (rc_calls st @ replicate j (ResumeSession sid))))
    \<and> (r = Ok () \<longrightarrow> (if xs = [] then carries_on sid k (rc_world st) st' else starts_anew (rc_world st) st'))"
  using assms(1,3,4)
proof (induction fuel arbitrary: made ceiling st)
  case (Suc fuel)
  from Suc.prems(1,2) show ?case
  proof (cases rule: reconnect_loop_round)
    case (stop e)
    then show ?thesis by (intro exI [of _ 0] exI [of _ "[]"]) simp
  next
    case (round q m rf' st1 st2)
    note st1 = round(2-5)
    from round(1) show ?thesis
    proof (cases rule: attempt_once_cases)
      case (gone sid' k' x calls)
      then have id: "sid' = sid" "k' = k" by auto
      then have refused: "resume_refused A (rc_manager st) sid (rc_template (rc_config st)) k (rc_calls st)"
        using gone(3,4) st1 by (auto simp: resume_refused_def)
      obtain n where n: "calls = rc_calls st @ replicate n (ResumeSession sid)"
        using resume_session_calls(1) [OF gone(3)] assms(2) id st1
        by (metis append_Nil2 replicate_0 replicate_Suc)
      from attempt_start_effect [OF gone(5)] obtain xs where xs:
        "rc_calls st2 = rc_calls st @ replicate n (ResumeSession sid) @ xs" "no_resume xs" "q \<noteq> Some Panic"
        "q = Some (Ok ()) \<longrightarrow> xs \<noteq> [] \<and> starts_anew (rc_world st) st2"
        "q \<noteq> Some (Ok ()) \<longrightarrow> rc_world st2 = rc_world st" "rc_config st2 = rc_config st" using n st1 by auto
      have "\<exists>ys. rc_calls st' = rc_calls st @ replicate n (ResumeSession sid) @ ys \<and> no_resume ys \<and> r \<noteq> Panic
          \<and> (r = Ok () \<longrightarrow> ys \<noteq> [] \<and> starts_anew (rc_world st) st')"
        using round(6)
      proof
        assume "q = Some r \<and> st' = st2"
        then show ?thesis using xs by (intro exI [of _ xs]) auto
      next
        assume rec: "q = None \<and> reconnect_loop fuel A R rf' m
          (min (ceiling * 2) (max_delay (rc_config st))) st2 = Some (r, st')"
        then obtain ys where "rc_calls st' = rc_calls st2 @ ys" "no_resume ys" "r \<noteq> Panic"
          "r = Ok () \<longrightarrow> ys \<noteq> [] \<and> starts_anew (rc_world st2) st'"
          using reconnect_loop_new [of fuel A R m _ st2 r st'] gone(2) Suc.prems(3) xs(6) doubles_min by metis
        then show ?thesis using xs rec by (intro exI [of _ "xs @ ys"]) auto
      qed
      then show ?thesis using refused by (metis append_Nil2 le0 replicate_0)
    next
      case (resumed sid' k' s calls)
      then have id: "sid' = sid" "k' = k" by auto
      note s = resume_session_calls [OF resumed(3)]
      have "r = Ok ()" "st' = st2" using round(6) resumed(2) by auto
      moreover have "carries_on sid k (rc_world st) st2"
        using s(2) assms(2) id resumed(4) st1 by (intro carries_onI [where s = s]) auto
      moreover have "rc_calls st2 = rc_calls st @ [ResumeSession sid]"
        using s(1) assms(2) id resumed(4) st1 by auto
      ultimately show ?thesis by (intro exI [of _ 1] exI [of _ "[]"]) simp
    next
      case (again sid' k' e calls)
      then have id: "sid' = sid" "k' = k" by auto
      have st2: "rc_calls st2 = rc_calls st @ [ResumeSession sid]" "rc_world st2 = rc_world st"
          "rc_manager st2 = rc_manager st" "rc_config st2 = rc_config st"
        using resume_session_calls(1) [OF again(5)] again(4,6) assms(2) id st1 by auto
      have "doubles (max_delay (rc_config st2))" using Suc.prems(3) st2 by simp
      with Suc.IH [of m _ st2] round(6) again(2,3) id doubles_min [OF Suc.prems(3)] obtain n xs where ih:
        "rc_calls st' = rc_calls st2 @ replicate n (ResumeSession sid) @ xs" "no_resume xs" "r \<noteq> Panic"
        "xs \<noteq> [] \<longrightarrow> (\<exists>j \<le> n. resume_refused A (rc_manager st2) sid (rc_template (rc_config st2)) k
          (rc_calls st2 @ replicate j (ResumeSession sid)))"
        "r = Ok () \<longrightarrow> (if xs = [] then carries_on sid k (rc_world st2) st' else starts_anew (rc_world st2) st')"
        by (metis option.distinct(1))
      have "\<exists>j \<le> Suc n. resume_refused A (rc_manager st) sid (rc_template (rc_config st)) k
          (rc_calls st @ replicate j (ResumeSession sid))" if "xs \<noteq> []"
      proof -
        from ih(4) that obtain j where "j \<le> n" "resume_refused A (rc_manager st) sid (rc_template (rc_config st)) k
            (rc_calls st @ replicate (Suc j) (ResumeSession sid))" unfolding st2 by auto
        then show ?thesis by (intro exI [of _ "Suc j"]) simp
      qed
      then show ?thesis using ih st2 by (intro exI [of _ "Suc n"] exI [of _ xs]) auto
    qed auto
  qed
qed simp

lemma reconnect_calls:
  assumes "reconnect fuel A R (if can then Some (sid, k) else None) st = Some (r, st')" and "stream_inv k"
    and "doubles (initial_delay (rc_config st))" and "doubles (max_delay (rc_config st))"
  shows "\<exists>n xs. rc_calls st' = rc_calls st @ replicate n (ResumeSession sid) @ xs \<and> no_resume xs
    \<and> r \<noteq> Panic \<and> (\<not> can \<longrightarrow> n = 0)
    \<and> (can \<and> xs \<noteq> [] \<longrightarrow> (\<exists>j \<le> n. resume_refused A (rc_manager st) sid (rc_template (rc_config st)) k
        (rc_calls st @ replicate j (ResumeSession sid))))
    \<and> (r = Ok () \<longrightarrow> (if xs = [] then carries_on sid k (rc_world st) st' else starts_anew (rc_world st) st'))"
proof (cases can)
  case True
  then show ?thesis
    using assms reconnect_loop_resume [of fuel A R sid k 0 "initial_delay (rc_config st)" st r st']
    by (simp add: reconnect_def)
next
  case False
  then obtain xs where "rc_calls st' = rc_calls st @ xs" "no_resume xs" "r \<noteq> Panic"
      "r = Ok () \<longrightarrow> xs \<noteq> [] \<and> starts_anew (rc_world st) st'"
    using assms reconnect_loop_new [of fuel A R 0 "initial_delay (rc_config st)" st r st']
    by (auto simp: reconnect_def)
  then show ?thesis using False by (intro exI [of _ 0] exI [of _ xs]) auto
qed

section \<open>Properties\<close>

definition toy_gen_range :: "nat \<Rightarrow> nat \<Rightarrow> nat" where
  "toy_gen_range n m = m div 2"

definition toy_reconnect_ext :: reconnect_ext where
  "toy_reconnect_ext = \<lparr>gen_range = toy_gen_range, shutdown_in_sleep = (\<lambda>n. False)\<rparr>"

definition toy_lost :: "string \<Rightarrow> session" where
  "toy_lost sid = \<lparr>chan = toy_reader\<lparr>core := core_close (PeerUnresponsive (secs 120)) (core_new sid 4),
     stream := continuity_fresh\<rparr>, sess_config = toy_config, sess_ssm = True, sess_tasks = 0\<rparr>"

definition toy_reconnecting :: "string \<Rightarrow> reconnecting" where
  "toy_reconnecting sid = adopt 0 \<lparr>rc_config = reconnect_config_default\<lparr>rc_template := toy_config\<rparr>,
     rc_manager = toy_manager, rc_current = None, rc_output = fanout_new, rc_events = [],
     rc_shutdown = False, rc_generation = 0, rc_world = [toy_lost sid], rc_pumps = [], rc_calls = []\<rparr>"

lemma toy_reconnecting_simps:
  "rc_current (toy_reconnecting sid) = Some 0" "rc_world (toy_reconnecting sid) = [toy_lost sid]"
  "\<not> rc_shutdown (toy_reconnecting sid)" "rc_calls (toy_reconnecting sid) = []"
  "rc_events (toy_reconnecting sid) = []" "rc_manager (toy_reconnecting sid) = toy_manager"
  "rc_config (toy_reconnecting sid) = reconnect_config_default\<lparr>rc_template := toy_config\<rparr>"
  "sess_closed (toy_lost sid)" "close_reason (sess_core (toy_lost sid)) = Some (PeerUnresponsive (secs 120))"
  "stream (chan (toy_lost sid)) = continuity_fresh" "sess_id (toy_lost sid) = sid"
  by (simp_all add: toy_reconnecting_def toy_lost_def adopt_def core_close_def core_new_def)

text \<open>
  (C27) Reconnecting with a limit on attempts that its 32-bit counter can exceed always ends, and never
  by a panic, provided that the configured delays can be doubled without an overflow. At most as many
  attempts are announced as the limit allows, numbered from one without a gap; the delay announced
  before attempt \<open>j + 1\<close> is at most \<open>2\<^sup>j\<close> times the initial delay, and from the second on at most
  the configured maximum.
\<close>

theorem reconnect_bounded:
  assumes "0 < max_attempts (rc_config st)" and "max_attempts (rc_config st) < fuel"
    and "max_attempts (rc_config st) < 2 ^ 32 - 1" and "\<forall>n m. gen_range R n m \<le> m"
    and "doubles (initial_delay (rc_config st))" and "doubles (max_delay (rc_config st))"
  shows "\<exists>r st' ds. reconnect fuel A R resume_from st = Some (r, st') \<and> r \<noteq> Panic
    \<and> waits (rc_events st') = waits (rc_events st) @ zip [1..<length ds + 1] ds
    \<and> length ds \<le> max_attempts (rc_config st)
    \<and> (\<forall>j < length ds. ds ! j \<le> initial_delay (rc_config st) * 2 ^ j
        \<and> (0 < j \<longrightarrow> ds ! j \<le> max_delay (rc_config st)))"
proof -
  obtain r st' ds where "reconnect_loop fuel A R resume_from 0 (initial_delay (rc_config st)) st = Some (r, st')"
      "r \<noteq> Panic" "waits (rc_events st') = waits (rc_events st) @ zip [1..<1 + length ds] ds"
      "length ds \<le> max_attempts (rc_config st)" "\<forall>j < length ds. ds ! j \<le> backoff (rc_config st) j"
    using reconnect_loop_ends [of st 0 fuel R "initial_delay (rc_config st)" A resume_from] assms by auto
  moreover from this have "\<forall>j < length ds. ds ! j \<le> initial_delay (rc_config st) * 2 ^ j
        \<and> (0 < j \<longrightarrow> ds ! j \<le> max_delay (rc_config st))"
    using backoff_bounds order_trans by blast
  ultimately show ?thesis by (auto simp: reconnect_def)
qed

theorem reconnect_bounded_witness:
  "\<exists>r st'. reconnect 11 toy_aws_ext toy_reconnect_ext None (toy_reconnecting ''s-0'') = Some (r, st') \<and> r \<noteq> Panic
    \<and> length (waits (rc_events st')) \<le> 10"
proof -
  have "\<exists>r st' ds. reconnect 11 toy_aws_ext toy_reconnect_ext None (toy_reconnecting ''s-0'') = Some (r, st')
      \<and> r \<noteq> Panic \<and> waits (rc_events st') = waits (rc_events (toy_reconnecting ''s-0'')) @ zip [1..<length ds + 1] ds
      \<and> length ds \<le> max_attempts (rc_config (toy_reconnecting ''s-0''))
      \<and> (\<forall>j < length ds. ds ! j \<le> initial_delay (rc_config (toy_reconnecting ''s-0'')) * 2 ^ j
        \<and> (0 < j \<longrightarrow> ds ! j \<le> max_delay (rc_config (toy_reconnecting ''s-0''))))"
    by (rule reconnect_bounded)
      (simp_all add: toy_reconnecting_simps reconnect_config_default_def toy_reconnect_ext_def toy_gen_range_def
        doubles_def DURATION_MAX_def)
  then show ?thesis by (fastforce simp: toy_reconnecting_simps reconnect_config_default_def)
qed

text \<open>
  (C12) What the supervisor does about a session that has ended, with delays that can be doubled without
  an overflow. If the reason cannot be fixed by a
  retry, it makes no call and stops. Otherwise it first asks to resume, as often as needed and only
  if the reason allows it, and asks for a new session only once a resume has been refused for good;
  no resume comes after that. If it goes on, the handle holds one more session, open: the old id
  with the old stream state if no new session was asked for, else a session with a fresh stream.
  If it stops, the handle holds no session, the durable output is closed and the last event is that
  it gave up.
\<close>

theorem supervisor_prefers_resume:
  assumes "rc_current st = Some i" and "\<not> rc_shutdown st" and "s = rc_world st ! i" and "sess_closed s"
    and "close_reason (sess_core s) = Some reason" and "stream_inv (stream (chan s))"
    and "supervise_step fuel A R st = Some (go, st')"
    and "doubles (initial_delay (rc_config st))" and "doubles (max_delay (rc_config st))"
  shows "\<exists>n xs. rc_calls st' = rc_calls st @ replicate n (ResumeSession (sess_id s)) @ xs \<and> no_resume xs
    \<and> (\<not> is_resumable reason \<longrightarrow> n = 0) \<and> (\<not> is_recoverable reason \<longrightarrow> xs = [] \<and> \<not> go)
    \<and> (is_resumable reason \<and> xs \<noteq> [] \<longrightarrow> (\<exists>j \<le> n. resume_refused A (rc_manager st) (sess_id s)
        (rc_template (rc_config st)) (stream (chan s)) (rc_calls st @ replicate j (ResumeSession (sess_id s)))))
    \<and> (if go then (if xs = [] then carries_on (sess_id s) (stream (chan s)) (rc_world st) st'
                   else starts_anew (rc_world st) st')
       else rc_current st' = None \<and> fan_closed (rc_output st')
         \<and> (\<exists>n why. last (rc_events st') = GaveUpReconnecting n why))"
proof (cases "is_recoverable reason")
  case False
  then show ?thesis
    using assms by (intro exI [of _ 0] exI [of _ "[]"])
      (auto simp: supervise_step_def rc_finish_def fanout_close_def Let_def)
next
  case True
  let ?rf = "if is_resumable reason then Some (sess_id s, stream (chan s)) else None"
  let ?st1 = "rc_emit (Disconnected reason) st"
  obtain r st2 where rec: "reconnect fuel A R ?rf ?st1 = Some (r, st2)"
    using assms True by (auto simp: supervise_step_def Let_def split: option.splits)
  have step: "supervise_step fuel A R st = (case r of Ok _ \<Rightarrow> Some (True, st2)
      | Err e \<Rightarrow> Some (False, rc_finish (rc_emit
          (GaveUpReconnecting (max_attempts (rc_config st2)) (error_to_string e)) st2))
      | Panic \<Rightarrow> Some (False, st2))"
    using assms True rec by (auto simp: supervise_step_def Let_def split: result.splits)
  from reconnect_calls [OF rec assms(6)] assms(8,9)
  obtain n xs where outcome: "rc_calls st2 = rc_calls st @ replicate n (ResumeSession (sess_id s)) @ xs"
      "no_resume xs" "r \<noteq> Panic" "\<not> is_resumable reason \<longrightarrow> n = 0"
      "is_resumable reason \<and> xs \<noteq> [] \<longrightarrow> (\<exists>j \<le> n. resume_refused A (rc_manager st) (sess_id s)
        (rc_template (rc_config st)) (stream (chan s)) (rc_calls st @ replicate j (ResumeSession (sess_id s))))"
      "r = Ok () \<longrightarrow> (if xs = [] then carries_on (sess_id s) (stream (chan s)) (rc_world st) st2
                   else starts_anew (rc_world st) st2)" by (auto cong: if_cong)
  show ?thesis
  proof (intro exI [of _ n] exI [of _ xs] conjI)
    show "rc_calls st' = rc_calls st @ replicate n (ResumeSession (sess_id s)) @ xs"
      using outcome(1) step assms(7) by (auto simp: rc_finish_def split: result.splits)
    show "if go then (if xs = [] then carries_on (sess_id s) (stream (chan s)) (rc_world st) st'
                   else starts_anew (rc_world st) st')
       else rc_current st' = None \<and> fan_closed (rc_output st')
         \<and> (\<exists>n why. last (rc_events st') = GaveUpReconnecting n why)"
      using outcome(3,6) step assms(7)
      by (auto simp: rc_finish_def fanout_close_def split: result.splits)
  qed (use outcome True in auto)
qed

lemma toy_resumes:
  "\<exists>s. resume_session toy_aws_ext toy_manager ''s-1'' toy_config continuity_fresh calls
     = (Ok (Some s), calls @ [ResumeSession ''s-1''])"
proof -
  obtain s where "session_open toy_conn_ext toy_endpoint_ext 0 \<lparr>op_session_id = ''s-1'', op_config = toy_config,
     op_stream_url = ''wss://ssmmessages.x.amazonaws.com'', op_token = ''t2'', op_ssm = True, op_signer = None,
     op_continuity = continuity_fresh, op_kms = True\<rparr> = Ok s"
    using toy_session_opens by blast
  then have "resume_session toy_aws_ext toy_manager ''s-1'' toy_config continuity_fresh calls
      = (Ok (Some s), calls @ [ResumeSession ''s-1''])"
    by (simp add: resume_session_def toy_config_valid toy_aws_ext_def toy_manager_def from_conf_def)
  then show ?thesis by blast
qed

lemma reconnect_first_attempt:
  assumes "attempt_once A 1 rf (rc_emit (Reconnecting 1 (jitter R 1 (initial_delay (rc_config st)))) st) = (Some r, rf', st')"
    and "\<not> rc_shutdown st" and "\<not> shutdown_in_sleep R 1"
  shows "reconnect (Suc fuel) A R rf st = Some (r, st')"
  using assms by (auto simp: reconnect_def Let_def)

theorem supervisor_prefers_resume_witness:
  "\<exists>st'. supervise_step 11 toy_aws_ext toy_reconnect_ext (toy_reconnecting ''s-1'') = Some (True, st')
     \<and> carries_on ''s-1'' continuity_fresh [toy_lost ''s-1''] st'"
proof -
  let ?st = "toy_reconnecting ''s-1''"
  obtain s where s: "resume_session toy_aws_ext toy_manager ''s-1'' toy_config continuity_fresh []
      = (Ok (Some s), [ResumeSession ''s-1''])" using toy_resumes [of "[]"] by auto
  obtain st2 rf' where once: "attempt_once toy_aws_ext 1 (Some (''s-1'', continuity_fresh))
      (rc_emit (Reconnecting 1 d) (rc_emit e ?st)) = (Some (Ok ()), rf', st2 d e)"
      "rc_calls (st2 d e) = [ResumeSession ''s-1'']" for d e
    using s by (fastforce simp: attempt_once_def toy_reconnecting_simps rc_add_def)
  obtain st' where st': "supervise_step 11 toy_aws_ext toy_reconnect_ext ?st = Some (True, st')"
      "rc_calls st' = [ResumeSession ''s-1'']"
    using reconnect_first_attempt [OF once(1), where fuel = 10 and R = toy_reconnect_ext, simplified] once(2)
    by (simp add: supervise_step_def toy_reconnecting_simps toy_reconnect_ext_def)
  have "stream_inv (stream (chan (toy_lost ''s-1'')))" by (simp add: toy_reconnecting_simps stream_inv_fresh)
  from supervisor_prefers_resume [OF toy_reconnecting_simps(1,3) refl _ _ _ st'(1)] this
  show ?thesis
    using st' by (fastforce simp: toy_reconnecting_simps no_resume_def Cons_eq_append_conv doubles_def
        reconnect_config_default_def DURATION_MAX_def)
qed



section \<open>Departures from the documentation\<close>

text \<open>
  A send is documented to fail at once when the supervisor has given up. The supervisor that gives
  up does not raise the shutdown signal, so the send polls until its deadline and then reports a
  timeout.
\<close>

theorem send_waits_after_giving_up:
  assumes "rc_current st = Some i" and "\<not> rc_shutdown st" and "sess_closed (rc_world st ! i)"
    and "close_reason (sess_core (rc_world st ! i)) = Some reason" and "\<not> is_recoverable reason"
  shows "\<exists>st'. supervise_step fuel A R st = Some (False, st') \<and> rc_send data False st' = (Waits None, st')
    \<and> rc_send data True st' = (Done (Err (Timeout (cfg_ready_timeout (rc_template (rc_config st))))), st')"
  using assms by (auto simp: supervise_step_def rc_finish_def rc_send_def rc_send_wait_def Let_def)

text \<open>
  The event that says that the supervisor gave up is documented to hold the attempts made. It holds
  the limit on attempts, also if the only attempt failed for good.
\<close>

theorem gave_up_overstates_attempts:
  assumes "rc_current st = Some i" and "\<not> rc_shutdown st" and "sess_closed (rc_world st ! i)"
    and "close_reason (sess_core (rc_world st ! i)) = Some (DeliveryFailed sq n)"
    and "validate_config (rc_template (rc_config st)) = Ok ()"
    and "start_api A (rc_calls st) (build_start_request (rc_template (rc_config st))) = Inl f"
    and "e = from_sdk_error f" and "\<not> is_retriable e"
    and "\<not> shutdown_in_sleep R 1" and "waits (rc_events st) = []"
  shows "\<exists>st'. supervise_step (Suc fuel) A R st = Some (False, st') \<and> map fst (waits (rc_events st')) = [1]
    \<and> last (rc_events st') = GaveUpReconnecting (max_attempts (rc_config st)) (error_to_string e)"
proof -
  define st1 where "st1 = rc_emit (Disconnected (DeliveryFailed sq n)) st"
  have "attempt_once A 1 None (rc_emit (Reconnecting 1 (jitter R 1 (initial_delay (rc_config st1)))) st1)
      = (Some (Err e), None, rc_emit (Reconnecting 1 (jitter R 1 (initial_delay (rc_config st)))) st1
          \<lparr>rc_calls := rc_calls st @ [StartSession (build_start_request (rc_template (rc_config st)))]\<rparr>)"
    using assms by (simp add: attempt_once_def attempt_start_def start_session_def st1_def rc_emit_def)
  from reconnect_first_attempt [OF this, of fuel] assms show ?thesis
    by (simp add: supervise_step_def st1_def [symmetric] rc_finish_def)
      (simp add: st1_def rc_finish_def)
qed

text \<open>
  After \<^verbatim>\<open>terminate\<close> the handle is documented to be inert. When it arrives while an attempt is under
  way, the session which that attempt opens is installed afterwards: it is open, nobody
  supervises it, and sends go to it.
\<close>

theorem terminate_loses_to_attempt:
  assumes "attempt_start A n (snd (rc_terminate st)) = (Some (Ok ()), st')"
  shows "rc_shutdown st' \<and> starts_anew (rc_world (snd (rc_terminate st))) st'"
  using attempt_start_frame [OF assms] attempt_start_effect [OF assms]
  by (auto simp: rc_terminate_def Let_def split: option.splits prod.splits)

text \<open>
  The stream of a resumed session is documented to carry on. Two pumps write to the durable output
  when the old one has not drained its session yet: a chunk of the resumed session can overtake a
  chunk of the lost one.
\<close>

theorem pumps_can_reorder:
  assumes "rc_pumps st ! j = \<lparr>pump_session = a, pump_stream = Some k, pump_done = False\<rparr>"
    and "rc_pumps st ! j' = \<lparr>pump_session = b, pump_stream = Some k', pump_done = False\<rparr>" and "a \<noteq> b"
    and "fst (stream_recv k (fanout (sess_core (rc_world st ! a)))) = Got lost"
    and "fst (stream_recv k' (fanout (sess_core (rc_world st ! b)))) = Got resumed"
  shows "rc_output (pump_step j (pump_step j' st)) = fanout_send lost (fanout_send resumed (rc_output st))"
  using assms by (auto simp: pump_step_def Let_def split: prod.splits)

text \<open>
  Nor does it carry on without a gap. The pump of a new session subscribes when it first runs, and the session's reader is
  running by then: a chunk delivered in between was sent to nobody. The pump's queue is empty
  and its stream knows of no loss.
\<close>

theorem early_output_is_not_pumped:
  assumes "rc_pumps st ! j = \<lparr>pump_session = a, pump_stream = None, pump_done = False\<rparr>" and "j < length (rc_pumps st)"
    and "a < length (rc_world st)" and "s = rc_world st ! a"
    and "st1 = st\<lparr>rc_world := (rc_world st)[a := s\<lparr>chan := (chan s)\<lparr>core := emit_output d (sess_core s)\<rparr>\<rparr>]\<rparr>"
    and "st2 = pump_step j st1"
  shows "\<exists>k. pump_stream (rc_pumps st2 ! j) = Some k \<and> rc_output st2 = rc_output st
    \<and> queued (sub_chan (store (fanout (sess_core (rc_world st2 ! a))) ! k)) = []
    \<and> \<not> stream_lagged k (fanout (sess_core (rc_world st2 ! a)))"
proof -
  let ?c = "emit_output d (sess_core s)"
  let ?n = "length (store (fanout ?c))"
  have "pump_stream (rc_pumps st2 ! j) = Some ?n" "rc_output st2 = rc_output st"
    "sess_core (rc_world st2 ! a) = snd (core_subscribe ?c)"
    using assms by (simp_all add: pump_step_def session_output_def core_subscribe_def subscribe_def Let_def)
  then show ?thesis
    by (intro exI [of _ ?n])
      (simp add: core_subscribe_def subscribe_def ended_stream_def stream_lagged_def new_channel_def Let_def)
qed

text \<open>
  The supervisor is there for lost connections. While the network is down, a call to the service
  cannot be sent; the SDK reports that without a service code, which counts as permanent. So the
  first attempt during an outage is the last: the resume is given up, the start fails, the durable
  output is closed.
\<close>

theorem outage_ends_supervision:
  assumes "rc_current st = Some i" and "\<not> rc_shutdown st" and "sess_closed (rc_world st ! i)"
    and "close_reason (sess_core (rc_world st ! i)) = Some (PeerUnresponsive d)"
    and "validate_config (rc_template (rc_config st)) = Ok ()" and "\<not> shutdown_in_sleep R 1"
    and "\<forall>calls sid. resume_api A calls sid = Inl DispatchFailure"
    and "\<forall>calls rq. start_api A calls rq = Inl DispatchFailure" and "waits (rc_events st) = []"
  shows "\<exists>st'. supervise_step (Suc fuel) A R st = Some (False, st') \<and> map fst (waits (rc_events st')) = [1]
    \<and> fan_closed (rc_output st') \<and> rc_current st' = None"
proof -
  let ?s = "rc_world st ! i"
  define st1 where "st1 = rc_emit (Disconnected (PeerUnresponsive d)) st"
  define st2 where "st2 = rc_emit (Reconnecting 1 (jitter R 1 (initial_delay (rc_config st1)))) st1"
  have e: "\<not> is_retriable (from_sdk_error DispatchFailure)" by (simp add: from_sdk_error_retriable)
  have "attempt_once A 1 (Some (sess_id ?s, stream (chan ?s))) st2
      = (Some (Err (from_sdk_error DispatchFailure)), None, st2
          \<lparr>rc_calls := rc_calls st @ [ResumeSession (sess_id ?s), StartSession (build_start_request (rc_template (rc_config st)))]\<rparr>)"
    using assms e
    by (simp add: attempt_once_def attempt_start_def start_session_def resume_session_def st1_def st2_def rc_emit_def)
  from reconnect_first_attempt [OF this [unfolded st2_def], of fuel] assms show ?thesis
    by (simp add: supervise_step_def st1_def [symmetric] rc_finish_def fanout_close_def Let_def)
      (simp add: st1_def rc_finish_def)
qed

text \<open>
  The generation is documented as the number of times the session has been replaced. It counts
  the first session as well: right after connecting it is one.
\<close>

theorem generation_counts_first_session:
  assumes "rc_connect A load target config calls = (Ok st, calls')"
  shows "get_generation st = 1 \<and> length (rc_world st) = 1 \<and> rc_target st = target
    \<and> rc_current_session st = Some (rc_world st ! 0)"
  using assms
  by (auto simp: rc_connect_def manager_new_def connect_with_def adopt_def get_generation_def rc_target_def
      rc_current_session_def Let_def split: prod.splits result.splits)

text \<open>
  The maximal delay is documented as the ceiling on the backoff. It does not apply to the first
  delay: an initial delay above it can be waited out in full.
\<close>

theorem first_delay_not_capped:
  assumes "initial_delay (rc_config st) = millis k" and "0 < k" and "k < 2 ^ 64"
    and "gen_range R 1 k = k" and "shutdown_in_sleep R 1"
    and "max_attempts (rc_config st) = 0" and "max_delay (rc_config st) < millis k"
  shows "\<exists>d r st'. reconnect (Suc fuel) A R resume_from st = Some (r, st')
    \<and> rc_events st' = rc_events st @ [Reconnecting 1 d] \<and> max_delay (rc_config st) < d"
  using assms by (auto simp: reconnect_def jitter_def Let_def)

end
