(* ===== verification/Notify.thy ===== *)
theory Notify
  imports Prelude
begin

text \<open>
  The waiting protocol of \<^verbatim>\<open>SessionCore\<close> (\<^verbatim>\<open>src/session.rs\<close>): \<^verbatim>\<open>closed\<close>, \<^verbatim>\<open>wait_sendable\<close> and
  \<^verbatim>\<open>ack_notified\<close> on the one side, \<^verbatim>\<open>close\<close>, \<^verbatim>\<open>set_sendable\<close> and \<^verbatim>\<open>notify_ack\<close> on the other. Tokio's
  \<^verbatim>\<open>Notify::notify_waiters\<close> wakes the futures that are enqueued at that moment and leaves no
  permit behind, so a waiter that tests the flag and only then enqueues could sleep for ever.
  Every step of every task is a step of the relation below, in any interleaving.
\<close>

datatype waiter_pc = Start | Enabled | Parked | Returned

text \<open>
  \<open>cond\<close> is the flag a waiter tests (closed; sendable or closed; room in the buffer), \<open>owed\<close> the
  number of tasks that have set it and not yet called \<^verbatim>\<open>notify_waiters\<close>.
\<close>

record notify_state =
  cond :: bool
  owed :: nat
  pc :: "nat \<Rightarrow> waiter_pc"
  enqueued :: "nat set"
  woken :: "nat set"

definition notify_init :: notify_state where
  "notify_init = \<lparr>cond = False, owed = 0, pc = (\<lambda>_. Start), enqueued = {}, woken = {}\<rparr>"

text \<open>
  One waiter: construct the future and \<^verbatim>\<open>enable()\<close> it, then test the flag, then await. After a
  wake-up \<^verbatim>\<open>closed\<close> returns, while \<^verbatim>\<open>wait_sendable\<close> and the send loop start over (\<open>loops\<close>).
\<close>

inductive waiter_step :: "bool \<Rightarrow> nat \<Rightarrow> notify_state \<Rightarrow> notify_state \<Rightarrow> bool" for loops w where
  enable: "pc s w = Start \<Longrightarrow> waiter_step loops w s
    (s\<lparr>pc := (pc s)(w := Enabled), enqueued := insert w (enqueued s), woken := woken s - {w}\<rparr>)"
| test_true: "pc s w = Enabled \<Longrightarrow> cond s \<Longrightarrow> waiter_step loops w s
    (s\<lparr>pc := (pc s)(w := Returned), enqueued := enqueued s - {w}\<rparr>)"
| test_false: "pc s w = Enabled \<Longrightarrow> \<not> cond s \<Longrightarrow> waiter_step loops w s
    (s\<lparr>pc := (pc s)(w := Parked)\<rparr>)"
| wake: "pc s w = Parked \<Longrightarrow> w \<in> woken s \<Longrightarrow> waiter_step loops w s
    (s\<lparr>pc := (pc s)(w := if loops then Start else Returned)\<rparr>)"

text \<open>
  The other side: set the flag, later wake everyone; a flag that already was set owes nothing;
  \<^verbatim>\<open>pause_publication\<close> clears it.
\<close>

inductive notifier_step :: "notify_state \<Rightarrow> notify_state \<Rightarrow> bool" where
  set_flag: "notifier_step s (s\<lparr>cond := True, owed := Suc (owed s)\<rparr>)"
| set_again: "cond s \<Longrightarrow> notifier_step s s"
| clear_flag: "notifier_step s (s\<lparr>cond := False\<rparr>)"
| notify_waiters: "notifier_step s
    (s\<lparr>owed := owed s - 1, woken := woken s \<union> enqueued s, enqueued := {}\<rparr>)"

inductive notify_reach :: "bool \<Rightarrow> notify_state \<Rightarrow> bool" for loops where
  init: "notify_reach loops notify_init"
| waiter: "notify_reach loops s \<Longrightarrow> waiter_step loops w s s' \<Longrightarrow> notify_reach loops s'"
| notifier: "notify_reach loops s \<Longrightarrow> notifier_step s s' \<Longrightarrow> notify_reach loops s'"

inductive_cases waiter_stepE: "waiter_step loops w s s'"
inductive_cases notifier_stepE: "notifier_step s s'"

text \<open>A waiter that has enabled its future is enqueued or woken; one that is parked unwoken while
  the flag is set is owed a wake-up.\<close>

definition notify_inv :: "notify_state \<Rightarrow> bool" where
  "notify_inv s \<longleftrightarrow>
     (\<forall>w. pc s w = Enabled \<or> pc s w = Parked \<longrightarrow> w \<in> enqueued s \<or> w \<in> woken s)
     \<and> (\<forall>w. pc s w = Parked \<and> w \<notin> woken s \<and> cond s \<longrightarrow> 0 < owed s)"

lemma notify_inv_waiter:
  assumes "notify_inv s" and "waiter_step loops w s s'"
  shows "notify_inv s'"
  using assms(2,1) by (elim waiter_stepE) (auto simp: notify_inv_def split: if_splits)

lemma notify_inv_notifier:
  assumes "notify_inv s" and "notifier_step s s'"
  shows "notify_inv s'"
  using assms(2,1) by (elim notifier_stepE) (auto simp: notify_inv_def)

lemma notify_inv_reach: "notify_reach loops s \<Longrightarrow> notify_inv s"
proof (induction rule: notify_reach.induct)
  case init
  show ?case by (simp add: notify_inv_def notify_init_def)
qed (auto intro: notify_inv_waiter notify_inv_notifier)

section \<open>Properties\<close>

text \<open>
  (C14) No wake-up is lost. In every interleaving of any number of waiters with the tasks that set
  the flag, once the flag is set and every setter has finished its \<^verbatim>\<open>notify_waiters\<close>, no waiter is
  left parked for ever: each one that has not returned can take a step, and one that is parked
  has been woken.
\<close>

theorem no_lost_wakeup:
  assumes "notify_reach loops s" and "cond s" and "owed s = 0" and "pc s w \<noteq> Returned"
  shows "(\<exists>s'. waiter_step loops w s s') \<and> (pc s w = Parked \<longrightarrow> w \<in> woken s)"
proof -
  have woken: "w \<in> woken s" if "pc s w = Parked"
    using notify_inv_reach [OF assms(1)] assms(2,3) that by (auto simp: notify_inv_def)
  moreover have "\<exists>s'. waiter_step loops w s s'"
    using assms(2,4) woken by (cases "pc s w") (auto intro: waiter_step.intros)
  ultimately show ?thesis by blast
qed

theorem no_lost_wakeup_witness:
  "\<exists>s. notify_reach False s \<and> cond s \<and> owed s = 0 \<and> pc s 7 = Parked \<and> 7 \<in> woken s
     \<and> (\<exists>s'. waiter_step False 7 s s')"
proof -
  let ?s1 = "notify_init\<lparr>pc := (pc notify_init)(7 := Enabled), enqueued := insert 7 (enqueued notify_init),
    woken := woken notify_init - {7}\<rparr>"
  let ?s2 = "?s1\<lparr>pc := (pc ?s1)(7 := Parked)\<rparr>"
  let ?s3 = "?s2\<lparr>cond := True, owed := Suc (owed ?s2)\<rparr>"
  let ?s4 = "?s3\<lparr>owed := owed ?s3 - 1, woken := woken ?s3 \<union> enqueued ?s3, enqueued := {}\<rparr>"
  have w1: "waiter_step False 7 notify_init ?s1" by (rule enable) (simp add: notify_init_def)
  have w2: "waiter_step False 7 ?s1 ?s2" by (rule test_false) (simp_all add: notify_init_def)
  have r: "notify_reach False ?s4"
    by (rule notify_reach.notifier [OF notify_reach.notifier [OF
          notify_reach.waiter [OF notify_reach.waiter [OF notify_reach.init w1] w2]
          set_flag] notify_waiters])
  have c: "cond ?s4" "owed ?s4 = 0" "pc ?s4 7 = Parked" by (simp_all add: notify_init_def)
  then have "pc ?s4 7 \<noteq> Returned" by simp
  from no_lost_wakeup [OF r c(1,2) this] r c show ?thesis by blast
qed

section \<open>The protocol as an interface\<close>

inductive protocol_reach ::
    "(nat \<Rightarrow> notify_state \<Rightarrow> notify_state \<Rightarrow> bool) \<Rightarrow> (notify_state \<Rightarrow> notify_state \<Rightarrow> bool) \<Rightarrow> notify_state \<Rightarrow> bool"
  for waiter setter where
  init: "protocol_reach waiter setter notify_init"
| waiter: "protocol_reach waiter setter s \<Longrightarrow> waiter w s s' \<Longrightarrow> protocol_reach waiter setter s'"
| setter: "protocol_reach waiter setter s \<Longrightarrow> setter s s' \<Longrightarrow> protocol_reach waiter setter s'"

text \<open>
  What a component has to show to get the guarantee: its waiters and setters move as above, and a
  waiter can move whenever the protocol lets it.
\<close>

locale wakeup_protocol =
  fixes waiter :: "nat \<Rightarrow> notify_state \<Rightarrow> notify_state \<Rightarrow> bool"
    and setter :: "notify_state \<Rightarrow> notify_state \<Rightarrow> bool"
    and loops :: bool
  assumes waiter_moves: "waiter w s s' \<Longrightarrow> waiter_step loops w s s'"
    and setter_moves: "setter s s' \<Longrightarrow> notifier_step s s'"
    and waiter_enabled: "waiter_step loops w s s' \<Longrightarrow> \<exists>s''. waiter w s s''"
begin

lemma protocol_reach_reach: "protocol_reach waiter setter s \<Longrightarrow> notify_reach loops s"
  by (induction rule: protocol_reach.induct)
    (auto intro: notify_reach.intros dest: waiter_moves setter_moves)

lemma waiter_can_move:
  assumes "protocol_reach waiter setter s" and "cond s" and "owed s = 0" and "pc s w \<noteq> Returned"
  shows "\<exists>s'. waiter w s s'"
proof -
  have "notify_inv s" by (rule notify_inv_reach [OF protocol_reach_reach [OF assms(1)]])
  then have "w \<in> woken s" if "pc s w = Parked" using assms(2,3) that by (auto simp: notify_inv_def)
  then have "\<exists>s'. waiter_step loops w s s'"
    using assms(2,4) by (cases "pc s w") (auto intro: waiter_step.intros)
  then show ?thesis using waiter_enabled by blast
qed

end

interpretation session_wait: wakeup_protocol "waiter_step loops" notifier_step loops
  by unfold_locales auto

section \<open>Waiting without the test\<close>

text \<open>
  The receive and the keep-alive task of \<^verbatim>\<open>src/mux.rs\<close> await \<^verbatim>\<open>die.notified()\<close> in their loops, together
  with their work, without testing the \<^verbatim>\<open>closed\<close> flag: a round begins by enqueueing, and ends by the
  wake-up or by work, which drops the future again. The other side is \<^verbatim>\<open>Inner::close\<close>, which wakes
  the waiters once, when it is the first to set the flag.
\<close>

inductive die_wait_step :: "nat \<Rightarrow> notify_state \<Rightarrow> notify_state \<Rightarrow> bool" for w where
  await: "pc s w = Start \<Longrightarrow> die_wait_step w s
    (s\<lparr>pc := (pc s)(w := Parked), enqueued := insert w (enqueued s), woken := woken s - {w}\<rparr>)"
| wake: "pc s w = Parked \<Longrightarrow> w \<in> woken s \<Longrightarrow> die_wait_step w s (s\<lparr>pc := (pc s)(w := Returned)\<rparr>)"
| work: "pc s w = Parked \<Longrightarrow> die_wait_step w s
    (s\<lparr>pc := (pc s)(w := Start), enqueued := enqueued s - {w}, woken := woken s - {w}\<rparr>)"

inductive inner_close_step :: "notify_state \<Rightarrow> notify_state \<Rightarrow> bool" where
  first: "\<not> cond s \<Longrightarrow> inner_close_step s (s\<lparr>cond := True, owed := Suc (owed s)\<rparr>)"
| notify: "0 < owed s \<Longrightarrow> inner_close_step s
    (s\<lparr>owed := owed s - 1, woken := woken s \<union> enqueued s, enqueued := {}\<rparr>)"

text \<open>
  Such a wait can miss the close. There is a run in which the multiplexer has been closed and
  \<^verbatim>\<open>close\<close> has returned, while a task is parked and not woken; nothing \<^verbatim>\<open>close\<close> can still do will
  wake it, so it goes on until its own work ends it.
\<close>

theorem die_notification_can_be_lost:
  "\<exists>s. protocol_reach die_wait_step inner_close_step s \<and> cond s \<and> owed s = 0
     \<and> pc s w = Parked \<and> w \<notin> woken s \<and> (\<nexists>s'. inner_close_step s s')"
proof -
  let ?s1 = "notify_init\<lparr>cond := True, owed := Suc (owed notify_init)\<rparr>"
  let ?s2 = "?s1\<lparr>owed := owed ?s1 - 1, woken := woken ?s1 \<union> enqueued ?s1, enqueued := {}\<rparr>"
  let ?s3 = "?s2\<lparr>pc := (pc ?s2)(w := Parked), enqueued := insert w (enqueued ?s2), woken := woken ?s2 - {w}\<rparr>"
  let ?R = "protocol_reach die_wait_step inner_close_step"
  have "?R ?s1"
    by (rule protocol_reach.setter [OF protocol_reach.init]) (rule inner_close_step.first, simp add: notify_init_def)
  then have "?R ?s2" by (rule protocol_reach.setter) (rule inner_close_step.notify, simp)
  then have "?R ?s3" by (rule protocol_reach.waiter) (rule die_wait_step.await, simp add: notify_init_def)
  moreover have "\<nexists>s'. inner_close_step ?s3 s'"
    by (auto simp: notify_init_def elim: inner_close_step.cases)
  ultimately show ?thesis by (intro exI [of _ ?s3]) (simp add: notify_init_def)
qed

end
