(* ===== verification/Shutdown.thy ===== *)
theory Shutdown
  imports Notify
begin

text \<open>
  \<^verbatim>\<open>src/shutdown.rs\<close>: the latching stop signal. Its state is that of the waiting protocol, with the
  latch \<^verbatim>\<open>triggered\<close> as the flag: \<^verbatim>\<open>shutdown\<close> swaps the latch and, when it was the first, wakes the
  waiters; \<^verbatim>\<open>cancelled\<close> enqueues itself, tests the latch, and waits.
\<close>

abbreviation is_shutdown :: "notify_state \<Rightarrow> bool" where
  "is_shutdown s \<equiv> cond s"

text \<open>\<^verbatim>\<open>shutdown\<close> in its two steps, between which other tasks may run.\<close>

definition shutdown_swap :: "notify_state \<Rightarrow> notify_state" where
  "shutdown_swap s = (if cond s then s else s\<lparr>cond := True, owed := Suc (owed s)\<rparr>)"

definition shutdown_notify :: "notify_state \<Rightarrow> notify_state" where
  "shutdown_notify s =
    (if owed s = 0 then s
     else s\<lparr>owed := owed s - 1, woken := woken s \<union> enqueued s, enqueued := {}\<rparr>)"

definition shutdown :: "notify_state \<Rightarrow> notify_state" where
  "shutdown s = (if cond s then s else shutdown_notify (shutdown_swap s))"

inductive shutdown_step :: "notify_state \<Rightarrow> notify_state \<Rightarrow> bool" where
  swap: "\<not> cond s \<Longrightarrow> shutdown_step s (shutdown_swap s)"
| notify: "0 < owed s \<Longrightarrow> shutdown_step s (shutdown_notify s)"

text \<open>\<^verbatim>\<open>cancelled\<close>, step by step, and \<^verbatim>\<open>wait_timeout\<close>: whether it came to an end before the deadline.\<close>

inductive cancelled_step :: "nat \<Rightarrow> notify_state \<Rightarrow> notify_state \<Rightarrow> bool" for w where
  enable: "pc s w = Start \<Longrightarrow> cancelled_step w s
    (s\<lparr>pc := (pc s)(w := Enabled), enqueued := insert w (enqueued s), woken := woken s - {w}\<rparr>)"
| latched: "pc s w = Enabled \<Longrightarrow> is_shutdown s \<Longrightarrow> cancelled_step w s
    (s\<lparr>pc := (pc s)(w := Returned), enqueued := enqueued s - {w}\<rparr>)"
| await: "pc s w = Enabled \<Longrightarrow> \<not> is_shutdown s \<Longrightarrow> cancelled_step w s (s\<lparr>pc := (pc s)(w := Parked)\<rparr>)"
| wake: "pc s w = Parked \<Longrightarrow> w \<in> woken s \<Longrightarrow> cancelled_step w s (s\<lparr>pc := (pc s)(w := Returned)\<rparr>)"

definition wait_timeout :: "nat \<Rightarrow> notify_state \<Rightarrow> bool" where
  "wait_timeout w s \<longleftrightarrow> pc s w = Returned"

text \<open>
  \<^verbatim>\<open>install_signal_handlers\<close>: of the three signals those whose handler could be installed are
  listened for; without any the task ends, otherwise the first one received triggers the signal.
\<close>

definition SIGNALS :: "string list" where "SIGNALS = [''SIGINT'', ''SIGTERM'', ''SIGQUIT'']"

definition install_signal_handlers :: "(string \<Rightarrow> bool) \<Rightarrow> string list" where
  "install_signal_handlers installs = filter installs SIGNALS"

definition on_signal :: "string list \<Rightarrow> string \<Rightarrow> notify_state \<Rightarrow> notify_state" where
  "on_signal handlers name s = (if name \<in> set handlers then shutdown s else s)"

text \<open>On Windows, waiting for Ctrl-C fails if the handler cannot be installed; then nothing is raised.\<close>

definition on_ctrl_c :: "bool \<Rightarrow> notify_state \<Rightarrow> notify_state" where
  "on_ctrl_c received s = (if received then shutdown s else s)"

section \<open>The signal follows the waiting protocol\<close>

inductive_cases shutdown_stepE: "shutdown_step s s'"
inductive_cases cancelled_stepE: "cancelled_step w s s'"

lemma cancelled_is_waiter: "cancelled_step w s s' \<longleftrightarrow> waiter_step False w s s'"
proof
  assume "cancelled_step w s s'"
  then show "waiter_step False w s s'"
  proof cases
    case wake
    then show ?thesis using waiter_step.wake [of s w False] by simp
  qed (auto intro: waiter_step.intros)
next
  assume "waiter_step False w s s'"
  then show "cancelled_step w s s'"
    by cases (auto intro: cancelled_step.intros simp: cancelled_step.wake)
qed

lemma shutdown_is_notifier: "shutdown_step s s' \<Longrightarrow> notifier_step s s'"
  using notifier_step.notify_waiters [of s]
  by (elim shutdown_stepE) (auto simp: shutdown_swap_def shutdown_notify_def intro: notifier_step.set_flag)

interpretation stop_signal: wakeup_protocol cancelled_step shutdown_step False
  by unfold_locales (auto simp: cancelled_is_waiter shutdown_is_notifier)

lemma latch_stays:
  assumes "protocol_reach cancelled_step shutdown_step s" and "cond s" and "shutdown_step s s' \<or> cancelled_step w s s'"
  shows "cond s'"
  using assms(2,3)
  by (auto elim!: shutdown_stepE cancelled_stepE simp: shutdown_swap_def shutdown_notify_def)

text \<open>
  A stop signal reaches every task, whenever it starts to wait. Once \<^verbatim>\<open>shutdown\<close> has been
  called, by whatever number of tasks, and has returned, every \<^verbatim>\<open>cancelled\<close> that has not returned can
  take a step, those begun before, during and after the call; the signal stays triggered; and a
  second call changes nothing.
\<close>

theorem shutdown_reaches_everyone:
  assumes "protocol_reach cancelled_step shutdown_step s" and "is_shutdown s" and "owed s = 0"
  shows "(pc s w \<noteq> Returned \<longrightarrow> (\<exists>s'. cancelled_step w s s'))
    \<and> (\<forall>s' v. shutdown_step s s' \<or> cancelled_step v s s' \<longrightarrow> is_shutdown s') \<and> shutdown s = s"
  using stop_signal.waiter_can_move [OF assms] latch_stays [OF assms(1,2)] assms(2)
  by (auto simp: shutdown_def)

theorem shutdown_reaches_everyone_witness:
  "\<exists>s. protocol_reach cancelled_step shutdown_step s \<and> is_shutdown s \<and> owed s = 0 \<and> pc s 3 = Start
     \<and> (\<exists>s'. cancelled_step 3 s s')"
proof -
  let ?s = "shutdown_notify (shutdown_swap notify_init)"
  have r: "protocol_reach cancelled_step shutdown_step ?s"
  proof (rule protocol_reach.setter)
    show "protocol_reach cancelled_step shutdown_step (shutdown_swap notify_init)"
      by (rule protocol_reach.setter [OF protocol_reach.init])
        (rule shutdown_step.swap, simp add: notify_init_def)
    show "shutdown_step (shutdown_swap notify_init) ?s"
      by (rule shutdown_step.notify) (simp add: notify_init_def shutdown_swap_def)
  qed
  have "is_shutdown ?s" "owed ?s = 0" "pc ?s 3 = Start"
    by (simp_all add: notify_init_def shutdown_swap_def shutdown_notify_def)
  with shutdown_reaches_everyone [OF r this(1,2), of 3] r show ?thesis by auto
qed

end
