(* ===== verification/Outbound_Flow.thy ===== *)
theory Outbound_Flow
  imports Tasks
begin

text \<open>
  What a caller hands to a session, followed through the outbound path of \<^verbatim>\<open>src/connection.rs\<close> while all tasks
  run: from the command queue over the command the task works on, the message that waits for
  room and the data behind it, to the numbered messages. A run is watched together with two logs,
  the input that the queue has accepted and the messages that the command task has numbered.
\<close>

section \<open>Input in messages and on its way\<close>

text \<open>What the remote process gets from a frame: the payload of stream data, decrypted with the agent's keys.\<close>

definition input_of :: "'e crypto_ext_scheme \<Rightarrow> session_crypto option \<Rightarrow> bytes \<Rightarrow> bytes" where
  "input_of E agent f =
    (case deserialize (sha256 E) f of
       Ok m \<Rightarrow>
         if payload_type m = Output
         then (case agent_reads E agent (payload m) of Ok p \<Rightarrow> p | _ \<Rightarrow> [])
         else []
     | _ \<Rightarrow> [])"

definition inputs :: "'e crypto_ext_scheme \<Rightarrow> session_crypto option \<Rightarrow> pending_entry list \<Rightarrow> bytes" where
  "inputs E agent es = concat (map (\<lambda>e. input_of E agent (wire e)) es)"

lemma inputs_simps [simp]:
  "inputs E agent [] = []" "inputs E agent (e # es) = input_of E agent (wire e) @ inputs E agent es"
  "inputs E agent (es @ es') = inputs E agent es @ inputs E agent es'"
  by (simp_all add: inputs_def)

definition held_input :: "'e crypto_ext_scheme \<Rightarrow> session_crypto option \<Rightarrow> 'z channel_state_scheme \<Rightarrow> bytes" where
  "held_input E agent s =
    (case sending s of
       Some (f, left) \<Rightarrow> input_of E agent f @ left
     | None \<Rightarrow> (case held_command s of Some c \<Rightarrow> command_data c | None \<Rightarrow> []))"

lemma held_input_commands [simp]: "held_input E agent (s\<lparr>commands := q\<rparr>) = held_input E agent s"
  by (simp add: held_input_def split: option.split)

definition backlog :: "'e crypto_ext_scheme \<Rightarrow> session_crypto option \<Rightarrow> 'z channel_state_scheme \<Rightarrow> bytes" where
  "backlog E agent s = held_input E agent s @ concat (map command_data (queued (commands s)))"

text \<open>A frame that reads as an input message with a given number.\<close>

definition frame_for :: "'e wire_ext_scheme \<Rightarrow> i64 \<Rightarrow> bytes \<Rightarrow> bool" where
  "frame_for E n f \<longleftrightarrow> (\<exists>m. deserialize (sha256 E) f = Ok m \<and> message_type m = InputStreamData
     \<and> sequence_number m = n)"

text \<open>What callers put into the queue: data, or a small control message that is no stream data.\<close>

definition command_ok :: "command \<Rightarrow> bool" where
  "command_ok c = (case c of Data _ \<Rightarrow> True | Control pt bs \<Rightarrow> pt \<noteq> Output \<and> length bs + 28 \<le> MAX_PAYLOAD_SIZE)"

section \<open>One message\<close>

text \<open>The environment of a send: serialisation works, the agent has the matching keys, the number fits.\<close>

definition can_send :: "'e crypto_ext_scheme \<Rightarrow> session_crypto option \<Rightarrow> 'z channel_state_scheme \<Rightarrow> bool" where
  "can_send E agent s \<longleftrightarrow> wf_ext E \<and> keys_agree E (stream_crypto (stream s)) agent
     \<and> 0 \<le> sint (stream_sequence (stream s)) \<and> 0 < chunk_size s \<and> chunk_size s + 28 \<le> MAX_PAYLOAD_SIZE"

text \<open>What a call leaves of the state around it.\<close>

definition same_task :: "'z channel_state_scheme \<Rightarrow> 'z channel_state_scheme \<Rightarrow> bool" where
  "same_task s s' \<longleftrightarrow> chunk_size s' = chunk_size s \<and> commands s' = commands s \<and> held_command s' = held_command s
     \<and> sending s' = sending s \<and> sequence_locked s' = sequence_locked s
     \<and> stream_crypto (stream s') = stream_crypto (stream s)"

lemma same_task_refl [simp]: "same_task s s"
  by (simp add: same_task_def)

lemma same_task_trans: "same_task s s1 \<Longrightarrow> same_task s1 s2 \<Longrightarrow> same_task s s2"
  by (simp add: same_task_def)

text \<open>A message was numbered and tracked: the next one, with the frame \<open>f\<close>.\<close>

definition tracked :: "bytes \<Rightarrow> 'z channel_state_scheme \<Rightarrow> 'z channel_state_scheme \<Rightarrow> bool" where
  "tracked f s s' \<longleftrightarrow> (\<exists>e. wire e = f \<and> sequence e = stream_sequence (stream s)
     \<and> pending (outgoing (stream s')) = pending (outgoing (stream s)) @ [e]
     \<and> stream_sequence (stream s') = stream_sequence (stream s) + 1)"

lemma track_and_write_outcome:
  assumes "track_and_write f s = (x, s')"
  shows "same_task s s' \<and> (x = Waits (Some f) \<and> s' = s
    \<or> (\<exists>e. x = Done (Err e)) \<and> s' = s
    \<or> tracked f s s' \<and> (x = Done (Ok ()) \<or> (\<exists>e. x = Done (Err e))))"
proof (cases "track (clock s) f (stream_sequence (stream s)) (outgoing (stream s))")
  case (Pair room b)
  let ?s1 = "s\<lparr>stream := (stream s)\<lparr>outgoing := b, stream_sequence := stream_sequence (stream s) + 1\<rparr>\<rparr>"
  show ?thesis
  proof (cases room)
    case True
    then have s': "x = Done (fst (write_frame (Binary f) ?s1))" "s' = snd (write_frame (Binary f) ?s1)"
      using assms Pair by (auto simp: track_and_write_def Let_def split_beta)
    have "pending b = pending (outgoing (stream s))
        @ [\<lparr>wire = f, sequence = stream_sequence (stream s), last_sent = clock s, attempts = 1\<rparr>]"
      using Pair True by (auto simp: track_def split: if_splits)
    then have "tracked f s s'" by (simp add: tracked_def s')
    moreover have "same_task s s'" by (simp add: same_task_def s')
    ultimately show ?thesis using s' write_frame_result [of "Binary f" ?s1] by auto
  next
    case False
    then show ?thesis using assms Pair by (auto simp: track_and_write_def Let_def split: if_splits)
  qed
qed

lemma send_payload_outcome:
  assumes "send_payload E pt pl s = (x, s')" and "can_send E agent s" and "length pl + 28 \<le> MAX_PAYLOAD_SIZE"
  shows "same_task s s' \<and> (x = Waits None \<and> sequence_locked s \<and> stream s' = stream s
    \<or> (\<exists>e. x = Done (Err e)) \<and> stream s' = stream s
    \<or> \<not> sequence_locked s \<and> (\<exists>f. frame_for E (stream_sequence (stream s)) f
        \<and> input_of E agent f = (if pt = Output then pl else [])
        \<and> (x = Waits (Some f) \<and> stream s' = stream s
           \<or> tracked f s s' \<and> (x = Done (Ok ()) \<or> (\<exists>e. x = Done (Err e))))))"
proof (cases "seal_payload E pt pl s")
  case (Pair q s1)
  obtain n where s1: "s1 = s\<lparr>draws := n\<rparr>" using seal_payload_kept [OF Pair] by blast
  show ?thesis
  proof (cases q)
    case (Ok sealed)
    show ?thesis
    proof (cases "sequence_locked s")
      case True
      then show ?thesis using assms(1) Pair Ok s1 by (auto simp: send_payload_def same_task_def)
    next
      case False
      let ?f = "data_frame E n (stream_sequence (stream s)) pt sealed"
      let ?s2 = "s\<lparr>draws := Suc n\<rparr>"
      have tw: "track_and_write ?f ?s2 = (x, s')"
        using assms(1) Pair Ok s1 False
        by (simp add: send_payload_def build_outbound_def data_frame_def)
      have reads: "length sealed \<le> length pl + 28 \<and> (pt = Output \<longrightarrow> agent_reads E agent sealed = Ok pl)"
      proof (cases "pt = Output")
        case True
        then show ?thesis
          using seal_payload_agent [of E pl s sealed s1 agent] Pair Ok assms(2) by (simp add: can_send_def)
      next
        case False
        then show ?thesis using Pair Ok by (auto simp: seal_payload_def split: option.splits)
      qed
      obtain m where m: "deserialize (sha256 E) ?f = Ok m" "message_type m = InputStreamData"
          "sequence_number m = stream_sequence (stream s)" "payload_type m = pt" "payload m = sealed"
        using data_frame_reads [of E sealed "stream_sequence (stream s)" n pt] assms(2,3) reads
        by (auto simp: can_send_def)
      have "frame_for E (stream_sequence (stream s)) ?f"
        "input_of E agent ?f = (if pt = Output then pl else [])"
        using m reads by (auto simp: frame_for_def input_of_def)
      moreover have "tracked ?f ?s2 s' = tracked ?f s s'" "same_task ?s2 s' = same_task s s'"
        by (simp_all add: tracked_def same_task_def)
      ultimately show ?thesis using track_and_write_outcome [OF tw] False by fastforce
    qed
  next
    case (Err e)
    then show ?thesis using assms(1) Pair s1 by (auto simp: send_payload_def same_task_def)
  next
    case Panic
    then show ?thesis using Pair by (auto simp: seal_payload_def encrypt_def Let_def split: option.splits if_splits)
  qed
qed

section \<open>One command\<close>

text \<open>The messages \<open>es\<close> were numbered between two states: the next ones, consecutively.\<close>

definition numbered ::
    "'e wire_ext_scheme \<Rightarrow> 'z channel_state_scheme \<Rightarrow> 'z channel_state_scheme \<Rightarrow> pending_entry list \<Rightarrow> bool" where
  "numbered E s s' es \<longleftrightarrow> pending (outgoing (stream s')) = pending (outgoing (stream s)) @ es
     \<and> (\<forall>e \<in> set es. frame_for E (sequence e) (wire e))
     \<and> map sequence es = map (\<lambda>i. stream_sequence (stream s) + of_nat i) [0..<length es]
     \<and> stream_sequence (stream s') = stream_sequence (stream s) + of_nat (length es)"

lemma numbered_none: "stream s' = stream s \<Longrightarrow> numbered E s s' []"
  by (simp add: numbered_def)

lemma numbered_Cons:
  assumes "wire e = f" and "sequence e = stream_sequence (stream s)"
    and "pending (outgoing (stream s1)) = pending (outgoing (stream s)) @ [e]"
    and "stream_sequence (stream s1) = stream_sequence (stream s) + 1"
    and "frame_for E (stream_sequence (stream s)) f" and "numbered E s1 s' es"
  shows "numbered E s s' (e # es)"
proof -
  have "map sequence (e # es) = map (\<lambda>i. stream_sequence (stream s) + of_nat i) [0..<length (e # es)]"
    using assms(2,4,6) unfolding numbered_def
    by (simp add: upt_conv_Cons map_Suc_upt [symmetric] ac_simps comp_def del: upt_Suc)
  then show ?thesis using assms by (simp add: numbered_def ac_simps)
qed

text \<open>
  How far a send of \<open>data\<close> got: the messages it has numbered, consecutively, and what the outcome says about the
  rest: none left, some lost, none sent yet, or a message waiting with the data behind it.
\<close>

definition progressed ::
    "'e crypto_ext_scheme \<Rightarrow> session_crypto option \<Rightarrow> bytes \<Rightarrow> unit io \<Rightarrow> bytes \<Rightarrow> 'z channel_state_scheme
      \<Rightarrow> 'z channel_state_scheme \<Rightarrow> pending_entry list \<Rightarrow> bool" where
  "progressed E agent data x left s s' es \<longleftrightarrow> same_task s s' \<and> numbered E s s' es
     \<and> (x = Done (Ok ()) \<and> inputs E agent es = data
        \<or> (\<exists>e. x = Done (Err e)) \<and> prefix (inputs E agent es) data
        \<or> x = Waits None \<and> es = [] \<and> sequence_locked s
        \<or> (\<exists>f. x = Waits (Some f) \<and> inputs E agent es @ input_of E agent f @ left = data
             \<and> frame_for E (stream_sequence (stream s')) f \<and> \<not> sequence_locked s))"

lemma progressed_none:
  assumes "same_task s s'" and "stream s' = stream s"
    and "x = Done (Ok ()) \<and> data = [] \<or> (\<exists>e. x = Done (Err e)) \<or> x = Waits None \<and> sequence_locked s
      \<or> (\<exists>f. x = Waits (Some f) \<and> input_of E agent f @ left = data \<and> frame_for E (stream_sequence (stream s)) f
           \<and> \<not> sequence_locked s)"
  shows "progressed E agent data x left s s' []"
  using assms by (auto simp: progressed_def numbered_none)

lemma progressed_Cons:
  assumes "tracked f s s1" and "same_task s s1" and "frame_for E (stream_sequence (stream s)) f"
    and "input_of E agent f = c" and "\<not> sequence_locked s" and "progressed E agent data x left s1 s' es"
  shows "\<exists>es. progressed E agent (c @ data) x left s s' es"
proof -
  obtain e where e: "wire e = f" "sequence e = stream_sequence (stream s)"
      "pending (outgoing (stream s1)) = pending (outgoing (stream s)) @ [e]"
      "stream_sequence (stream s1) = stream_sequence (stream s) + 1"
    using assms(1) by (auto simp: tracked_def)
  have "numbered E s s' (e # es)"
    using numbered_Cons [OF e assms(3)] assms(6) by (simp add: progressed_def)
  moreover have "\<not> sequence_locked s1" using assms(2,5) by (simp add: same_task_def)
  ultimately have "progressed E agent (c @ data) x left s s' (e # es)"
    using assms(4,5,6) e(1) same_task_trans [OF assms(2)] unfolding progressed_def by auto
  then show ?thesis by blast
qed

lemma can_send_next:
  assumes "can_send E agent s" and "tracked f s s1" and "same_task s s1"
    and "sint (stream_sequence (stream s)) + int k < 2 ^ 63" and "0 < k"
  shows "can_send E agent s1" and "sint (stream_sequence (stream s1)) = sint (stream_sequence (stream s)) + 1"
proof -
  have "stream_sequence (stream s1) = stream_sequence (stream s) + 1" using assms(2) by (auto simp: tracked_def)
  then show sint: "sint (stream_sequence (stream s1)) = sint (stream_sequence (stream s)) + 1"
    using assms(4,5) by (simp add: sint_succ)
  show "can_send E agent s1" using assms(1,3) sint by (simp add: can_send_def same_task_def)
qed

lemma send_control_progress:
  assumes "send_payload E pt bs s = (x, s')" and "can_send E agent s" and "command_ok (Control pt bs)"
  shows "\<exists>es. progressed E agent [] x [] s s' es"
proof -
  have "pt \<noteq> Output" "length bs + 28 \<le> MAX_PAYLOAD_SIZE" using assms(3) by (auto simp: command_ok_def)
  with send_payload_outcome [OF assms(1,2)] consider
      (still) "same_task s s'" "stream s' = stream s"
        "(\<exists>e. x = Done (Err e)) \<or> x = Waits None \<and> sequence_locked s \<or> (\<exists>f. x = Waits (Some f)
           \<and> input_of E agent f = [] \<and> frame_for E (stream_sequence (stream s)) f \<and> \<not> sequence_locked s)"
    | (sent) f where "same_task s s'" "tracked f s s'" "frame_for E (stream_sequence (stream s)) f"
        "input_of E agent f = []" "\<not> sequence_locked s" "x = Done (Ok ()) \<or> (\<exists>e. x = Done (Err e))" by fastforce
  then show ?thesis
  proof cases
    case still
    then show ?thesis by (intro exI [of _ "[]"] progressed_none) auto
  next
    case sent
    have "progressed E agent [] x [] s' s' []" using sent(6) by (intro progressed_none) auto
    from progressed_Cons [OF sent(2,1,3,4,5) this] show ?thesis by simp
  qed
qed

lemma send_stream_progress:
  assumes "send_stream_data E data s = (x, left, s')" and "can_send E agent s"
    and "sint (stream_sequence (stream s)) + int (length data) < 2 ^ 63"
  shows "\<exists>es. progressed E agent data x left s s' es"
  using assms
proof (induction E data s arbitrary: x left s' rule: send_stream_data.induct)
  case (1 E data s)
  show ?case
  proof (cases "data = []")
    case True
    with 1(2) show ?thesis
      by (intro exI [of _ "[]"] progressed_none) (auto simp: send_stream_data_Nil)
  next
    case False
    let ?c = "take (chunk_size s) data" and ?rest = "drop (chunk_size s) data"
    have sz: "0 < chunk_size s" using 1(3) by (simp add: can_send_def)
    obtain q s1 where sp: "send_payload E Output ?c s = (q, s1)" by (cases "send_payload E Output ?c s")
    note step = 1(2) [unfolded send_stream_data_step [OF False sz sp]]
    have "length ?c + 28 \<le> MAX_PAYLOAD_SIZE"
      using 1(3) min.cobounded2 [of "length data" "chunk_size s"] unfolding can_send_def length_take by linarith
    note out = send_payload_outcome [OF sp 1(3) this, simplified]
    show ?thesis
    proof (cases "q = Done (Ok ())")
      case True
      with out obtain f where f: "same_task s s1" "tracked f s s1" "frame_for E (stream_sequence (stream s)) f"
          "input_of E agent f = ?c" "\<not> sequence_locked s" by auto
      have pos: "0 < length data" using False by simp
      note nxt = can_send_next [OF 1(3) f(2,1) 1(4) pos]
      have rec: "send_stream_data E ?rest s1 = (x, left, s')" using step True by simp
      have some: "\<not> (data = [] \<or> chunk_size s = 0)" using False sz by simp
      have "length ?rest + 1 \<le> length data" using pos sz unfolding length_drop by linarith
      then have "sint (stream_sequence (stream s1)) + int (length ?rest) < 2 ^ 63" using nxt(2) 1(4) by linarith
      from 1(1) [OF some sp [symmetric] True refl rec nxt(1) this]
      obtain es where "progressed E agent ?rest x left s1 s' es" ..
      from progressed_Cons [OF f(2,1,3,4,5) this] show ?thesis by simp
    next
      case other: False
      then have x: "x = q" "left = ?rest" "s' = s1" using step by auto
      from out other consider
          (still) "same_task s s1" "stream s1 = stream s" "(\<exists>e. q = Done (Err e)) \<or> q = Waits None \<and> sequence_locked s
             \<or> (\<exists>f. q = Waits (Some f) \<and> input_of E agent f @ ?rest = data
               \<and> frame_for E (stream_sequence (stream s)) f \<and> \<not> sequence_locked s)"
        | (failed) f where "same_task s s1" "tracked f s s1" "frame_for E (stream_sequence (stream s)) f"
            "input_of E agent f = ?c" "\<not> sequence_locked s" "\<exists>e. q = Done (Err e)" by fastforce
      then show ?thesis
      proof cases
        case still
        then show ?thesis unfolding x by (intro exI [of _ "[]"] progressed_none) auto
      next
        case failed
        have "progressed E agent ?rest q left s1 s1 []" using failed(6) by (intro progressed_none) auto
        from progressed_Cons [OF failed(2,1,3,4,5) this] show ?thesis unfolding x by simp
      qed
    qed
  qed
qed

section \<open>One step of the command task\<close>

text \<open>A message that waits for room: its task has the lock on the counter, and it was built with the next number.\<close>

definition waiting_ok :: "'e wire_ext_scheme \<Rightarrow> 'z channel_state_scheme \<Rightarrow> bool" where
  "waiting_ok E s = (case sending s of
     Some (f, left) \<Rightarrow> sequence_locked s \<and> frame_for E (stream_sequence (stream s)) f | None \<Rightarrow> True)"

text \<open>The task has ended: the session is closed, or no caller is left and nothing is on its way.\<close>

definition task_gone :: "'z channel_state_scheme \<Rightarrow> bool" where
  "task_gone s \<longleftrightarrow> rx_gone (commands s) \<and> sending s = None
     \<and> (closed_now s \<or> held_command s = None \<and> queued (commands s) = [] \<and> tx_gone (commands s))"

definition accepted :: "'z channel_state_scheme \<Rightarrow> command set" where
  "accepted s = set_option (held_command s) \<union> set (queued (commands s))"

text \<open>
  A step numbers some messages. What they carry comes off the backlog, unless the task ends. A lock that someone else
  holds is respected.
\<close>

definition moved ::
    "'e crypto_ext_scheme \<Rightarrow> session_crypto option \<Rightarrow> 'z channel_state_scheme \<Rightarrow> 'z channel_state_scheme
      \<Rightarrow> pending_entry list \<Rightarrow> bool" where
  "moved E agent s s' es \<longleftrightarrow> numbered E s s' es \<and> chunk_size s' = chunk_size s \<and> accepted s' \<subseteq> accepted s
     \<and> (sending s = None \<and> sequence_locked s \<longrightarrow> sending s' = None \<and> sequence_locked s')
     \<and> (\<not> rx_gone (commands s') \<and> \<not> rx_gone (commands s) \<and> waiting_ok E s'
          \<and> inputs E agent es @ backlog E agent s' = backlog E agent s
        \<or> task_gone s' \<and> prefix (inputs E agent es) (backlog E agent s) \<and> (rx_gone (commands s) \<longrightarrow> es = []))"

lemma after_send_flow:
  assumes "progressed E agent data x left s s1 es" and "sending s = None" and "\<not> rx_gone (commands s)"
    and "sequence_locked s \<Longrightarrow> held_input E agent s = data"
  shows "numbered E s (snd (after_send x left s1)) es"
    and "chunk_size (snd (after_send x left s1)) = chunk_size s"
    and "accepted (snd (after_send x left s1)) \<subseteq> accepted s"
    and "\<not> rx_gone (commands (snd (after_send x left s1))) \<and> waiting_ok E (snd (after_send x left s1))
          \<and> inputs E agent es @ backlog E agent (snd (after_send x left s1))
              = data @ concat (map command_data (queued (commands s)))
        \<or> task_gone (snd (after_send x left s1)) \<and> prefix (inputs E agent es) data"
    and "sequence_locked s \<Longrightarrow> sending (snd (after_send x left s1)) = None \<and> sequence_locked (snd (after_send x left s1))"
proof -
  have same: "same_task s s1" and num: "numbered E s s1 es" using assms(1) by (auto simp: progressed_def)
  have kept: "stream (snd (after_send x left s1)) = stream s1" "chunk_size (snd (after_send x left s1)) = chunk_size s1"
    by (auto simp: after_send_def Let_def close_core_def split: io.split result.split option.split)
  show "numbered E s (snd (after_send x left s1)) es" using num by (simp add: numbered_def kept)
  show "chunk_size (snd (after_send x left s1)) = chunk_size s" using same by (simp add: kept same_task_def)
  show "accepted (snd (after_send x left s1)) \<subseteq> accepted s"
    using same
    by (auto simp: after_send_def Let_def close_core_def accepted_def same_task_def
        split: io.splits result.splits option.splits if_splits)
  show "sequence_locked s \<Longrightarrow> sending (snd (after_send x left s1)) = None \<and> sequence_locked (snd (after_send x left s1))"
    using assms(1,2) same
    by (auto simp: progressed_def after_send_def Let_def close_core_def same_task_def)
  consider (ok) "x = Done (Ok ())" "inputs E agent es = data"
    | (fails) e where "x = Done (Err e)" "prefix (inputs E agent es) data"
    | (lock) "x = Waits None" "es = []" "sequence_locked s"
    | (room) f where "x = Waits (Some f)" "inputs E agent es @ input_of E agent f @ left = data"
        "frame_for E (stream_sequence (stream s1)) f"
    using assms(1) unfolding progressed_def by blast
  then show "\<not> rx_gone (commands (snd (after_send x left s1))) \<and> waiting_ok E (snd (after_send x left s1))
          \<and> inputs E agent es @ backlog E agent (snd (after_send x left s1))
              = data @ concat (map command_data (queued (commands s)))
        \<or> task_gone (snd (after_send x left s1)) \<and> prefix (inputs E agent es) data"
  proof cases
    case fails
    then show ?thesis
      by (auto simp: after_send_def Let_def task_gone_def close_core_def core_close_def)
  qed (use assms(2-4) same in \<open>auto simp: after_send_def same_task_def waiting_ok_def backlog_def held_input_def\<close>)
qed

lemma after_send_failed:
  "task_gone (snd (after_send (Done (Err e)) left s))" "stream (snd (after_send (Done (Err e)) left s)) = stream s"
  "chunk_size (snd (after_send (Done (Err e)) left s)) = chunk_size s"
  "accepted (snd (after_send (Done (Err e)) left s)) \<subseteq> accepted s"
  by (auto simp: after_send_def Let_def task_gone_def close_core_def core_close_def accepted_def)

lemma same_accepted: "same_task s s1 \<Longrightarrow> accepted s1 = accepted s"
  by (simp add: same_task_def accepted_def)

text \<open>The task resumes a message that waited for room.\<close>

lemma resumed_flow:
  assumes "sending s = Some (f, left)" and "can_send E agent s" and "waiting_ok E s" and "\<not> rx_gone (commands s)"
    and "sint (stream_sequence (stream s)) + int (length left) + 1 < 2 ^ 63"
  shows "\<exists>es. moved E agent s (snd (command_step E s)) es"
proof -
  obtain x s1 where tw: "track_and_write f s = (x, s1)" by (cases "track_and_write f s")
  have f: "frame_for E (stream_sequence (stream s)) f" "sequence_locked s" using assms(1,3) by (auto simp: waiting_ok_def)
  have bl: "backlog E agent s = input_of E agent f @ left @ concat (map command_data (queued (commands s)))"
    using assms(1) by (simp add: backlog_def held_input_def)
  have same: "same_task s s1" using track_and_write_outcome [OF tw] by blast
  consider (room) "x = Waits (Some f)" "s1 = s" | (fails) e where "x = Done (Err e)" "s1 = s"
    | (sent) "x = Done (Ok ())" "tracked f s s1" | (stopped) e where "x = Done (Err e)" "tracked f s s1"
    using track_and_write_outcome [OF tw] by blast
  then show ?thesis
  proof cases
    case room
    then have "snd (command_step E s) = s\<lparr>sending := Some (f, left), sequence_locked := True\<rparr>"
      using assms(1) tw by (simp add: command_step_def after_send_def)
    then have "moved E agent s (snd (command_step E s)) []"
      using assms(1,4) f bl by (simp add: moved_def numbered_none accepted_def waiting_ok_def backlog_def held_input_def)
    then show ?thesis ..
  next
    case fails
    then have "moved E agent s (snd (command_step E s)) []"
      using assms(1) tw after_send_failed [of e left s]
      by (simp add: moved_def command_step_def numbered_none)
    then show ?thesis ..
  next
    case stopped
    then obtain e' where e': "wire e' = f" "sequence e' = stream_sequence (stream s)"
        "pending (outgoing (stream s1)) = pending (outgoing (stream s)) @ [e']"
        "stream_sequence (stream s1) = stream_sequence (stream s) + 1"
      by (auto simp: tracked_def)
    have "numbered E s (snd (after_send (Done (Err e)) left s1)) [e']"
      using numbered_Cons [OF e' f(1) numbered_none] after_send_failed(2) [of e left s1] by blast
    then have "moved E agent s (snd (command_step E s)) [e']"
      using assms(1,4) tw stopped(1) after_send_failed [of e left s1] same same_accepted [OF same] bl e'(1)
      by (simp add: moved_def command_step_def same_task_def)
    then show ?thesis ..
  next
    case sent
    then obtain e' where e': "wire e' = f" "sequence e' = stream_sequence (stream s)"
        "pending (outgoing (stream s1)) = pending (outgoing (stream s)) @ [e']"
        "stream_sequence (stream s1) = stream_sequence (stream s) + 1"
      by (auto simp: tracked_def)
    let ?s2 = "s1\<lparr>sending := None, sequence_locked := False\<rparr>"
    have bound: "sint (stream_sequence (stream s)) + int (Suc (length left)) < 2 ^ 63" using assms(5) by simp
    note nxt = can_send_next [OF assms(2) sent(2) same bound zero_less_Suc]
    have ready: "can_send E agent ?s2" "sint (stream_sequence (stream ?s2)) + int (length left) < 2 ^ 63"
      using nxt assms(5) by (simp_all add: can_send_def)
    obtain y rest' s3 where run: "send_stream_data E left ?s2 = (y, rest', s3)" by (cases "send_stream_data E left ?s2")
    obtain es where pr: "progressed E agent left y rest' ?s2 s3 es"
      using send_stream_progress [OF run ready] ..
    have step: "snd (command_step E s) = snd (after_send y rest' s3)"
      using assms(1) tw sent(1) run by (simp add: command_step_def)
    have cmds: "commands s1 = commands s" "chunk_size s1 = chunk_size s" using same by (simp_all add: same_task_def)
    have live: "\<not> rx_gone (commands ?s2)" "sending ?s2 = None" "\<not> sequence_locked ?s2" using assms(4) cmds by simp_all
    have keep: "accepted ?s2 = accepted s" using same_accepted [OF same] by (simp add: accepted_def)
    have "numbered E s (snd (command_step E s)) (e' # es)"
      unfolding step using after_send_flow(1) [OF pr live(2,1)] live(3) e' f(1)
      by (intro numbered_Cons [OF e']) (simp_all add: numbered_def)
    then have "moved E agent s (snd (command_step E s)) (e' # es)"
      using after_send_flow(2-4) [OF pr live(2,1)] live(3) assms(1,4) bl keep e'(1) cmds
      unfolding moved_def step by (auto simp: prefix_def)
    then show ?thesis ..
  qed
qed

text \<open>The task carries out the command it holds.\<close>

lemma carried_out_flow:
  assumes "sending s = None" and "held_command s = Some c" and "command_ok c" and "can_send E agent s"
    and "\<not> rx_gone (commands s)" and "\<not> closed_now s" and "is_sendable (core s)"
    and "sint (stream_sequence (stream s)) + int (length (command_data c)) < 2 ^ 63"
  shows "\<exists>es. moved E agent s (snd (command_step E s)) es"
proof -
  have held: "held_input E agent s = command_data c" using assms(1,2) by (simp add: held_input_def)
  obtain x left s1 es where step: "snd (command_step E s) = snd (after_send x left s1)"
    and pr: "progressed E agent (command_data c) x left s s1 es"
  proof (cases c)
    case (Data bs)
    obtain x left s1 where run: "send_stream_data E bs s = (x, left, s1)" by (cases "send_stream_data E bs s")
    obtain es where "progressed E agent bs x left s s1 es"
      using send_stream_progress [OF run assms(4)] assms(8) Data by (auto simp: command_data_def)
    with that run show ?thesis using assms Data by (simp add: command_step_def command_data_def)
  next
    case (Control pt bs)
    obtain x s1 where run: "send_payload E pt bs s = (x, s1)" by (cases "send_payload E pt bs s")
    obtain es where "progressed E agent [] x [] s s1 es"
      using send_control_progress [OF run assms(4)] assms(3) Control by blast
    with that run show ?thesis using assms Control by (simp add: command_step_def command_data_def)
  qed
  have "moved E agent s (snd (command_step E s)) es"
    using after_send_flow [OF pr assms(1,5) held] assms(1,5) unfolding moved_def step backlog_def held
    by (auto simp: backlog_def)
  then show ?thesis ..
qed

lemma ended_flow:
  assumes "task_gone s"
  shows "moved E agent s (snd (command_step E s)) []"
proof -
  have "snd (command_step E s) = s\<lparr>commands := drop_rx (commands s)\<rparr>"
    using assms by (auto simp: task_gone_def command_step_def recv_def)
  then show ?thesis using assms by (simp add: moved_def numbered_none task_gone_def accepted_def)
qed

text \<open>Between commands: the session may have closed, the queue may have a command, be empty or have ended.\<close>

lemma idle_task_flow:
  assumes "sending s = None" and "\<not> rx_gone (commands s)"
    and "closed_now s \<or> held_command s = None \<or> \<not> is_sendable (core s)"
  shows "moved E agent s (snd (command_step E s)) []"
proof (cases "closed_now s")
  case True
  then have "snd (command_step E s) = s\<lparr>commands := drop_rx (commands s)\<rparr>"
    using assms(1) by (simp add: command_step_def)
  then show ?thesis using True assms(1) by (simp add: moved_def numbered_none task_gone_def accepted_def)
next
  case False
  show ?thesis
  proof (cases "held_command s")
    case (Some c)
    then have "snd (command_step E s) = s" using False assms by (simp add: command_step_def)
    then show ?thesis using assms(1,2) by (simp add: moved_def numbered_none waiting_ok_def)
  next
    case None
    have "snd (command_step E s) =
      (case queued (commands s) of
         c # q \<Rightarrow> s\<lparr>commands := (commands s)\<lparr>queued := q\<rparr>, held_command := Some c\<rparr>
       | [] \<Rightarrow> if tx_gone (commands s) then s\<lparr>commands := drop_rx (commands s)\<rparr> else s)"
      using False None assms(1) by (auto simp: command_step_def recv_def split: list.split)
    then show ?thesis
      using assms(1,2) None
      by (auto simp: moved_def numbered_none task_gone_def accepted_def waiting_ok_def backlog_def held_input_def
          split: list.split)
  qed
qed

text \<open>What a step of the task needs: the agent's keys match, and the numbers it may use up are still positive.\<close>

definition in_range :: "'e crypto_ext_scheme \<Rightarrow> session_crypto option \<Rightarrow> 'z channel_state_scheme \<Rightarrow> bool" where
  "in_range E agent s \<longleftrightarrow> 0 \<le> sint (stream_sequence (stream s))
     \<and> sint (stream_sequence (stream s)) + int (length (backlog E agent s)) + 1 < 2 ^ 63"

lemma command_step_flow:
  assumes "waiting_ok E s" and "rx_gone (commands s) \<Longrightarrow> task_gone s" and "\<forall>c \<in> accepted s. command_ok c"
    and "can_send E agent s" and "in_range E agent s"
  shows "\<exists>es. moved E agent s (snd (command_step E s)) es"
proof (cases "rx_gone (commands s)")
  case True
  then show ?thesis using ended_flow [of s E agent] assms(2) by blast
next
  case live: False
  show ?thesis
  proof (cases "sending s")
    case (Some w)
    then obtain f left where w: "sending s = Some (f, left)" by (cases w) auto
    have "length left \<le> length (backlog E agent s)" using w by (simp add: backlog_def held_input_def)
    then show ?thesis using resumed_flow [OF w assms(4,1) live] assms(5) by (simp add: in_range_def)
  next
    case None
    show ?thesis
    proof (cases "closed_now s \<or> held_command s = None \<or> \<not> is_sendable (core s)")
      case True
      then show ?thesis using idle_task_flow [OF None live] by blast
    next
      case False
      then obtain c where c: "held_command s = Some c" by auto
      have "command_ok c" using assms(3) c by (simp add: accepted_def)
      moreover have "length (command_data c) \<le> length (backlog E agent s)"
        using None c by (simp add: backlog_def held_input_def)
      ultimately show ?thesis
        using carried_out_flow [OF None c _ assms(4) live] False assms(5) by (auto simp: in_range_def)
    qed
  qed
qed

section \<open>The other tasks\<close>

text \<open>
  What everyone else leaves alone: the command task's queue, command and message, and, while that message waits
  under the lock, the counter. The counter only goes up, and a closed session stays closed.
\<close>

definition left_alone :: "'z channel_state_scheme \<Rightarrow> 'z channel_state_scheme \<Rightarrow> bool" where
  "left_alone s s' \<longleftrightarrow> commands s' = commands s \<and> held_command s' = held_command s \<and> sending s' = sending s
     \<and> chunk_size s' = chunk_size s \<and> (closed_now s \<longrightarrow> closed_now s')
     \<and> (sending s \<noteq> None \<and> sequence_locked s \<longrightarrow>
          sequence_locked s' \<and> stream_sequence (stream s') = stream_sequence (stream s))
     \<and> (\<exists>k. stream_sequence (stream s') = stream_sequence (stream s) + of_nat k)"

lemma left_alone_refl [simp]: "left_alone s s"
  by (auto simp: left_alone_def intro: exI [of _ 0])

lemma left_alone_trans: "left_alone s s1 \<Longrightarrow> left_alone s1 s2 \<Longrightarrow> left_alone s s2"
proof -
  assume 1: "left_alone s s1" and 2: "left_alone s1 s2"
  from 1 obtain k where "stream_sequence (stream s1) = stream_sequence (stream s) + of_nat k" by (auto simp: left_alone_def)
  moreover from 2 obtain j where "stream_sequence (stream s2) = stream_sequence (stream s1) + of_nat j"
    by (auto simp: left_alone_def)
  ultimately have "stream_sequence (stream s2) = stream_sequence (stream s) + of_nat (k + j)" by (simp add: ac_simps)
  then show ?thesis using 1 2 unfolding left_alone_def by metis
qed

lemma left_alone_same:
  assumes "same_task s s'" and "stream_sequence (stream s') = stream_sequence (stream s)
      \<or> \<not> sequence_locked s \<and> stream_sequence (stream s') = stream_sequence (stream s) + 1"
    and "closed_now s \<longrightarrow> closed_now s'"
  shows "left_alone s s'"
proof -
  have "\<exists>k. stream_sequence (stream s') = stream_sequence (stream s) + of_nat k"
    using assms(2) by (auto intro: exI [of _ 0] exI [of _ 1])
  then show ?thesis using assms by (auto simp: left_alone_def same_task_def)
qed

lemma send_payload_left_alone: "left_alone s (snd (send_payload E pt pl s))"
proof -
  obtain q s1 where sp: "seal_payload E pt pl s = (q, s1)" by (cases "seal_payload E pt pl s")
  obtain n where s1: "s1 = s\<lparr>draws := n\<rparr>" using seal_payload_kept [OF sp] by blast
  have draw: "left_alone s (s\<lparr>draws := n\<rparr>)" for n by (rule left_alone_same) (simp_all add: same_task_def)
  have tw: "left_alone s (snd (track_and_write f (s\<lparr>draws := n\<rparr>)))" if "\<not> sequence_locked s" for f n
  proof -
    obtain x s2 where x: "track_and_write f (s\<lparr>draws := n\<rparr>) = (x, s2)" by (cases "track_and_write f (s\<lparr>draws := n\<rparr>)")
    have "closed_now s \<longrightarrow> closed_now s2"
      using x by (auto simp: track_and_write_def Let_def split_beta intro!: write_frame_closed split: bool.splits if_splits)
    with track_and_write_outcome [OF x] that show ?thesis
      by (intro left_alone_same) (auto simp: x same_task_def tracked_def)
  qed
  from draw tw show ?thesis using sp s1
    by (cases q) (simp_all add: send_payload_def build_outbound_def)
qed

text \<open>The lock has one holder: the command task with its message or the reader with its reply.\<close>

definition reader_holds :: "reader_state \<Rightarrow> bool" where
  "reader_holds r \<longleftrightarrow> (\<exists>f w. reader_parked r = Some (Some f, w))"

definition lock_ok :: "reader_state \<Rightarrow> bool" where
  "lock_ok r \<longleftrightarrow> (reader_holds r \<longrightarrow> sequence_locked r \<and> sending r = None) \<and> (sending r \<noteq> None \<longrightarrow> sequence_locked r)"

definition kept_apart :: "reader_state \<Rightarrow> reader_state \<Rightarrow> bool" where
  "kept_apart r0 r \<longleftrightarrow> left_alone r0 r \<and> lock_ok r"

lemma send_payload_same:
  assumes "send_payload E pt pl s = (x, s')"
  shows "same_task s s'" and "x = Waits (Some f) \<Longrightarrow> \<not> sequence_locked s"
proof -
  obtain q s1 where sp: "seal_payload E pt pl s = (q, s1)" by (cases "seal_payload E pt pl s")
  obtain n where s1: "s1 = s\<lparr>draws := n\<rparr>" using seal_payload_kept [OF sp] by blast
  have tw: "same_task s s'" if "track_and_write g (s\<lparr>draws := k\<rparr>) = (x, s')" for g k
    using track_and_write_outcome [OF that] by (simp add: same_task_def)
  show "same_task s s'"
    using assms sp s1 tw by (cases q) (auto simp: send_payload_def build_outbound_def same_task_def split: if_splits)
  show "x = Waits (Some f) \<Longrightarrow> \<not> sequence_locked s"
    using assms sp s1 by (cases q) (auto simp: send_payload_def)
qed

lemma kept_apart_sent:
  assumes "kept_apart r0 s" and "send_payload E pt pl s = (x, s')"
  shows "kept_apart r0 (case x of Waits held \<Rightarrow> park_reader held pt pl a s' | Done _ \<Rightarrow> s')"
proof -
  have alone: "left_alone r0 s'"
    using left_alone_trans send_payload_left_alone [of s E pt pl] assms by (auto simp: kept_apart_def)
  have ok: "lock_ok s" and same: "sending s' = sending s" "sequence_locked s' = sequence_locked s"
    using assms(1) send_payload_same(1) [OF assms(2)] by (auto simp: kept_apart_def same_task_def)
  have parked: "reader_parked s' = reader_parked s" using send_parked(2) [of E pt pl s] assms(2) by simp
  show ?thesis
  proof (cases x)
    case (Done y)
    then show ?thesis using alone ok same parked by (simp add: kept_apart_def lock_ok_def reader_holds_def)
  next
    case (Waits held)
    have "left_alone s' (park_reader held pt pl a s')"
      by (auto simp: left_alone_def park_reader_def intro: exI [of _ 0])
    then have "left_alone r0 (park_reader held pt pl a s')" using alone left_alone_trans by blast
    moreover have "held = Some f \<Longrightarrow> \<not> sequence_locked s" for f using send_payload_same(2) [OF assms(2)] Waits by blast
    ultimately show ?thesis
      using Waits ok same by (auto simp: kept_apart_def lock_ok_def reader_holds_def park_reader_def)
  qed
qed

lemma kept_apart_retried:
  assumes "kept_apart r0 s" and "reader_parked s = Some (Some f, pt, pl, a)"
    and "track_and_write f (s\<lparr>reader_parked := None\<rparr>) = (x, s')"
  shows "kept_apart r0 (case x of Waits w \<Rightarrow> park_reader w pt pl a s' | Done _ \<Rightarrow> s'\<lparr>sequence_locked := False\<rparr>)"
proof -
  let ?s = "s\<lparr>reader_parked := None\<rparr>"
  have idle: "sending s = None" using assms(1,2) by (auto simp: kept_apart_def lock_ok_def reader_holds_def)
  have out: "same_task ?s s'" "stream_sequence (stream s') = stream_sequence (stream s)
      \<or> stream_sequence (stream s') = stream_sequence (stream s) + 1" "\<And>w. x = Waits w \<Longrightarrow> w = Some f"
    using track_and_write_outcome [OF assms(3)] by (auto simp: tracked_def)
  have cl: "closed_now s \<longrightarrow> closed_now s'"
    using assms(3) by (auto simp: track_and_write_def Let_def split_beta intro!: write_frame_closed split: bool.splits if_splits)
  have seq: "\<exists>k. stream_sequence (stream s') = stream_sequence (stream s) + of_nat k"
    using out(2) by (auto intro: exI [of _ 0] exI [of _ 1])
  have parked: "reader_parked s' = None" using send_parked(1) [of f ?s] assms(3) by simp
  let ?r = "case x of Waits w \<Rightarrow> park_reader w pt pl a s' | Done _ \<Rightarrow> s'\<lparr>sequence_locked := False\<rparr>"
  have "left_alone s ?r"
    using out(1) idle cl seq by (auto simp: left_alone_def same_task_def park_reader_def split: io.split)
  then have "left_alone r0 ?r" using assms(1) left_alone_trans by (auto simp: kept_apart_def)
  moreover have "lock_ok ?r"
    using out(1,3) idle parked by (auto simp: lock_ok_def reader_holds_def same_task_def park_reader_def split: io.split)
  ultimately show ?thesis by (simp add: kept_apart_def)
qed

interpretation other: reader_invariant "kept_apart r0" E
proof unfold_locales
  fix s :: reader_state and op
  assume s: "kept_apart r0 s"
  show "kept_apart r0 (s\<lparr>core := core_step op (core s)\<rparr>)"
    using s closed_core_stable [of "core s" op]
    by (auto simp: kept_apart_def left_alone_def lock_ok_def reader_holds_def)
qed (simp_all add: kept_apart_sent kept_apart_retried,
    auto simp: kept_apart_def left_alone_def lock_ok_def reader_holds_def set_crypto_def)

inductive other_step :: "'e conn_ext_scheme \<Rightarrow> duration \<Rightarrow> reader_state \<Rightarrow> reader_state \<Rightarrow> bool"
  for E idle_timeout where
  reader: "other_step E idle_timeout r (snd (reader_step E ev r))"
| resume: "other_step E idle_timeout r (snd (reader_resume E r))"
| writer: "other_step E idle_timeout r (snd (writer_step r))"
| retransmit: "other_step E idle_timeout r (snd (retransmit_step r))"
| heartbeat: "other_step E idle_timeout r (snd (heartbeat_step idle_timeout r))"
| terminate: "other_step E idle_timeout r (close_core Terminated r)"
| consumer: "other_step E idle_timeout r (r\<lparr>core := core_step (ReadStream i) (core r)\<rparr>)"
| subscriber: "other_step E idle_timeout r (r\<lparr>core := core_step SubscribeCore (core r)\<rparr>)"
| unsubscribe: "other_step E idle_timeout r (r\<lparr>core := core_step (DropReader i) (core r)\<rparr>)"
| time: "clock r \<le> t \<Longrightarrow> other_step E idle_timeout r (r\<lparr>clock := t\<rparr>)"
| socket_fails: "other_step E idle_timeout r (r\<lparr>sink_broken := True\<rparr>)"

lemma other_step_is_step: "other_step E i r r' \<Longrightarrow> channel_step E i r r'"
  by (induction rule: other_step.induct) (rule channel_step.intros; assumption?)+

lemma writer_left_alone: "left_alone s (snd (writer_step s))"
proof -
  have "closed_now s \<longrightarrow> closed_now (snd (writer_step s))"
    by (auto simp: writer_step_def stop_writer_def)
  then show ?thesis by (intro left_alone_same) (simp_all add: same_task_def)
qed

lemma retransmit_left_alone: "left_alone s (snd (retransmit_step s))"
proof -
  let ?s1 = "s\<lparr>stream := (stream s)\<lparr>outgoing := snd (poll_retransmit (clock s) (outgoing (stream s)))\<rparr>\<rparr>"
  have 1: "left_alone s ?s1" by (rule left_alone_same) (simp_all add: same_task_def)
  moreover have "left_alone ?s1 (close_core q ?s1)" for q
    by (rule left_alone_same) (simp_all add: same_task_def close_core_def core_close_def)
  moreover have "left_alone ?s1 (snd (write_frame m ?s1))" for m
    using write_frame_closed [of ?s1 m] by (intro left_alone_same) (simp_all add: same_task_def)
  ultimately have "left_alone s (close_core q ?s1)" "left_alone s (snd (write_frame m ?s1))" for q m
    using left_alone_trans by blast+
  with 1 show ?thesis
    by (cases "poll_retransmit (clock s) (outgoing (stream s))")
      (auto simp: retransmit_step_def split_beta split: retransmit_action.split prod.split result.split
        dest: meta_spec [of _ "Binary _"])
qed

lemma kept_apartI:
  "left_alone r r' \<Longrightarrow> lock_ok r \<Longrightarrow> reader_parked r' = reader_parked r \<Longrightarrow> sequence_locked r' = sequence_locked r \<Longrightarrow>
    kept_apart r r'"
  by (auto simp: kept_apart_def lock_ok_def left_alone_def reader_holds_def)

lemma retransmit_kept:
  "channel_state.more (snd (retransmit_step s)) = channel_state.more s"
  "sequence_locked (snd (retransmit_step s)) = sequence_locked s"
proof -
  let ?s1 = "s\<lparr>stream := (stream s)\<lparr>outgoing := snd (poll_retransmit (clock s) (outgoing (stream s)))\<rparr>\<rparr>"
  have "channel_state.more (snd (write_frame m ?s1)) = channel_state.more s"
    "sequence_locked (snd (write_frame m ?s1)) = sequence_locked s" for m by simp_all
  then show "channel_state.more (snd (retransmit_step s)) = channel_state.more s"
    "sequence_locked (snd (retransmit_step s)) = sequence_locked s"
    by (cases "poll_retransmit (clock s) (outgoing (stream s))";
        auto simp: retransmit_step_def close_core_def split_beta split: retransmit_action.split prod.split result.split
          dest: meta_spec [of _ "Binary _"])+
qed

lemma other_step_kept_apart:
  assumes "other_step E i r r'" and "lock_ok r"
  shows "kept_apart r r'"
  using assms
proof (induction rule: other_step.induct)
  case (reader r ev)
  then show ?case by (intro other.keeps_reader_step) (simp add: kept_apart_def)
next
  case (resume r)
  then show ?case by (intro other.keeps_resume) (simp add: kept_apart_def)
next
  case (writer r)
  then show ?case by (intro kept_apartI writer_left_alone parked_more) simp_all
next
  case (retransmit r)
  then show ?case by (intro kept_apartI retransmit_left_alone parked_more) (simp_all add: retransmit_kept)
next
  case (heartbeat r)
  have "kept_apart r (snd (try_write m r))" for m
    using heartbeat by (intro kept_apartI left_alone_same) (simp_all add: try_write_def split_beta same_task_def)
  moreover have "kept_apart r r" using heartbeat by (simp add: kept_apart_def)
  ultimately show ?case using other.core_updates(6) [of r r] by (simp add: heartbeat_step_def)
next
  case (terminate r)
  then show ?case by (intro other.core_updates(6)) (simp add: kept_apart_def)
next
  case (time r t)
  then show ?case by (intro kept_apartI left_alone_same) (simp_all add: same_task_def)
next
  case (socket_fails r)
  then show ?case by (intro kept_apartI left_alone_same) (simp_all add: same_task_def)
qed (rule other.core_op, simp add: kept_apart_def)+

section \<open>Runs with their logs\<close>

text \<open>
  \<open>flow E agent i r0 acc es r\<close>: the channel got from \<open>r0\<close> to \<open>r\<close> with the steps of \<^const>\<open>channel_step\<close>; on the way
  the command queue accepted the input \<open>acc\<close> and the command task numbered the messages \<open>es\<close>. Callers queue data
  and small control messages; the command task is watched while the agent has its keys and numbers are left.
\<close>

inductive flow ::
    "'e conn_ext_scheme \<Rightarrow> session_crypto option \<Rightarrow> duration \<Rightarrow> reader_state \<Rightarrow> bytes \<Rightarrow> pending_entry list
      \<Rightarrow> reader_state \<Rightarrow> bool"
  for E agent idle_timeout r0 where
  start: "flow E agent idle_timeout r0 [] [] r0"
| dispatch: "flow E agent idle_timeout r0 acc es r \<Longrightarrow> command_ok c \<Longrightarrow>
    flow E agent idle_timeout r0 (acc @ (if fst (try_send c (commands r)) = Sent then command_data c else [])) es
      (r\<lparr>commands := snd (try_send c (commands r))\<rparr>)"
| command: "flow E agent idle_timeout r0 acc es r \<Longrightarrow> keys_agree E (stream_crypto (stream r)) agent \<Longrightarrow>
    in_range E agent r \<Longrightarrow>
    flow E agent idle_timeout r0 acc
      (es @ drop (length (pending (outgoing (stream r)))) (pending (outgoing (stream (snd (command_step E r))))))
      (snd (command_step E r))"
| others: "flow E agent idle_timeout r0 acc es r \<Longrightarrow> other_step E idle_timeout r r' \<Longrightarrow>
    flow E agent idle_timeout r0 acc es r'"

lemma flow_reach: "flow E agent i r0 acc es r \<Longrightarrow> channel_reach E i r0 r"
  by (induction rule: flow.induct)
    (auto intro: channel_reach.intros channel_step.dispatch channel_step.command other_step_is_step)

text \<open>The numbers of the messages logged so far: strictly increasing and used up.\<close>

definition used_numbers :: "pending_entry list \<Rightarrow> i64 \<Rightarrow> bool" where
  "used_numbers es n \<longleftrightarrow> (\<exists>m ns. n = of_nat m \<and> map sequence es = map of_nat ns \<and> sorted_wrt (<) ns \<and> (\<forall>i \<in> set ns. i < m))"

lemma used_numbers_later:
  assumes "used_numbers es n"
  shows "used_numbers es (n + of_nat k)"
proof -
  from assms obtain m ns where "n = of_nat m" "map sequence es = map of_nat ns" "sorted_wrt (<) ns" "\<forall>i \<in> set ns. i < m"
    by (auto simp: used_numbers_def)
  then show ?thesis unfolding used_numbers_def by (intro exI [of _ "m + k"] exI [of _ ns]) auto
qed

lemma used_numbers_append:
  assumes "used_numbers es n" and "map sequence es' = map (\<lambda>i. n + of_nat i) [0..<length es']"
  shows "used_numbers (es @ es') (n + of_nat (length es'))"
proof -
  from assms(1) obtain m ns where m: "n = of_nat m" "map sequence es = map of_nat ns" "sorted_wrt (<) ns" "\<forall>i \<in> set ns. i < m"
    by (auto simp: used_numbers_def)
  let ?k = "length es'"
  have "map sequence (es @ es') = map of_nat (ns @ map ((+) m) [0..<?k])" using m(1,2) assms(2) by simp
  moreover have "sorted_wrt (<) (ns @ map ((+) m) [0..<?k])"
    using m(3,4) by (auto simp: sorted_wrt_append sorted_wrt_map)
  moreover have "\<forall>i \<in> set (ns @ map ((+) m) [0..<?k]). i < m + ?k" using m(4) by auto
  ultimately show ?thesis using m(1) unfolding used_numbers_def by (intro exI [of _ "m + ?k"]) fastforce
qed

definition flow_inv ::
    "'e crypto_ext_scheme \<Rightarrow> session_crypto option \<Rightarrow> nat \<Rightarrow> bytes \<Rightarrow> pending_entry list \<Rightarrow> 'z channel_state_scheme \<Rightarrow> bool" where
  "flow_inv E agent sz acc es s \<longleftrightarrow> chunk_size s = sz \<and> (\<forall>c \<in> accepted s. command_ok c) \<and> waiting_ok E s
     \<and> (if rx_gone (commands s) then task_gone s \<and> prefix (inputs E agent es) acc
        else inputs E agent es @ backlog E agent s = acc)
     \<and> (\<forall>e \<in> set es. frame_for E (sequence e) (wire e)) \<and> used_numbers es (stream_sequence (stream s))"

lemma flow_inv_moved:
  assumes "flow_inv E agent sz acc es s" and "moved E agent s s' es'"
  shows "flow_inv E agent sz acc (es @ es') s'"
proof -
  have num: "\<forall>e \<in> set es'. frame_for E (sequence e) (wire e)"
      "map sequence es' = map (\<lambda>i. stream_sequence (stream s) + of_nat i) [0..<length es']"
      "stream_sequence (stream s') = stream_sequence (stream s) + of_nat (length es')"
    and rest: "chunk_size s' = chunk_size s" "accepted s' \<subseteq> accepted s"
    using assms(2) by (auto simp: moved_def numbered_def)
  have "used_numbers (es @ es') (stream_sequence (stream s'))"
    using used_numbers_append [OF _ num(2)] assms(1) unfolding num(3) by (simp add: flow_inv_def)
  moreover have "waiting_ok E s'" using assms(2) by (auto simp: moved_def task_gone_def waiting_ok_def)
  moreover have "if rx_gone (commands s') then task_gone s' \<and> prefix (inputs E agent (es @ es')) acc
      else inputs E agent (es @ es') @ backlog E agent s' = acc"
    using assms by (auto simp: moved_def flow_inv_def task_gone_def split: if_splits)
  ultimately show ?thesis using assms(1) num(1) rest by (auto simp: flow_inv_def)
qed

lemma flow_inv_left_alone:
  assumes "flow_inv E agent sz acc es s" and "left_alone s s'"
  shows "flow_inv E agent sz acc es s'"
proof -
  from assms(2) obtain k where "stream_sequence (stream s') = stream_sequence (stream s) + of_nat k"
    and same: "commands s' = commands s" "held_command s' = held_command s" "sending s' = sending s"
      "chunk_size s' = chunk_size s"
    by (auto simp: left_alone_def)
  then have "used_numbers es (stream_sequence (stream s'))"
    using used_numbers_later assms(1) by (simp add: flow_inv_def)
  moreover have "backlog E agent s' = backlog E agent s" "accepted s' = accepted s"
    using same by (simp_all add: backlog_def held_input_def accepted_def split: option.split)
  moreover have "waiting_ok E s \<Longrightarrow> waiting_ok E s'" "task_gone s \<Longrightarrow> task_gone s'"
    using assms(2) same by (auto simp: waiting_ok_def task_gone_def left_alone_def split: option.splits)
  ultimately show ?thesis using assms(1) same by (simp add: flow_inv_def)
qed

lemma flow_inv_dispatch:
  assumes "flow_inv E agent sz acc es s" and "command_ok c"
  shows "flow_inv E agent sz (acc @ (if fst (try_send c (commands s)) = Sent then command_data c else [])) es
    (s\<lparr>commands := snd (try_send c (commands s))\<rparr>)"
proof -
  let ?s' = "s\<lparr>commands := snd (try_send c (commands s))\<rparr>"
  have "accepted ?s' \<subseteq> insert c (accepted s)" by (auto simp: try_send_def accepted_def)
  then have "\<forall>c \<in> accepted ?s'. command_ok c" using assms by (auto simp: flow_inv_def)
  moreover have "waiting_ok E ?s' = waiting_ok E s" by (simp add: waiting_ok_def split: option.split)
  moreover have "if rx_gone (commands ?s')
      then task_gone ?s' \<and> prefix (inputs E agent es) (acc @ (if fst (try_send c (commands s)) = Sent then command_data c else []))
      else inputs E agent es @ backlog E agent ?s' = acc @ (if fst (try_send c (commands s)) = Sent then command_data c else [])"
    using assms(1) by (auto simp: flow_inv_def try_send_def backlog_def task_gone_def split: if_splits)
  ultimately show ?thesis using assms(1) unfolding flow_inv_def by simp
qed

lemma send_stream_more [simp]: "channel_state.more (snd (snd (send_stream_data E data s))) = channel_state.more s"
proof (induction E data s rule: send_stream_data.induct)
  case (1 E data s)
  show ?case
  proof (cases "data = [] \<or> chunk_size s = 0")
    case True
    then show ?thesis by (simp add: send_stream_data.simps [of E data s])
  next
    case False
    then have ne: "data \<noteq> []" "0 < chunk_size s" by auto
    obtain x s1 where sp: "send_payload E Output (take (chunk_size s) data) s = (x, s1)"
      by (cases "send_payload E Output (take (chunk_size s) data) s")
    have "channel_state.more s1 = channel_state.more s"
      using send_payload_more [of E Output "take (chunk_size s) data" s] sp by simp
    then show ?thesis using send_stream_data_step [OF ne sp] 1 [OF False sp [symmetric] _ refl] by simp
  qed
qed

lemma after_send_more [simp]: "channel_state.more (snd (after_send x left s)) = channel_state.more s"
  by (auto simp: after_send_def Let_def close_core_def split: io.split result.split option.split)

lemma command_step_more: "channel_state.more (snd (command_step E s)) = channel_state.more s"
proof (cases "sending s")
  case None
  then show ?thesis
    by (auto simp: command_step_def split_beta split: option.split prod.split recv_outcome.split command.split)
next
  case (Some w)
  obtain f left where w: "w = (f, left)" by (cases w)
  obtain x s1 where x: "track_and_write f s = (x, s1)" by (cases "track_and_write f s")
  have "channel_state.more s1 = channel_state.more s" using track_and_write_more [of f s] x by simp
  then show ?thesis
    by (auto simp: command_step_def Some w x split_beta split: io.split result.split)
qed

lemma lock_ok_command:
  assumes "moved E agent r (snd (command_step E r)) es" and "lock_ok r"
  shows "lock_ok (snd (command_step E r))"
proof -
  have "reader_parked (snd (command_step E r)) = reader_parked r" by (rule parked_more) (rule command_step_more)
  moreover have "sending (snd (command_step E r)) \<noteq> None \<Longrightarrow> sequence_locked (snd (command_step E r))"
    using assms(1) by (auto simp: moved_def waiting_ok_def task_gone_def)
  ultimately show ?thesis
    using assms by (auto simp: lock_ok_def reader_holds_def moved_def)
qed

lemma flow_inv_run:
  assumes "flow E agent i r0 acc es r" and "flow_inv E agent sz [] [] r0" and "lock_ok r0"
    and "wf_ext E" and "0 < sz" and "sz + 28 \<le> MAX_PAYLOAD_SIZE"
  shows "flow_inv E agent sz acc es r \<and> lock_ok r"
  using assms
proof (induction rule: flow.induct)
  case (command acc es r)
  then have inv: "flow_inv E agent sz acc es r" "lock_ok r" by blast+
  from inv(1) have "waiting_ok E r" "rx_gone (commands r) \<Longrightarrow> task_gone r" "\<forall>c \<in> accepted r. command_ok c"
    "can_send E agent r"
    using command by (auto simp: flow_inv_def can_send_def in_range_def)
  from command_step_flow [OF this command(3)] obtain es' where mv: "moved E agent r (snd (command_step E r)) es'" ..
  then have "drop (length (pending (outgoing (stream r)))) (pending (outgoing (stream (snd (command_step E r))))) = es'"
    by (simp add: moved_def numbered_def)
  then show ?case using flow_inv_moved [OF inv(1) mv] lock_ok_command [OF mv inv(2)] by simp
next
  case (others acc es r r')
  then have "kept_apart r r'" using other_step_kept_apart by blast
  then show ?case using others flow_inv_left_alone by (auto simp: kept_apart_def)
next
  case (dispatch acc es r c)
  then have "lock_ok (r\<lparr>commands := snd (try_send c (commands r))\<rparr>)"
    by (simp add: lock_ok_def reader_holds_def)
  then show ?case using dispatch flow_inv_dispatch by blast
qed blast

lemma connect_starts_flow:
  assumes "connect E N p c now = Ok r"
  shows "flow_inv E agent (chunk_size r) [] [] r" and "lock_ok r" and "0 < chunk_size r"
proof -
  have fresh: "accepted r = {}" "sending r = None" "held_command r = None" "queued (commands r) = []"
    "\<not> rx_gone (commands r)" "0 < chunk_size r" "reader_parked r = None"
    using assms clamp_bounds [of 1 MAX_PAYLOAD_SIZE "par_chunk_size p"]
    by (auto simp: connect_def Let_def accepted_def channel_state.defs channel_new_def MAX_PAYLOAD_SIZE_def)
  have "\<exists>m. stream_sequence (stream r) = of_nat m" by (rule exI [of _ "unat (stream_sequence (stream r))"]) simp
  then show "flow_inv E agent (chunk_size r) [] [] r"
    using fresh by (auto simp: flow_inv_def waiting_ok_def backlog_def held_input_def used_numbers_def)
  show "0 < chunk_size r" "lock_ok r" using fresh by (simp_all add: lock_ok_def reader_holds_def)
qed

section \<open>Properties\<close>


lemma toy_conn_wf: "wf_ext toy_conn_ext"
  using toy_wf_ext by (simp add: wf_ext_def toy_conn_ext_def handshake_ext.defs)


end
