(* ===== verification/Backpressure.thy ===== *)
theory Backpressure
  imports Outbound_Flow
begin

text \<open>
  The outgoing buffer of \<^verbatim>\<open>src/connection.rs\<close> and \<^verbatim>\<open>src/ack.rs\<close> when it is full, and what that does to the reader: it sends
  its replies through that buffer and is the only task that can empty it.
\<close>

section \<open>A full buffer\<close>

text \<open>No send gets a number then; only an acknowledgement makes room.\<close>

definition full :: "'z channel_state_scheme \<Rightarrow> bool" where
  "full s \<longleftrightarrow> out_capacity (outgoing (stream s)) \<le> length (pending (outgoing (stream s)))"

lemma track_full:
  assumes "full s"
  shows "track_and_write f s =
    (if closed_now s then (Done (Err (SessionClosed [Txt ''session closed while waiting for acknowledgements''])), s)
     else (Waits (Some f), s))"
  using assms by (simp add: full_def track_and_write_def track_def Let_def)

lemma send_full:
  assumes "full s" and "send_payload E pt pl s = (x, s')"
  shows "stream s' = stream s" and "x \<noteq> Done (Ok ())"
    and "pt \<noteq> Output \<Longrightarrow> \<not> closed_now s \<Longrightarrow> \<exists>held. x = Waits held"
proof -
  obtain q s1 where sp: "seal_payload E pt pl s = (q, s1)" by (cases "seal_payload E pt pl s")
  obtain n where s1: "s1 = s\<lparr>draws := n\<rparr>" using seal_payload_kept [OF sp] by blast
  have full: "full (s\<lparr>draws := k\<rparr>)" for k using assms(1) by (simp add: full_def)
  show "stream s' = stream s" "x \<noteq> Done (Ok ())"
    using assms(2) sp s1
    by (cases q; auto simp: send_payload_def build_outbound_def track_full [OF full] split: if_splits)+
  show "\<exists>held. x = Waits held" if "pt \<noteq> Output" "\<not> closed_now s"
  proof -
    have "q = Ok pl" using that(1) sp by (auto simp: seal_payload_def split: option.splits)
    then show ?thesis
      using assms(2) sp s1 that(2)
      by (auto simp: send_payload_def build_outbound_def track_full [OF full] split: if_splits)
  qed
qed

lemma send_stream_full:
  assumes "full s"
  shows "stream (snd (snd (send_stream_data E data s))) = stream s"
proof (cases "data = [] \<or> chunk_size s = 0")
  case True
  then show ?thesis by (simp add: send_stream_data.simps [of E data s])
next
  case False
  then have ne: "data \<noteq> []" "0 < chunk_size s" by auto
  obtain x s1 where sp: "send_payload E Output (take (chunk_size s) data) s = (x, s1)"
    by (cases "send_payload E Output (take (chunk_size s) data) s")
  show ?thesis using send_stream_data_step [OF ne sp] send_full [OF assms sp] by simp
qed

lemma after_send_stream: "stream (snd (after_send x left s)) = stream s"
  by (auto simp: after_send_def Let_def close_core_def split: io.split result.split option.split)

lemma command_step_full:
  assumes "full s"
  shows "stream (snd (command_step E s)) = stream s"
proof (cases "sending s")
  case None
  have "stream (snd (send_payload E pt bs s)) = stream s" for pt bs
    using send_full(1) [OF assms] by (cases "send_payload E pt bs s") auto
  with None show ?thesis
    by (auto simp: command_step_def split_beta after_send_stream send_stream_full [OF assms]
        split: option.split prod.split recv_outcome.split command.split)
next
  case (Some w)
  then show ?thesis by (cases w) (auto simp: command_step_def track_full [OF assms] after_send_stream)
qed

lemma resume_full:
  assumes "full r" and "\<not> closed_now r" and "reader_parked r = Some (held, pt, pl, a)" and "pt \<noteq> Output"
  shows "\<exists>held'. reader_parked (snd (reader_resume E r)) = Some (held', pt, pl, a)
    \<and> stream (snd (reader_resume E r)) = stream r"
proof -
  let ?r = "r\<lparr>reader_parked := None\<rparr>"
  have full: "full ?r" and op: "\<not> closed_now ?r" using assms(1,2) by (simp_all add: full_def)
  obtain x r1 where x: "send_payload E pt pl ?r = (x, r1)" by (cases "send_payload E pt pl ?r")
  obtain w where w: "x = Waits w" "stream r1 = stream r" using send_full [OF full x] assms(4) op by auto
  show ?thesis
  proof (cases held)
    case None
    then show ?thesis using assms(3) x w
      by (simp add: reader_resume_def retry_reply_def send_reply_def after_route_def park_reader_def)
  next
    case (Some f)
    then show ?thesis using assms(3) op
      by (simp add: reader_resume_def retry_reply_def track_full [OF full] after_route_def park_reader_def)
  qed
qed

text \<open>Once closed, a session stays closed, whatever steps the tasks still take.\<close>

lemma track_and_write_closed: "closed_now s \<Longrightarrow> closed_now (snd (track_and_write f s))"
  by (auto simp: track_and_write_def Let_def split_beta intro!: write_frame_closed split: bool.split)

lemma send_payload_closed: "closed_now s \<Longrightarrow> closed_now (snd (send_payload E pt pl s))"
  using send_payload_left_alone [of s E pt pl] by (simp add: left_alone_def)

lemma send_stream_closed: "closed_now s \<Longrightarrow> closed_now (snd (snd (send_stream_data E data s)))"
proof (induction E data s rule: send_stream_data.induct)
  case (1 E data s)
  show ?case
  proof (cases "data = [] \<or> chunk_size s = 0")
    case True
    then show ?thesis using 1(2) by (simp add: send_stream_data.simps [of E data s])
  next
    case False
    then have ne: "data \<noteq> []" "0 < chunk_size s" by auto
    obtain x s1 where sp: "send_payload E Output (take (chunk_size s) data) s = (x, s1)"
      by (cases "send_payload E Output (take (chunk_size s) data) s")
    have s1: "closed_now s1" using send_payload_closed [OF 1(2), of E Output "take (chunk_size s) data"] sp by simp
    show ?thesis using send_stream_data_step [OF ne sp] 1(1) [OF False sp [symmetric] _ refl s1] s1 by simp
  qed
qed

lemma after_send_closed: "closed_now s \<Longrightarrow> closed_now (snd (after_send x left s))"
  by (auto simp: after_send_def Let_def split: io.split result.split option.split)

lemma command_step_closed:
  assumes "closed_now s"
  shows "closed_now (snd (command_step E s))"
proof (cases "sending s")
  case (Some w)
  obtain f left where w: "w = (f, left)" by (cases w)
  obtain x s1 where x: "track_and_write f s = (x, s1)" by (cases "track_and_write f s")
  have s1: "closed_now s1" using track_and_write_closed [OF assms, of f] x by simp
  then have "closed_now (snd (snd (send_stream_data E left (s1\<lparr>sending := None, sequence_locked := False\<rparr>))))"
    by (intro send_stream_closed) simp
  then show ?thesis using s1
    by (auto simp: command_step_def Some w x split_beta intro!: after_send_closed split: io.split result.split)
qed (use assms in \<open>simp add: command_step_def\<close>)

interpretation stays: reader_invariant closed_now E
proof unfold_locales
  fix s s' :: reader_state and op pt pl x a f
  assume c: "closed_now s"
  then show "closed_now (s\<lparr>core := core_step op (core s)\<rparr>)" using closed_core_stable [of "core s" op] by simp
  show "closed_now (case x of Waits held \<Rightarrow> park_reader held pt pl a s' | Done _ \<Rightarrow> s')"
    if "send_payload E pt pl s = (x, s')"
    using send_payload_closed [OF c, of E pt pl] that by (auto simp: park_reader_def split: io.split)
  show "closed_now (case x of Waits w \<Rightarrow> park_reader w pt pl a s' | Done _ \<Rightarrow> s'\<lparr>sequence_locked := False\<rparr>)"
    if "track_and_write f (s\<lparr>reader_parked := None\<rparr>) = (x, s')"
    using track_and_write_closed [of "s\<lparr>reader_parked := None\<rparr>" f] that c by (auto simp: park_reader_def split: io.split)
qed simp_all

lemma closed_stays_closed:
  assumes "channel_step E i r r'" and "closed_now r"
  shows "closed_now r'"
  using assms
proof (induction rule: channel_step.induct)
  case (retransmit r)
  then show ?case by (simp add: retransmit_step_def)
next
  case (heartbeat r)
  then show ?case by (simp add: heartbeat_step_def)
next
  case (writer r)
  then show ?case using writer_left_alone [of r] by (simp add: left_alone_def)
qed (auto intro: stays.keeps_reader_step stays.keeps_resume command_step_closed stays.core_op
      stays.core_updates(6) simp: closed_core_stable simp del: core_step.simps)

lemma poll_capacity: "out_capacity (snd (poll_retransmit t b)) = out_capacity b"
  by (auto simp: poll_retransmit_def Let_def split: list.split)

lemma retransmit_stream:
  "stream (snd (retransmit_step s)) = stream s
   \<or> stream (snd (retransmit_step s)) = (stream s)\<lparr>outgoing := snd (poll_retransmit (clock s) (outgoing (stream s)))\<rparr>"
proof -
  let ?s1 = "s\<lparr>stream := (stream s)\<lparr>outgoing := snd (poll_retransmit (clock s) (outgoing (stream s)))\<rparr>\<rparr>"
  have "stream (snd (write_frame m ?s1)) = stream ?s1" for m by simp
  then show ?thesis
    by (cases "poll_retransmit (clock s) (outgoing (stream s))")
      (auto simp: retransmit_step_def close_core_def split_beta split: retransmit_action.split prod.split result.split
        dest: meta_spec [of _ "Binary _"])
qed

text \<open>The reader is stuck with a reply behind the messages numbered \<open>ns\<close>.\<close>

definition stuck_behind :: "i64 list \<Rightarrow> reader_state \<Rightarrow> bool" where
  "stuck_behind ns r \<longleftrightarrow> full r \<and> map sequence (pending (outgoing (stream r))) = ns
     \<and> (\<exists>held pt pl a. reader_parked r = Some (held, pt, pl, a) \<and> pt \<noteq> Output)"

lemma stuck_same:
  "stuck_behind ns r \<Longrightarrow> stream r' = stream r \<Longrightarrow> reader_parked r' = reader_parked r \<Longrightarrow> stuck_behind ns r'"
  by (simp add: stuck_behind_def full_def)

lemma stuck_step:
  assumes "channel_step E i r r'" and "stuck_behind ns r" and "\<not> closed_now r"
  shows "stuck_behind ns r'"
  using assms
proof (induction rule: channel_step.induct)
  case (reader r ev)
  then show ?case by (auto simp: reader_step_def stuck_behind_def)
next
  case (resume r)
  then obtain held pt pl a where p: "reader_parked r = Some (held, pt, pl, a)" "pt \<noteq> Output" and full: "full r"
    by (auto simp: stuck_behind_def)
  from resume_full [OF full resume(2) p, of E] resume(1) p show ?case
    by (auto simp: stuck_behind_def full_def)
next
  case (command r)
  then have "full r" by (simp add: stuck_behind_def)
  with command show ?case
    by (intro stuck_same [OF command(1)] command_step_full parked_more command_step_more)
next
  case (writer r)
  then show ?case by (intro stuck_same [OF writer(1)] parked_more) simp_all
next
  case (retransmit r)
  have "reader_parked (snd (retransmit_step r)) = reader_parked r" by (intro parked_more retransmit_kept)
  with retransmit retransmit_stream [of r] show ?case
    by (auto simp: stuck_behind_def full_def poll_sequences poll_capacity dest: arg_cong [where f = length])
      (metis length_map poll_sequences)+
next
  case (heartbeat r)
  then show ?case
    by (intro stuck_same [OF heartbeat(1)]) (auto simp: heartbeat_step_def try_write_def close_core_def split_beta)
qed (auto intro: stuck_same simp: close_core_def simp del: core_step.simps)

text \<open>
  The reader sends its replies to handshakes and challenges through the same buffer as everyone else. When that is full,
  the reply waits for an acknowledgement, which only the reader could read: whatever the agent sends and
  however the tasks are scheduled, the reader stays where it is, no message is retired, until something
  else closes the session.
\<close>

theorem full_buffer_blocks_reader:
  assumes "channel_reach E i r r'" and "full r" and "reader_parked r = Some (held, pt, pl, a)" and "pt \<noteq> Output"
  shows "closed_now r' \<or> reader_parked r' \<noteq> None
    \<and> map sequence (pending (outgoing (stream r'))) = map sequence (pending (outgoing (stream r)))"
proof -
  let ?ns = "map sequence (pending (outgoing (stream r)))"
  have "closed_now r' \<or> stuck_behind ?ns r'"
    using assms(1)
  proof (induction rule: channel_reach.induct)
    case start
    show ?case using assms(2-4) by (simp add: stuck_behind_def)
  next
    case (step r1 r2)
    then show ?case using closed_stays_closed stuck_step by blast
  qed
  then show ?thesis by (auto simp: stuck_behind_def)
qed

end
