(* ===== verification/Inbound_Flow.thy ===== *)
theory Inbound_Flow
  imports Backpressure
begin

text \<open>
  What the agent sends, followed through the inbound path of \<^verbatim>\<open>src/connection.rs\<close> to a consumer of the session's
  output while all tasks run: from the frames on the socket over the reorder buffer and the reader, which
  may be stopped in the middle of a message, to the fan-out and the consumer's queue. Messages of every kind are on
  the stream, handshakes and control messages among the output, and the key may be fixed on the way.
\<close>

section \<open>Output and consumers\<close>

text \<open>The output in a log of messages that the reader has acted on, each with the key in place at the time.\<close>

definition chunks :: "'e crypto_ext_scheme \<Rightarrow> (session_crypto option \<times> client_message) list \<Rightarrow> bytes list" where
  "chunks E ds = concat (map (\<lambda>(key, m).
     if payload_type m \<in> {Output, StdErr, Undefined} then output_chunk E key m else []) ds)"

lemma chunks_simps [simp]:
  "chunks E [] = []" "chunks E (ds @ ds') = chunks E ds @ chunks E ds'"
  "chunks E [(key, m)] = (if payload_type m \<in> {Output, StdErr, Undefined} then output_chunk E key m else [])"
  by (simp_all add: chunks_def)

text \<open>
  Consumer \<open>j\<close> was handed the output in \<open>ds\<close>: up to the point where the session was closed, the fan-out
  was sent all of it, and the consumer has seen what \<^const>\<open>seen_by\<close> says it has.
\<close>

definition handed ::
    "nat \<Rightarrow> 'e crypto_ext_scheme \<Rightarrow> (session_crypto option \<times> client_message) list \<Rightarrow> bytes list \<Rightarrow> output_fanout \<Rightarrow> bool" where
  "handed j E ds got f \<longleftrightarrow> (\<exists>sent. seen_by j sent got f \<and> prefix sent (chunks E ds)
     \<and> (\<not> fan_closed f \<longrightarrow> sent = chunks E ds))"

text \<open>Nothing is sent: the fan-out stays as it is, or the session closes.\<close>

definition quiet :: "output_fanout \<Rightarrow> output_fanout \<Rightarrow> bool" where
  "quiet f f' \<longleftrightarrow> f' = f \<or> f' = fanout_close f"

lemma quiet_refl [simp]: "quiet f f"
  by (simp add: quiet_def)

lemma fanout_close_twice [simp]: "fanout_close (fanout_close f) = fanout_close f"
  by (simp add: fanout_close_def)

lemma quiet_trans: "quiet f f1 \<Longrightarrow> quiet f1 f2 \<Longrightarrow> quiet f f2"
  by (auto simp: quiet_def)

lemma quiet_close [simp]: "quiet (fanout c) (fanout (core_close q c))"
  by (simp add: quiet_def core_close_def)

lemma handed_quiet:
  assumes "handed j E ds got f" and "quiet f f'" and "fan_inv f"
  shows "handed j E ds got f'"
  using assms(1,2) seen_by_close [OF assms(3)]
  by (auto simp: handed_def quiet_def fanout_close_def split: if_splits)

lemma handed_silent:
  "handed j E ds got f \<Longrightarrow> chunks E ds' = [] \<Longrightarrow> handed j E (ds @ ds') got f"
  by (simp add: handed_def)

lemma handed_sends:
  assumes "handed j E ds got f" and "fan_inv f"
  shows "\<exists>sent. seen_by j sent got (fold fanout_send ps f) \<and> prefix sent (chunks E ds @ ps)
    \<and> (\<not> fan_closed f \<longrightarrow> sent = chunks E ds @ ps)"
  using assms
proof (induction ps rule: rev_induct)
  case Nil
  then show ?case by (auto simp: handed_def)
next
  case (snoc p ps)
  have inv: "fan_inv (fold fanout_send ps f)" using assms(2) by (induction ps arbitrary: f) (auto intro: fan_inv_send)
  have cl: "fan_closed (fold fanout_send ps f) = fan_closed f"
    by (induction ps arbitrary: f) (simp_all add: fanout_send_def split_beta)
  from snoc obtain sent where "seen_by j sent got (fold fanout_send ps f)" "prefix sent (chunks E ds @ ps)"
    "\<not> fan_closed f \<longrightarrow> sent = chunks E ds @ ps" by blast
  moreover from this(2) have "prefix sent ((chunks E ds @ ps) @ [p])" by (rule prefix_prefix)
  ultimately show ?case
    using seen_by_send [OF inv, of j sent got p] unfolding cl
    by (intro exI [of _ "if fan_closed f then sent else sent @ [p]"]) auto
qed

lemma handed_output:
  assumes "handed j E ds got f" and "fan_inv f" and "payload_type m \<in> {Output, StdErr, Undefined}"
  shows "handed j E (ds @ [(key, m)]) got (fold fanout_send (output_chunk E key m) f)"
proof -
  have "fan_closed (fold fanout_send ps f) = fan_closed f" for ps
    by (induction ps arbitrary: f) (simp_all add: fanout_send_def split_beta)
  with handed_sends [OF assms(1,2), of "output_chunk E key m"] assms(3) show ?thesis
    unfolding handed_def by auto
qed

section \<open>Delivering one message\<close>

lemma writer_step_quiet: "quiet (fanout (core s)) (fanout (core (snd (writer_step s))))"
  by (auto simp: writer_step_def stop_writer_def close_core_def Let_def split: prod.split recv_outcome.split)

lemma write_frame_quiet: "quiet (fanout (core s)) (fanout (core (snd (write_frame m s))))"
  using writer_step_quiet [of s] by (auto simp: write_frame_def Let_def split: prod.split send_outcome.split)

lemma track_and_write_quiet: "quiet (fanout (core s)) (fanout (core (snd (track_and_write f s))))"
  using write_frame_quiet [of "s\<lparr>stream := k\<rparr>" for k]
  by (auto simp: track_and_write_def Let_def split_beta split: bool.split)

lemma send_payload_quiet: "quiet (fanout (core s)) (fanout (core (snd (send_payload E pt pl s))))"
proof -
  obtain q s1 where sp: "seal_payload E pt pl s = (q, s1)" by (cases "seal_payload E pt pl s")
  then obtain n where "s1 = s\<lparr>draws := n\<rparr>" using seal_payload_kept by blast
  with sp show ?thesis
    using track_and_write_quiet [of "s\<lparr>draws := Suc n\<rparr>"]
    by (cases q) (simp_all add: send_payload_def build_outbound_def)
qed

text \<open>
  What a delivery leaves: the reader parked exactly if it waits, and the fan-out as it was but for output.
\<close>

definition calls_quiet :: "output_fanout \<Rightarrow> unit io \<times> reader_state \<Rightarrow> bool" where
  "calls_quiet f p \<longleftrightarrow> quiet f (fanout (core (snd p)))
     \<and> ((\<exists>w. fst p = Waits w) \<longleftrightarrow> reader_parked (snd p) \<noteq> None)
     \<and> (\<forall>w. fst p = Waits w \<longrightarrow> (\<exists>pt pl a. reader_parked (snd p) = Some (w, pt, pl, a)))"

lemma bind_quiet:
  assumes "\<And>w. fst c \<noteq> Waits w" and "quiet f (fanout (core (snd c)))" and "reader_parked (snd c) = None"
    and "\<And>a s. quiet f (fanout (core s)) \<Longrightarrow> reader_parked s = None \<Longrightarrow> calls_quiet f (g a s)"
  shows "calls_quiet f (bind_io c g)"
proof (cases c)
  case (Pair x s)
  then obtain y where "x = Done y" using assms(1) by (cases x) auto
  with Pair assms show ?thesis by (cases y) (auto simp: calls_quiet_def)
qed

lemma handshake_accepted_kept [simp]:
  "fanout (core (handshake_accepted r)) = fanout (core r)" "reader_parked (handshake_accepted r) = reader_parked r"
  by (simp_all add: handshake_accepted_def set_agent_version_def Let_def split: option.split)

lemma go_on_quiet: "quiet f (fanout (core r)) \<Longrightarrow> reader_parked r = None \<Longrightarrow> calls_quiet f (go_on_after a r)"
  by (cases a) (simp_all add: calls_quiet_def)

lemma reply_quiet:
  assumes "quiet f (fanout (core r))" and "reader_parked r = None"
  shows "calls_quiet f (send_reply E pt pl a r)"
proof -
  obtain x r1 where x: "send_payload E pt pl r = (x, r1)" by (cases "send_payload E pt pl r")
  then have r1: "quiet f (fanout (core r1))" "reader_parked r1 = None"
    using send_payload_quiet [of r E pt pl] send_parked(2) [of E pt pl r] assms quiet_trans by auto
  show ?thesis
  proof (cases x)
    case (Done y)
    have "calls_quiet f (bind_io (Done y, r1) (\<lambda>_. go_on_after a))"
      by (rule bind_quiet) (simp_all add: r1 go_on_quiet)
    then show ?thesis using Done x by (simp add: send_reply_def)
  qed (use x r1 in \<open>simp add: send_reply_def calls_quiet_def park_reader_def\<close>)
qed

lemma deliver_quiet:
  assumes "reader_parked r = None" and "payload_type m \<notin> {Output, StdErr, Undefined}"
  shows "calls_quiet (fanout (core r)) (deliver E m r)"
proof -
  let ?f = "fanout (core r)"
  note q = bind_quiet [of "(Done x, s)" for x s] reply_quiet
  have "calls_quiet ?f (deliver_handshake_request E m r)"
    unfolding deliver_handshake_request_def answer_handshake_def Let_def split_beta
    using assms(1) by (auto intro!: q split: option.split) (simp_all add: calls_quiet_def)
  moreover have "calls_quiet ?f (deliver_handshake_complete E m r)"
    unfolding deliver_handshake_complete_def Let_def split_beta
    using assms(1) by (auto intro!: q) (simp_all add: calls_quiet_def set_sendable_def set_session_banner_def)
  moreover have "calls_quiet ?f (deliver_challenge E m r)"
    unfolding deliver_challenge_def Let_def using assms(1) by (auto intro!: q)
  moreover have "calls_quiet ?f (deliver_exit_code E m r)"
    unfolding deliver_exit_code_def Let_def
    using assms(1) by (auto intro!: q) (simp_all add: calls_quiet_def set_exit_code_def)
  moreover have "calls_quiet ?f (deliver_flag m r)"
    using assms(1) by (simp add: calls_quiet_def deliver_flag_def close_core_def)
  ultimately show ?thesis
    using assms by (cases "payload_type m") (simp_all add: deliver_def, simp_all add: calls_quiet_def)
qed

lemma deliver_output_parked:
  assumes "reader_parked r = None" and "payload_type m \<in> {Output, StdErr, Undefined}"
  shows "reader_parked (snd (deliver E m r)) = None" and "fst (deliver E m r) \<noteq> Waits w"
    and "fst (deliver E m r) = Done (Err e) \<Longrightarrow> fanout (core (snd (deliver E m r))) = fanout (core r)"
proof -
  have d: "deliver E m r = deliver_output E m r" using assms(2) by (auto simp: deliver_def)
  show "reader_parked (snd (deliver E m r)) = None"
    unfolding d deliver_output_def Let_def
    using assms(1) by (auto intro!: bind_io_keeps [where P = "\<lambda>s. reader_parked s = None"])
  show "fst (deliver E m r) \<noteq> Waits w"
    unfolding d deliver_output_def Let_def
    by (cases "decrypt_if_needed E m (if is_sendable (core r) then r else r\<lparr>core := set_sendable True (core r)\<rparr>)") auto
  show "fanout (core (snd (deliver E m r))) = fanout (core r)" if "fst (deliver E m r) = Done (Err e)"
    using that unfolding d deliver_output_def Let_def
    by (cases "decrypt_if_needed E m (if is_sendable (core r) then r else r\<lparr>core := set_sendable True (core r)\<rparr>)")
      (auto simp: set_sendable_def split: if_splits)
qed

section \<open>The log of a run\<close>

text \<open>
  The keys in the log: the one of the stream state \<open>k0\<close> at the start, then the current one. They differ only if
  there was none at the start, since a key is set once.
\<close>

definition keyed :: "continuity \<Rightarrow> (session_crypto option \<times> client_message) list \<Rightarrow> continuity \<Rightarrow> bool" where
  "keyed k0 ds k \<longleftrightarrow> (stream_crypto k0 = None \<or> stream_crypto k = stream_crypto k0)
     \<and> (\<exists>n. map fst ds = replicate n (stream_crypto k0) @ replicate (length ds - n) (stream_crypto k))"

definition same_key :: "continuity \<Rightarrow> continuity \<Rightarrow> bool" where
  "same_key k k' \<longleftrightarrow> stream_crypto k = None \<or> stream_crypto k' = stream_crypto k"

lemma same_key_refl [simp]: "same_key k k"
  by (simp add: same_key_def)

lemma keyed_snoc:
  assumes "keyed k0 ds k"
  shows "keyed k0 (ds @ [(stream_crypto k, m)]) k"
proof -
  obtain n where n: "map fst ds = replicate n (stream_crypto k0) @ replicate (length ds - n) (stream_crypto k)"
    using assms by (auto simp: keyed_def)
  have "n \<le> length ds" using arg_cong [OF n, of length] by simp
  then show ?thesis
    using assms n unfolding keyed_def
    by (auto simp: Suc_diff_le replicate_append_same intro!: exI [of _ n])
qed

lemma keyed_moves:
  assumes "keyed k0 ds k" and "same_key k k'"
  shows "keyed k0 ds k'"
proof (cases "stream_crypto k' = stream_crypto k")
  case False
  then have none: "stream_crypto k = None" "stream_crypto k0 = None" using assms by (auto simp: keyed_def same_key_def)
  obtain n where n: "map fst ds = replicate n None @ replicate (length ds - n) None"
    using assms(1) none by (auto simp: keyed_def)
  have "n \<le> length ds" using arg_cong [OF n, of length] by simp
  then have "map fst ds = replicate (length ds) None" using n by (simp add: replicate_add [symmetric])
  then show ?thesis using none unfolding keyed_def by (intro conjI exI [of _ "length ds"]) simp_all
qed (use assms(1) in \<open>simp add: keyed_def\<close>)

lemma keyed_none [simp]: "keyed k [] k"
  by (simp add: keyed_def)

text \<open>
  \<open>acted j E k0 M ds got s\<close>: so far the reader has acted on the messages in \<open>ds\<close>, which are numbered on from the stream
  state \<open>k0\<close> at the start and taken from \<open>M\<close>, as are the messages held back; consumer \<open>j\<close> was handed their output and has
  read \<open>got\<close>.
\<close>

definition acted ::
    "nat \<Rightarrow> 'e crypto_ext_scheme \<Rightarrow> continuity \<Rightarrow> client_message set \<Rightarrow> (session_crypto option \<times> client_message) list
      \<Rightarrow> bytes list \<Rightarrow> 'z channel_state_scheme \<Rightarrow> bool" where
  "acted j E k0 M ds got s \<longleftrightarrow> chan_inv s \<and> handed j E ds got (fanout (core s))
     \<and> numbered_from (expected k0) (map snd ds) \<and> keyed k0 ds (stream s) \<and> snd ` set ds \<subseteq> M
     \<and> (\<forall>n m. inc_held (incoming (stream s)) n = Some m \<longrightarrow> m \<in> M)"

lemma acted_kept:
  assumes "acted j E k0 M ds got s" and "chan_inv s'" and "quiet (fanout (core s)) (fanout (core s'))"
    and "incoming (stream s') = incoming (stream s)" and "same_key (stream s) (stream s')"
  shows "acted j E k0 M ds got s'"
  using assms handed_quiet [of j E ds got "fanout (core s)" "fanout (core s')"] keyed_moves
  by (auto simp: acted_def chan_inv_def core_inv_def)

lemma acted_close:
  assumes "acted j E k0 M ds got s"
  shows "acted j E k0 M ds got (close_core q s)"
proof (rule acted_kept [OF assms])
  show "chan_inv (close_core q s)" using assms by (simp add: acted_def chan_inv_close)
qed (simp_all add: close_core_def)

text \<open>
  Where the reader stands after a call: past the log, with the next message not there yet, or at the last message of the
  log, or at an end.
\<close>

definition stands :: "continuity \<Rightarrow> (session_crypto option \<times> client_message) list \<Rightarrow> unit io \<times> reader_state \<Rightarrow> bool" where
  "stands k0 ds p =
    (case fst p of
       Done (Ok _) \<Rightarrow> reader_parked (snd p) = None \<and> expected (stream (snd p)) = expected k0 + of_nat (length ds)
         \<and> inc_held (incoming (stream (snd p))) (expected (stream (snd p))) = None
     | Waits _ \<Rightarrow> reader_parked (snd p) \<noteq> None \<and> expected (stream (snd p)) + 1 = expected k0 + of_nat (length ds)
     | Done (Err _) \<Rightarrow> reader_parked (snd p) = None
     | Done Panic \<Rightarrow> False)"

lemma acted_fan_inv: "acted j E k0 M ds got s \<Longrightarrow> fan_inv (fanout (core s))"
  by (simp add: acted_def chan_inv_def core_inv_def)

text \<open>A key that is in place stays.\<close>

definition has_key :: "session_crypto \<Rightarrow> reader_state \<Rightarrow> bool" where
  "has_key c r \<longleftrightarrow> stream_crypto (stream r) = Some c"

lemma has_key_sent:
  "has_key c s \<Longrightarrow> send_payload E pt pl s = (x, s') \<Longrightarrow>
    has_key c (case x of Waits held \<Rightarrow> park_reader held pt pl a s' | Done _ \<Rightarrow> s')"
  using send_payload_inbound(3) [of E pt pl s] by (auto simp: has_key_def park_reader_def split: io.split)

interpretation keeps_key: delivery_invariant "has_key c" E
  by unfold_locales (simp_all add: has_key_sent, simp_all add: has_key_def set_crypto_def)

lemma same_keyI: "(\<And>c. has_key c s \<Longrightarrow> has_key c s') \<Longrightarrow> same_key (stream s) (stream s')"
  by (cases "stream_crypto (stream s)") (auto simp: same_key_def has_key_def)

lemma deliver_same_key: "same_key (stream r) (stream (snd (deliver E m r)))"
  by (rule same_keyI) (rule keeps_key.keeps_deliver)

text \<open>The reader delivers the message it expects.\<close>

lemma deliver_acted:
  assumes "acted j E k0 M ds got r" and "reader_parked r = None" and "expected (stream r) = expected k0 + of_nat (length ds)"
    and "m \<in> M" and "sequence_number m = expected (stream r)" and "no_panic E"
  shows "\<exists>ds'. acted j E k0 M ds' got (snd (deliver E m r))
    \<and> (fst (deliver E m r) \<noteq> Done (Ok ()) \<longrightarrow> stands k0 ds' (deliver E m r))
    \<and> (fst (deliver E m r) = Done (Ok ()) \<longrightarrow> reader_parked (snd (deliver E m r)) = None
         \<and> expected (stream (snd (deliver E m r))) + 1 = expected k0 + of_nat (length ds'))"
proof -
  obtain x r1 where dl: "deliver E m r = (x, r1)" by (cases "deliver E m r")
  let ?d = "(stream_crypto (stream r), m)"
  have inv: "chan_inv r1" using shared.keeps_deliver [of r E m] assms(1) dl by (simp add: acted_def)
  have np: "x \<noteq> Done Panic" using deliver_calm [OF assms(6), of m r] dl by (auto simp: calm_def)
  note same = deliver_eq_inbound [OF dl [symmetric]]
  have f: "fan_inv (fanout (core r))" and h: "handed j E ds got (fanout (core r))"
    using acted_fan_inv [OF assms(1)] assms(1) by (simp_all add: acted_def)
  have key: "same_key (stream r) (stream r1)" using deliver_same_key [of r E m] dl by simp
  have log: "acted j E k0 M (ds @ [?d]) got r1" if "handed j E (ds @ [?d]) got (fanout (core r1))"
    using that assms(1,3-5) inv same(1) keyed_moves [OF keyed_snoc key] by (simp add: acted_def)
  have nolog: "acted j E k0 M ds got r1" if "handed j E ds got (fanout (core r1))"
    using that assms(1) inv same(1) keyed_moves [OF _ key] by (simp add: acted_def)
  show ?thesis
  proof (cases "payload_type m \<in> {Output, StdErr, Undefined}")
    case True
    note out = deliver_output_parked [OF assms(2) True, of E, unfolded dl, simplified]
    show ?thesis
    proof (cases x)
      case (Done y)
      show ?thesis
      proof (cases y)
        case (Ok u)
        have "fanout (core r1) = fold fanout_send (output_chunk E (stream_crypto (stream r)) m) (fanout (core r))"
          using deliver_output_sends [OF True, of E r r1] dl Done Ok by simp
        then show ?thesis
          using log handed_output [OF h f True] out(1) same(2) assms(3) Done Ok dl
          by (intro exI [of _ "ds @ [?d]"]) simp
      next
        case (Err e)
        then show ?thesis using nolog h out Done dl by (intro exI [of _ ds]) (simp add: stands_def)
      qed (use np Done in simp)
    qed (use out in simp)
  next
    case False
    have q: "quiet (fanout (core r)) (fanout (core r1))" "(\<exists>w. x = Waits w) \<longleftrightarrow> reader_parked r1 \<noteq> None"
      using deliver_quiet [OF assms(2) False, of E] dl by (auto simp: calls_quiet_def)
    have "handed j E ds got (fanout (core r1))" "handed j E (ds @ [?d]) got (fanout (core r1))"
      using handed_quiet [OF h q(1) f] False by (auto intro!: handed_silent)
    then have "acted j E k0 M ds got r1" "acted j E k0 M (ds @ [?d]) got r1" using log nolog by blast+
    moreover have "expected (stream r1) + 1 = expected k0 + of_nat (length (ds @ [?d]))" using same(2) assms(3) by simp
    ultimately have A: "acted j E k0 M ds got r1" "acted j E k0 M (ds @ [?d]) got r1"
      "expected (stream r1) + 1 = expected k0 + of_nat (length (ds @ [?d]))" by blast+
    show ?thesis
    proof (cases "\<exists>e. x = Done (Err e)")
      case True
      then show ?thesis using A(1) q(2) dl by (intro exI [of _ ds]) (auto simp: stands_def)
    next
      case False
      then have "x = Done (Ok ()) \<or> (\<exists>w. x = Waits w)"
        using np by (metis io.exhaust result.exhaust unit.exhaust)
      then show ?thesis using A(2,3) q(2) dl by (intro exI [of _ "ds @ [?d]"]) (auto simp: stands_def)
    qed
  qed
qed

lemma acted_inbound:
  assumes "acted j E k0 M ds got r" and "inc_inv b" and "\<forall>n m. inc_held b n = Some m \<longrightarrow> m \<in> M"
  shows "acted j E k0 M ds got (with_inbound e b r)"
  using assms stream_inv_inbound [of "stream r" b e]
  by (auto simp: acted_def with_inbound_def chan_inv_stream chan_inv_streamD keyed_def)

lemma acted_advance:
  assumes "acted j E k0 M ds got r" and "reader_parked r = None"
  shows "acted j E k0 M ds got (with_inbound e (incoming (stream r)) r)"
    and "reader_parked (with_inbound e (incoming (stream r)) r) = None"
proof -
  have "inc_inv (incoming (stream r))" "\<forall>n m. inc_held (incoming (stream r)) n = Some m \<longrightarrow> m \<in> M"
    using assms(1) by (simp_all add: acted_def chan_inv_inc)
  then show "acted j E k0 M ds got (with_inbound e (incoming (stream r)) r)" by (rule acted_inbound [OF assms(1)])
  show "reader_parked (with_inbound e (incoming (stream r)) r) = None" using assms(2) by (simp add: with_inbound_def)
qed

text \<open>It drains what the gap held back, as far as it gets.\<close>

lemma drain_acted:
  assumes "acted j E k0 M ds got r" and "reader_parked r = None" and "n = expected (stream r)"
    and "expected (stream r) = expected k0 + of_nat (length ds)" and "no_panic E"
  shows "\<exists>ds'. acted j E k0 M ds' got (snd (drain E n r)) \<and> stands k0 ds' (drain E n r)"
  using assms
proof (induction E n r arbitrary: ds rule: drain.induct)
  case (1 E n r)
  have inv: "inc_inv (incoming (stream r))" using 1(2) by (simp add: acted_def chan_inv_inc)
  obtain x b where tk: "inc_take n (incoming (stream r)) = (x, b)"
    by (cases "inc_take n (incoming (stream r))")
  have b: "inc_inv b" "x = inc_held (incoming (stream r)) n" "inc_held b = (inc_held (incoming (stream r)))(n := None)"
    using ib.take_invar [OF inv, of n] ib.take_result [OF inv, of n] ib.take_held [OF inv, of n] tk by simp_all
  then have held: "\<forall>k m. inc_held b k = Some m \<longrightarrow> m \<in> M" using 1(2) by (auto simp: acted_def)
  let ?r0 = "r\<lparr>stream := (stream r)\<lparr>incoming := b\<rparr>\<rparr>"
  have r0: "acted j E k0 M ds got ?r0" "reader_parked ?r0 = None" "expected (stream ?r0) = expected k0 + of_nat (length ds)"
    using acted_inbound [OF 1(2) b(1) held, of "expected (stream r)"] 1(3,5) by (simp_all add: incoming_update with_inbound_def)
  show ?case
  proof (cases x)
    case None
    then have "drain E n r = (Done (Ok ()), ?r0)" by (subst drain.simps) (simp add: tk)
    then show ?thesis using r0 b(3) 1(4) by (intro exI [of _ ds]) (simp add: stands_def)
  next
    case (Some m)
    have m: "m \<in> M" "sequence_number m = expected (stream ?r0)"
      using 1(2,4) b(2) Some ib.held_seq [OF inv] by (auto simp: acted_def)
    obtain d r1 where dl: "deliver E m ?r0 = (d, r1)" by (cases "deliver E m ?r0")
    obtain ds1 where D: "acted j E k0 M ds1 got r1" "d \<noteq> Done (Ok ()) \<longrightarrow> stands k0 ds1 (d, r1)"
        "d = Done (Ok ()) \<longrightarrow> reader_parked r1 = None \<and> expected (stream r1) + 1 = expected k0 + of_nat (length ds1)"
      using deliver_acted [OF r0 m 1(6)] dl by auto
    show ?thesis
    proof (cases "d = Done (Ok ())")
      case True
      let ?r2 = "with_inbound (expected (stream r1) + 1) (incoming (stream r1)) r1"
      have adv: "advance_expected r1 = (expected (stream r1) + 1, ?r2)" by (rule advance_update)
      have un: "drain E n r = drain E (expected (stream r1) + 1) ?r2"
        by (subst drain.simps) (simp add: tk Some dl True adv)
      have r2: "acted j E k0 M ds1 got ?r2" "reader_parked ?r2 = None"
        using acted_advance [OF D(1)] D(3) True by blast+
      have tk': "(Some m, b) = inc_take n (incoming (stream r))" using tk Some by simp
      have "\<exists>ds'. acted j E k0 M ds' got (snd (drain E (expected (stream r1) + 1) ?r2))
          \<and> stands k0 ds' (drain E (expected (stream r1) + 1) ?r2)"
        using D(3) True r2 1(6)
        by (intro 1(1) [OF tk' refl dl [symmetric] True refl adv [symmetric] refl]) simp_all
      then show ?thesis by (simp add: un)
    next
      case False
      then have "drain E n r = (d, r1)"
        by (subst drain.simps) (auto simp: tk Some dl split: io.split result.split)
      then show ?thesis using D(1,2) False by auto
    qed
  qed
qed

text \<open>After a delivered message the expected number advances and the drain begins.\<close>

lemma advance_drain_acted:
  assumes "acted j E k0 M ds got r" and "reader_parked r = None"
    and "expected (stream r) + 1 = expected k0 + of_nat (length ds)" and "no_panic E"
  shows "\<exists>ds'. acted j E k0 M ds' got (snd (let (next, r2) = advance_expected r in drain E next r2))
    \<and> stands k0 ds' (let (next, r2) = advance_expected r in drain E next r2)"
proof -
  let ?r2 = "with_inbound (expected (stream r) + 1) (incoming (stream r)) r"
  have "acted j E k0 M ds got ?r2" "reader_parked ?r2 = None"
    by (rule acted_advance [OF assms(1,2)])+
  from drain_acted [OF this refl _ assms(4)] assms(3) show ?thesis by (simp add: advance_update)
qed

lemma bind_stands:
  assumes "acted j E k0 M ds got (snd c)" and "fst c \<noteq> Done (Ok ()) \<Longrightarrow> stands k0 ds c"
    and "fst c = Done (Ok ()) \<Longrightarrow> \<exists>ds'. acted j E k0 M ds' got (snd (g (snd c))) \<and> stands k0 ds' (g (snd c))"
  shows "\<exists>ds'. acted j E k0 M ds' got (snd (bind_io c (\<lambda>_. g))) \<and> stands k0 ds' (bind_io c (\<lambda>_. g))"
proof (cases c)
  case (Pair x s)
  show ?thesis
  proof (cases x)
    case (Done y)
    with Pair assms show ?thesis by (cases y) auto
  qed (use Pair assms in auto)
qed

lemma route_stream_acted:
  assumes "acted j E k0 M ds got r" and "reader_parked r = None" and "expected (stream r) = expected k0 + of_nat (length ds)"
    and "m \<in> M" and "no_panic E" and "inc_held (incoming (stream r)) (expected (stream r)) = None"
  shows "\<exists>ds'. acted j E k0 M ds' got (snd (route_stream_data E m r)) \<and> stands k0 ds' (route_stream_data E m r)"
proof -
  have ack: "acted j E k0 M ds got (send_ack E m q s)" "reader_parked (send_ack E m q s) = reader_parked s"
    if "acted j E k0 M ds got s" for q and s :: reader_state
    using that shared.keeps_send_ack [of s E m q]
    by (simp_all add: acted_def) (simp add: send_ack_def try_write_def split_beta split: result.split)
  consider (less) "sint (sequence_number m) < sint (expected (stream r))"
    | (greater) "sint (expected (stream r)) < sint (sequence_number m)"
    | (equal) "sequence_number m = expected (stream r)" by (metis linorder_neqE signed_word_eqI)
  then show ?thesis
  proof cases
    case less
    then show ?thesis using assms(1-3,6) by (intro exI [of _ ds]) (simp add: route_stream_data_def stands_def)
  next
    case greater
    obtain ok b where ins: "inc_insert m (incoming (stream r)) = (ok, b)" by (cases "inc_insert m (incoming (stream r))")
    have inv: "inc_inv (incoming (stream r))" using assms(1) by (simp add: acted_def chan_inv_inc)
    have b: "inc_inv b" "ok \<Longrightarrow> inc_held b = (inc_held (incoming (stream r)))(sequence_number m \<mapsto> m)"
      using ib.insert_invar [OF inv, of m] ib.insert_accept [OF inv, of m] ins by simp_all
    show ?thesis
    proof (cases ok)
      case True
      let ?r1 = "r\<lparr>stream := (stream r)\<lparr>incoming := b\<rparr>\<rparr>"
      have "\<forall>k x. inc_held b k = Some x \<longrightarrow> x \<in> M" using b(2) True assms(1,4) by (auto simp: acted_def)
      then have "acted j E k0 M ds got ?r1"
        using acted_inbound [OF assms(1) b(1), of "expected (stream r)"] by (simp add: incoming_update)
      then show ?thesis
        using greater ins True ack [of ?r1] assms(2,3,6) b(2)
        by (intro exI [of _ ds]) (auto simp: route_stream_data_def stands_def)
    qed (use greater ins assms(1-3,6) in \<open>auto intro!: exI [of _ ds] simp: route_stream_data_def stands_def\<close>)
  next
    case equal
    let ?r1 = "send_ack E m True r"
    have r1: "acted j E k0 M ds got ?r1" "reader_parked ?r1 = None" "expected (stream ?r1) = expected k0 + of_nat (length ds)"
        "sequence_number m = expected (stream ?r1)"
      using ack [OF assms(1)] assms(2,3) equal by simp_all
    obtain ds1 where D: "acted j E k0 M ds1 got (snd (deliver E m ?r1))"
        "fst (deliver E m ?r1) \<noteq> Done (Ok ()) \<longrightarrow> stands k0 ds1 (deliver E m ?r1)"
        "fst (deliver E m ?r1) = Done (Ok ()) \<longrightarrow> reader_parked (snd (deliver E m ?r1)) = None
          \<and> expected (stream (snd (deliver E m ?r1))) + 1 = expected k0 + of_nat (length ds1)"
      using deliver_acted [OF r1(1-3) assms(4) r1(4) assms(5)] by blast
    have "\<exists>ds'. acted j E k0 M ds' got (snd (bind_io (deliver E m ?r1) (\<lambda>_ r1.
          let (next, r2) = advance_expected r1 in drain E next r2)))
        \<and> stands k0 ds' (bind_io (deliver E m ?r1) (\<lambda>_ r1. let (next, r2) = advance_expected r1 in drain E next r2))"
      using D advance_drain_acted [OF D(1)] assms(5) by (intro bind_stands [OF D(1)]) auto
    then show ?thesis using equal by (simp add: route_stream_data_def)
  qed
qed

section \<open>The reader\<close>

text \<open>Between its steps the reader is past the log, or parked at its last message, or the session is closed.\<close>

definition at_log :: "continuity \<Rightarrow> (session_crypto option \<times> client_message) list \<Rightarrow> reader_state \<Rightarrow> bool" where
  "at_log k0 ds r =
    (if reader_parked r \<noteq> None then expected (stream r) + 1 = expected k0 + of_nat (length ds)
     else closed_now r \<or> expected (stream r) = expected k0 + of_nat (length ds)
       \<and> inc_held (incoming (stream r)) (expected (stream r)) = None)"

lemma after_route_acted:
  assumes "acted j E k0 M ds got (snd p)" and "stands k0 ds p"
  shows "acted j E k0 M ds got (snd (after_route p)) \<and> at_log k0 ds (snd (after_route p))"
proof (cases p)
  case (Pair x r)
  have cl: "reader_parked (close_core q r) = reader_parked r" for q by (simp add: close_core_def)
  show ?thesis
    using assms Pair acted_close [OF assms(1)] cl
    by (cases x; cases "case x of Done y \<Rightarrow> y | _ \<Rightarrow> Panic")
      (auto simp: after_route_def stands_def at_log_def)
qed

lemma route_acted:
  assumes "acted j E k0 M ds got r" and "reader_parked r = None" and "expected (stream r) = expected k0 + of_nat (length ds)"
    and "message_type m = OutputStreamData \<Longrightarrow> m \<in> M" and "no_panic E"
    and "inc_held (incoming (stream r)) (expected (stream r)) = None"
  shows "\<exists>ds'. acted j E k0 M ds' got (snd (route E m r)) \<and> stands k0 ds' (route E m r)"
proof (cases "message_type m = OutputStreamData")
  case True
  then show ?thesis using route_stream_acted [OF assms(1-3) _ assms(5,6)] assms(4) by (simp add: route_def)
next
  case False
  have kept: "acted j E k0 M ds got (snd (route E m r))"
  proof (rule acted_kept [OF assms(1)])
    show "chan_inv (snd (route E m r))" using assms(1) by (auto simp: acted_def intro: shared.keeps_route)
    show "quiet (fanout (core r)) (fanout (core (snd (route E m r))))"
      "incoming (stream (snd (route E m r))) = incoming (stream r)"
      "same_key (stream r) (stream (snd (route E m r)))"
      using False
      by (cases "message_type m"; cases "parse_ack E m";
          simp add: route_def split_beta close_core_def set_sendable_def same_key_def)+
  qed
  moreover have "stands k0 ds (route E m r)"
    using False assms(2,3,6) route_calm [OF assms(5), of m r]
    by (cases "message_type m"; cases "parse_ack E m")
      (simp_all add: route_def split_beta close_core_def stands_def)
  ultimately show ?thesis by blast
qed

text \<open>The stream data that a step of the reader takes off the socket: nothing while it is parked or after the end.\<close>

definition arrivals :: "'e conn_ext_scheme \<Rightarrow> ws_event \<Rightarrow> reader_state \<Rightarrow> client_message list" where
  "arrivals E ev r =
    (if reader_parked r \<noteq> None \<or> closed_now r then []
     else case ev of
       Frame (Binary data) \<Rightarrow>
         (case deserialize (sha256 E) data of
            Ok m \<Rightarrow> if message_type m = OutputStreamData then [m] else []
          | _ \<Rightarrow> [])
     | _ \<Rightarrow> [])"

lemma acted_more_messages: "acted j E k0 M ds got s \<Longrightarrow> M \<subseteq> M' \<Longrightarrow> acted j E k0 M' ds got s"
  by (auto simp: acted_def)

lemma reader_step_acted:
  assumes "acted j E k0 M ds got r" and "at_log k0 ds r" and "no_panic E"
  shows "\<exists>ds'. acted j E k0 (M \<union> set (arrivals E ev r)) ds' got (snd (reader_step E ev r))
    \<and> at_log k0 ds' (snd (reader_step E ev r))"
proof (cases "reader_parked r \<noteq> None \<or> closed_now r")
  case True
  then show ?thesis using assms by (auto simp: reader_step_def arrivals_def)
next
  case False
  then have open0: "reader_parked r = None" "\<not> closed_now r" by blast+
  with assms(2) have live: "reader_parked r = None" "\<not> closed_now r"
      "expected (stream r) = expected k0 + of_nat (length ds)" "inc_held (incoming (stream r)) (expected (stream r)) = None"
    unfolding at_log_def by (simp, simp, metis, metis)
  let ?M = "M \<union> set (arrivals E ev r)" and ?r = "mark_inbound r"
  have r0: "acted j E k0 ?M ds got ?r" "reader_parked ?r = None" "expected (stream ?r) = expected k0 + of_nat (length ds)"
      "inc_held (incoming (stream ?r)) (expected (stream ?r)) = None"
    using acted_kept [OF acted_more_messages [OF assms(1), of ?M], of ?r] live assms(1)
    by (simp_all add: mark_inbound_def acted_def)
  have flag: "acted j E k0 ?M ds got (?r\<lparr>core := set_sendable b (core ?r)\<rparr>)" for b
    using r0(1) chan_inv_core_op [of ?r "SetSendable b"]
    by (intro acted_kept [OF r0(1)]) (simp_all add: acted_def set_sendable_def)
  then have told: "acted j E k0 ?M ds got (snd (handle_text t ?r)) \<and> reader_parked (snd (handle_text t ?r)) = None
      \<and> at_log k0 ds (snd (handle_text t ?r))" for t
    using r0 by (auto simp: handle_text_def Let_def at_log_def)
  have close: "acted j E k0 ?M ds got (close_core q s) \<and> at_log k0 ds (close_core q s)"
    if "acted j E k0 ?M ds got s" "reader_parked s = None" for q s
    using acted_close [OF that(1)] that(2) by (simp add: at_log_def) (simp add: close_core_def)
  show ?thesis
  proof (cases "\<exists>data m. ev = Frame (Binary data) \<and> deserialize (sha256 E) data = Ok m")
    case True
    then obtain data m where ev: "ev = Frame (Binary data)" "deserialize (sha256 E) data = Ok m" by blast
    have "message_type m = OutputStreamData \<Longrightarrow> m \<in> ?M" using ev live by (simp add: arrivals_def)
    from route_acted [OF r0(1-3) this assms(3) r0(4)] after_route_acted show ?thesis
      using ev live by (simp add: reader_step_def) blast
  next
    case False
    then have other: "case ev of Frame (Binary data) \<Rightarrow> \<exists>e. deserialize (sha256 E) data = Err e | _ \<Rightarrow> True"
      using deserialize_total by (auto split: ws_event.split ws_message.split) (metis result.exhaust)
    have "acted j E k0 ?M ds got (snd (reader_step E (Frame (Text t)) r))
        \<and> at_log k0 ds (snd (reader_step E (Frame (Text t)) r))" for t
      using told [of t] close [of "snd (handle_text t ?r)"] live
      by (cases "handle_text t ?r") (auto simp: reader_step_def split: option.split)
    moreover have "at_log k0 ds ?r" using r0(2-4) by (simp add: at_log_def)
    then have "acted j E k0 ?M ds got (snd (reader_step E ev r)) \<and> at_log k0 ds (snd (reader_step E ev r))"
      if "\<forall>t. ev \<noteq> Frame (Text t)"
      using that live(1,2) r0(1) close [OF r0(1,2)] other
      by (cases ev) (auto simp: reader_step_def Let_def split: ws_message.splits)
    ultimately show ?thesis by blast
  qed
qed

text \<open>A reply that had to wait is taken up again.\<close>

lemma retry_quiet:
  assumes "reader_parked r = None"
  shows "calls_quiet (fanout (core r)) (retry_reply E held pt pl a r)"
proof (cases held)
  case None
  then show ?thesis using reply_quiet [OF quiet_refl assms] by (simp add: retry_reply_def)
next
  case (Some f)
  obtain x r1 where x: "track_and_write f r = (x, r1)" by (cases "track_and_write f r")
  then have r1: "quiet (fanout (core r)) (fanout (core r1))" "reader_parked r1 = None"
    using track_and_write_quiet [of r f] send_parked(1) [of f r] assms by auto
  show ?thesis
  proof (cases x)
    case (Done y)
    have "calls_quiet (fanout (core r)) (bind_io (Done y, r1\<lparr>sequence_locked := False\<rparr>) (\<lambda>_. go_on_after a))"
      by (rule bind_quiet) (simp_all add: r1 go_on_quiet)
    then show ?thesis using Done x Some by (simp add: retry_reply_def)
  qed (use x r1 Some in \<open>simp add: retry_reply_def calls_quiet_def park_reader_def\<close>)
qed

text \<open>What a reply leaves of the stream: all but the outgoing half, and a key that is in place.\<close>

definition reply_kept :: "continuity \<Rightarrow> reader_state \<Rightarrow> bool" where
  "reply_kept k s \<longleftrightarrow> same_inbound k s \<and> (\<forall>c. stream_crypto k = Some c \<longrightarrow> has_key c s)"

lemma reply_kept_sent:
  "reply_kept k s \<Longrightarrow> send_payload E pt pl s = (x, s') \<Longrightarrow>
    reply_kept k (case x of Waits held \<Rightarrow> park_reader held pt pl a s' | Done _ \<Rightarrow> s')"
  using same_inbound_sent has_key_sent unfolding reply_kept_def by blast

interpretation replies: delivery_invariant "reply_kept k" E
  by unfold_locales
    (simp_all add: reply_kept_sent, simp_all add: reply_kept_def same_inbound_def has_key_def set_crypto_def)

lemma retry_kept: "reply_kept (stream r) (snd (retry_reply E held pt pl a (r\<lparr>reader_parked := None\<rparr>)))"
proof -
  let ?r = "r\<lparr>reader_parked := None\<rparr>"
  have r: "reply_kept (stream r) ?r" by (simp add: reply_kept_def same_inbound_def has_key_def)
  show ?thesis
  proof (cases held)
    case None
    then show ?thesis using replies.keeps_reply [OF r] by (simp add: retry_reply_def)
  next
    case (Some f)
    obtain x r1 where x: "track_and_write f ?r = (x, r1)" by (cases "track_and_write f ?r")
    then have "reply_kept (stream r) r1"
      using track_and_write_stream [of f ?r] by (auto simp: reply_kept_def same_inbound_def has_key_def)
    then have "reply_kept (stream r) (r1\<lparr>sequence_locked := False\<rparr>)" "reply_kept (stream r) (park_reader w pt pl a r1)" for w
      by (simp_all add: reply_kept_def same_inbound_def has_key_def park_reader_def)
    then show ?thesis using x Some
      by (auto simp: retry_reply_def intro!: bind_io_keeps [where P = "reply_kept (stream r)"] replies.keeps_go_on
          split: io.split)
  qed
qed

lemma resume_acted:
  assumes "acted j E k0 M ds got r" and "at_log k0 ds r" and "no_panic E"
  shows "\<exists>ds'. acted j E k0 M ds' got (snd (reader_resume E r)) \<and> at_log k0 ds' (snd (reader_resume E r))"
proof (cases "reader_parked r")
  case None
  then show ?thesis using assms by (auto simp: reader_resume_def)
next
  case (Some w)
  then obtain held pt pl a where w: "reader_parked r = Some (held, pt, pl, a)" by (cases w) auto
  let ?r = "r\<lparr>reader_parked := None\<rparr>" and ?p = "retry_reply E held pt pl a (r\<lparr>reader_parked := None\<rparr>)"
  have q: "quiet (fanout (core r)) (fanout (core (snd ?p)))" "(\<exists>w. fst ?p = Waits w) \<longleftrightarrow> reader_parked (snd ?p) \<noteq> None"
    using retry_quiet [of ?r E held pt pl a] by (simp_all add: calls_quiet_def)
  have inv: "chan_inv (snd ?p)" using shared.keeps_retry [OF _ w] assms(1) by (auto simp: acted_def)
  have kept: "incoming (stream (snd ?p)) = incoming (stream r)" "expected (stream (snd ?p)) = expected (stream r)"
      "same_key (stream r) (stream (snd ?p))"
    using retry_kept [of r E held pt pl a]
    by (cases "stream_crypto (stream r)"; simp add: reply_kept_def same_inbound_def has_key_def same_key_def)+
  have A: "acted j E k0 M ds got (snd ?p)" by (rule acted_kept [OF assms(1) inv q(1) kept(1,3)])
  have at: "expected (stream (snd ?p)) + 1 = expected k0 + of_nat (length ds)" using assms(2) w kept(2) by (simp add: at_log_def)
  have np: "fst ?p \<noteq> Done Panic" using retry_reply_calm [of E held pt pl a ?r] by (simp add: calm_def)
  have "\<exists>ds'. acted j E k0 M ds' got (snd (bind_io ?p (\<lambda>_ r1. let (next, r2) = advance_expected r1 in drain E next r2)))
      \<and> stands k0 ds' (bind_io ?p (\<lambda>_ r1. let (next, r2) = advance_expected r1 in drain E next r2))"
  proof (rule bind_stands [OF A])
    show "stands k0 ds ?p" if "fst ?p \<noteq> Done (Ok ())"
      using that q(2) at np by (auto simp: stands_def split: io.split result.split)
    show "\<exists>ds'. acted j E k0 M ds' got (snd (let (next, r2) = advance_expected (snd ?p) in drain E next r2))
        \<and> stands k0 ds' (let (next, r2) = advance_expected (snd ?p) in drain E next r2)" if "fst ?p = Done (Ok ())"
      using advance_drain_acted [OF A _ at assms(3)] that q(2) by (metis io.distinct(1))
  qed
  then obtain ds' where "acted j E k0 M ds' got (snd (bind_io ?p (\<lambda>_ r1.
        let (next, r2) = advance_expected r1 in drain E next r2)))"
      "stands k0 ds' (bind_io ?p (\<lambda>_ r1. let (next, r2) = advance_expected r1 in drain E next r2))" by blast
  from after_route_acted [OF this] w show ?thesis by (auto simp: reader_resume_def)
qed

section \<open>Everyone else\<close>

text \<open>A step that leaves the inbound half and the reader alone and sends no output.\<close>

definition apart :: "reader_state \<Rightarrow> reader_state \<Rightarrow> bool" where
  "apart r r' \<longleftrightarrow> quiet (fanout (core r)) (fanout (core r')) \<and> incoming (stream r') = incoming (stream r)
     \<and> expected (stream r') = expected (stream r) \<and> stream_crypto (stream r') = stream_crypto (stream r)
     \<and> channel_state.more r' = channel_state.more r"

lemma apart_refl [simp]: "apart r r"
  by (simp add: apart_def)

lemma apart_trans: "apart r r1 \<Longrightarrow> apart r1 r2 \<Longrightarrow> apart r r2"
  unfolding apart_def using quiet_trans by metis

lemma apart_close: "apart r (close_core q r)"
  by (simp add: apart_def close_core_def)

lemma apart_send: "apart r (snd (send_payload E pt pl r))"
  by (simp add: apart_def send_payload_quiet)

lemma apart_track: "apart r (snd (track_and_write f r))"
  using track_and_write_stream [of f r] by (auto simp: apart_def track_and_write_quiet)

lemma apart_write: "apart r (snd (write_frame m r))"
  by (simp add: apart_def write_frame_quiet)

lemma apart_after_send: "apart r (snd (after_send x left r))"
  by (auto simp: after_send_def Let_def apart_def close_core_def split: io.split result.split option.split)

lemma apart_send_stream: "apart r (snd (snd (send_stream_data E data r)))"
proof (induction E data r rule: send_stream_data.induct)
  case (1 E data s)
  show ?case
  proof (cases "data = [] \<or> chunk_size s = 0")
    case True
    then show ?thesis by (simp add: send_stream_data.simps [of E data s])
  next
    case False
    then have ne: "data \<noteq> []" "0 < chunk_size s" by auto
    obtain x s1 where sp: "send_payload E Output (take (chunk_size s) data) s = (x, s1)"
      by (cases "send_payload E Output (take (chunk_size s) data) s")
    have s1: "apart s s1" using apart_send [of s E Output "take (chunk_size s) data"] sp by simp
    show ?thesis
      using send_stream_data_step [OF ne sp] 1(1) [OF False sp [symmetric] _ refl] s1 apart_trans [OF s1] by simp
  qed
qed

lemma apart_command: "apart r (snd (command_step E r))"
proof -
  have run: "apart r (snd (let (x, left, s1) = send_stream_data E bs s in after_send x left s1))"
    if "apart r s" for bs s
    using apart_trans [OF that apart_trans [OF apart_send_stream apart_after_send]] by (simp add: split_beta)
  have ctl: "apart r (snd (let (x, s1) = send_payload E pt bs r in after_send x [] s1))" for pt bs
    using apart_trans [OF apart_send apart_after_send] by (simp add: split_beta)
  show ?thesis
  proof (cases "sending r")
    case None
    with run [of r] ctl show ?thesis
      by (auto simp: command_step_def apart_def split: option.split prod.split recv_outcome.split command.split)
  next
    case (Some w)
    obtain f left where w: "w = (f, left)" by (cases w)
    obtain x s1 where x: "track_and_write f r = (x, s1)" by (cases "track_and_write f r")
    have s1: "apart r s1" using apart_track [of r f] x by simp
    then have "apart r (s1\<lparr>sending := None, sequence_locked := False\<rparr>)" by (simp add: apart_def)
    with run apart_trans [OF s1 apart_after_send] show ?thesis
      by (auto simp: command_step_def Some w x split: io.split result.split)
  qed
qed

lemma apart_retransmit: "apart r (snd (retransmit_step r))"
proof -
  let ?s1 = "r\<lparr>stream := (stream r)\<lparr>outgoing := snd (poll_retransmit (clock r) (outgoing (stream r)))\<rparr>\<rparr>"
  have s1: "apart r ?s1" by (simp add: apart_def)
  have "apart r (close_core q ?s1)" "apart r (snd (write_frame m ?s1))" for q m
    by (rule apart_trans [OF s1 apart_close], rule apart_trans [OF s1 apart_write])
  with s1 show ?thesis
    by (cases "poll_retransmit (clock r) (outgoing (stream r))")
      (auto simp: retransmit_step_def split_beta split: retransmit_action.split prod.split result.split
        dest: meta_spec [of _ "Binary _"])
qed

lemma apart_fields [simp]:
  "apart r (r\<lparr>commands := cs\<rparr>)" "apart r (r\<lparr>clock := t\<rparr>)" "apart r (r\<lparr>sink_broken := b\<rparr>)" "apart r (r\<lparr>writer := w\<rparr>)"
  by (simp_all add: apart_def)

lemma apart_writer: "apart r (snd (writer_step r))"
  by (simp add: apart_def writer_step_quiet)

lemma apart_heartbeat: "apart r (snd (heartbeat_step i r))"
  by (simp add: heartbeat_step_def try_write_def split_beta apart_close)

section \<open>A run with its logs\<close>

text \<open>The steps other than a frame that is read and a chunk that is consumed.\<close>

inductive background :: "'e conn_ext_scheme \<Rightarrow> duration \<Rightarrow> reader_state \<Rightarrow> reader_state \<Rightarrow> bool"
  for E idle_timeout where
  resume: "background E idle_timeout r (snd (reader_resume E r))"
| writer: "background E idle_timeout r (snd (writer_step r))"
| command: "background E idle_timeout r (snd (command_step E r))"
| retransmit: "background E idle_timeout r (snd (retransmit_step r))"
| heartbeat: "background E idle_timeout r (snd (heartbeat_step idle_timeout r))"
| dispatch: "background E idle_timeout r (r\<lparr>commands := snd (try_send c (commands r))\<rparr>)"
| terminate: "background E idle_timeout r (close_core Terminated r)"
| subscriber: "background E idle_timeout r (r\<lparr>core := core_step SubscribeCore (core r)\<rparr>)"
| unsubscribe: "background E idle_timeout r (r\<lparr>core := core_step (DropReader i) (core r)\<rparr>)"
| time: "clock r \<le> t \<Longrightarrow> background E idle_timeout r (r\<lparr>clock := t\<rparr>)"
| socket_fails: "background E idle_timeout r (r\<lparr>sink_broken := True\<rparr>)"

text \<open>What consumer \<open>j\<close> gets if consumer \<open>k\<close> reads.\<close>

definition consumed :: "nat \<Rightarrow> nat \<Rightarrow> reader_state \<Rightarrow> bytes list" where
  "consumed j k r = (case fst (stream_recv k (fanout (core r))) of Got d \<Rightarrow> if k = j then [d] else [] | _ \<Rightarrow> [])"

text \<open>
  A run of the channel, watched with two logs: the stream data that arrived, and the chunks that consumer \<open>j\<close> has read.
\<close>

inductive inflow ::
    "'e conn_ext_scheme \<Rightarrow> duration \<Rightarrow> nat \<Rightarrow> reader_state \<Rightarrow> client_message list \<Rightarrow> bytes list \<Rightarrow> reader_state \<Rightarrow> bool"
  for E idle_timeout j r0 where
  start: "inflow E idle_timeout j r0 [] [] r0"
| frame: "inflow E idle_timeout j r0 ms got r \<Longrightarrow>
    inflow E idle_timeout j r0 (ms @ arrivals E ev r) got (snd (reader_step E ev r))"
| consume: "inflow E idle_timeout j r0 ms got r \<Longrightarrow>
    inflow E idle_timeout j r0 ms (got @ consumed j k r) (r\<lparr>core := core_step (ReadStream k) (core r)\<rparr>)"
| others: "inflow E idle_timeout j r0 ms got r \<Longrightarrow> background E idle_timeout r r' \<Longrightarrow>
    inflow E idle_timeout j r0 ms got r'"

lemma background_is_step: "background E i r r' \<Longrightarrow> channel_step E i r r'"
  by (induction rule: background.induct) (rule channel_step.intros; assumption?)+

text \<open>These are the runs of the channel, and nothing but them.\<close>

lemma inflow_reach: "inflow E i j r0 ms got r \<Longrightarrow> channel_reach E i r0 r"
  by (induction rule: inflow.induct)
    (auto intro: channel_reach.intros channel_step.reader channel_step.consumer background_is_step simp del: core_step.simps)

lemma reach_inflow: "channel_reach E i r0 r \<Longrightarrow> \<exists>ms got. inflow E i j r0 ms got r"
proof (induction rule: channel_reach.induct)
  case (step r r')
  then obtain ms got where f: "inflow E i j r0 ms got r" by blast
  from step(2) show ?case
    by cases (blast intro: inflow.frame [OF f] inflow.consume [OF f] inflow.others [OF f] background.intros)+
qed (blast intro: inflow.start)

lemma acted_core_op:
  assumes "acted j E k0 M ds got r" and "handed j E ds got' (fanout (core_step op (core r)))"
  shows "acted j E k0 M ds got' (r\<lparr>core := core_step op (core r)\<rparr>)"
  using assms chan_inv_core_op [of r op] by (simp add: acted_def del: core_step.simps)

lemma handed_seen:
  assumes "handed j E ds got f" and "\<And>sent. seen_by j sent got f \<Longrightarrow> seen_by j sent got' f'"
    and "fan_closed f' = fan_closed f"
  shows "handed j E ds got' f'"
  using assms unfolding handed_def by metis

lemma handed_recv:
  assumes "handed j E ds got (fanout (core r))"
  shows "handed j E ds (got @ consumed j k r) (snd (stream_recv k (fanout (core r))))"
proof (rule handed_seen [OF assms])
  show "seen_by j sent (got @ consumed j k r) (snd (stream_recv k (fanout (core r))))"
    if "seen_by j sent got (fanout (core r))" for sent
    using seen_by_recv [OF that, of k] unfolding consumed_def .
qed simp

lemma background_acted:
  assumes "background E i r r'" and "acted j E k0 M ds got r" and "at_log k0 ds r" and "no_panic E"
  shows "\<exists>ds'. acted j E k0 M ds' got r' \<and> at_log k0 ds' r'"
proof -
  have st: "channel_step E i r r'" by (rule background_is_step [OF assms(1)])
  have keep: "\<exists>ds'. acted j E k0 M ds' got r' \<and> at_log k0 ds' r'" if "apart r r'"
  proof (intro exI conjI)
    have inv: "chan_inv r'" using chan_inv_step [OF st] assms(2) by (simp add: acted_def)
    show "acted j E k0 M ds got r'"
      using that by (intro acted_kept [OF assms(2) inv]) (simp_all add: apart_def same_key_def)
    have "reader_parked r' = reader_parked r" using that by (intro parked_more) (simp add: apart_def)
    then show "at_log k0 ds r'" using assms(3) that closed_stays_closed [OF st] by (auto simp: at_log_def apart_def)
  qed
  have core: "\<exists>ds'. acted j E k0 M ds' got r' \<and> at_log k0 ds' r'"
    if "r' = r\<lparr>core := core_step op (core r)\<rparr>" "handed j E ds got (fanout (core_step op (core r)))" for op
    using acted_core_op [OF assms(2) that(2)] assms(3) closed_stays_closed [OF st] that(1)
    by (intro exI [of _ ds]) (auto simp: at_log_def simp del: core_step.simps)
  have h: "handed j E ds got (fanout (core r))" using assms(2) by (simp add: acted_def)
  from assms(1) show ?thesis
  proof cases
    case resume
    then show ?thesis using resume_acted [OF assms(2-4)] by simp
  next
    case subscriber
    then show ?thesis
      using seen_by_other(1)
      by (intro core [OF subscriber] handed_seen [OF h]) (simp_all add: core_subscribe_def split_beta)
  next
    case (unsubscribe k)
    then show ?thesis
      using seen_by_other(2) by (intro core [OF unsubscribe] handed_seen [OF h]) simp_all
  qed (rule keep; simp add: apart_writer apart_command apart_retransmit apart_heartbeat apart_close)+
qed

lemma inflow_acted:
  assumes "inflow E i j r0 ms got r" and "acted j E k0 M [] [] r0" and "at_log k0 [] r0" and "no_panic E"
  shows "\<exists>ds. acted j E k0 (M \<union> set ms) ds got r \<and> at_log k0 ds r"
  using assms
proof (induction rule: inflow.induct)
  case start
  then show ?case by auto
next
  case (frame ms got r ev)
  then obtain ds where "acted j E k0 (M \<union> set ms) ds got r" "at_log k0 ds r" by blast
  from reader_step_acted [OF this frame.prems(3), of ev] show ?case by (simp add: Un_assoc)
next
  case (consume ms got r k)
  then obtain ds where ds: "acted j E k0 (M \<union> set ms) ds got r" "at_log k0 ds r" by blast
  have "handed j E ds (got @ consumed j k r) (fanout (core_step (ReadStream k) (core r)))"
    using handed_recv [of j E ds got r k] ds(1) by (simp add: acted_def)
  from acted_core_op [OF ds(1) this] have "acted j E k0 (M \<union> set ms) ds (got @ consumed j k r)
      (r\<lparr>core := core_step (ReadStream k) (core r)\<rparr>)" .
  moreover have "at_log k0 ds (r\<lparr>core := core_step (ReadStream k) (core r)\<rparr>)" using ds(2) by (simp add: at_log_def)
  ultimately show ?case by blast
next
  case (others ms got r r')
  then show ?case using background_acted by blast
qed

section \<open>Properties\<close>

lemma handed_subscribed:
  assumes "core_subscribe c = (j, c')" and "\<not> fan_closed (fanout c')"
  shows "handed j E [] [] (fanout c')"
  using assms
  by (auto simp: handed_def seen_by_def stream_ok_def core_subscribe_def subscribe_def Let_def split: if_splits)

text \<open>
  (C1) What the agent sends reaches a consumer. A consumer subscribes on an open session; then the reader, which may have
  to stop in the middle of a message to wait for room, the other tasks, the callers and the consumers take steps in any
  order, and frames of any kind arrive, duplicated and out of order. At every moment, what the consumer
  has read plus what waits in its queue is a beginning of the output in the messages with consecutive numbers
  from the one the session expected, each of which arrived or was held from before. It is all of that output as long as the
  session is open and the consumer was neither evicted nor dropped. Output is decrypted with the key in place when its
  message was acted on: first the one from the start, then the present one. While the session is open
  and no reply waits, the log reaches the expected number and that message has not arrived.
\<close>

theorem consumer_gets_agents_output:
  assumes "inflow E i j r0 ms got r" and "chan_inv r0" and "no_panic E" and "core_subscribe c = (j, core r0)"
    and "\<not> closed_now r0" and "reader_parked r0 = None"
    and "inc_held (incoming (stream r0)) (expected (stream r0)) = None"
  shows "\<exists>ds n. (\<forall>l < length ds. sequence_number (snd (ds ! l)) = expected (stream r0) + of_nat l)
    \<and> map fst ds = replicate n (stream_crypto (stream r0)) @ replicate (length ds - n) (stream_crypto (stream r))
    \<and> (\<forall>m \<in> snd ` set ds. m \<in> set ms \<or> inc_held (incoming (stream r0)) (sequence_number m) = Some m)
    \<and> prefix (got @ queued (sub_chan (store (fanout (core r)) ! j))) (chunks E ds)
    \<and> (\<not> closed_now r \<and> \<not> stream_lagged j (fanout (core r)) \<and> \<not> rx_gone (sub_chan (store (fanout (core r)) ! j)) \<longrightarrow>
         got @ queued (sub_chan (store (fanout (core r)) ! j)) = chunks E ds)
    \<and> (\<not> closed_now r \<and> reader_parked r = None \<longrightarrow> expected (stream r) = expected (stream r0) + of_nat (length ds)
         \<and> inc_held (incoming (stream r)) (expected (stream r)) = None)"
proof -
  let ?M = "{m. inc_held (incoming (stream r0)) (sequence_number m) = Some m}"
  have "\<not> fan_closed (fanout (core r0))" using assms(2,5) by (simp add: chan_inv_def core_inv_def)
  then have "acted j E (stream r0) ?M [] [] r0"
    using assms(2) handed_subscribed [OF assms(4)] ib.held_seq [OF chan_inv_inc [OF assms(2)]] by (auto simp: acted_def)
  moreover have "at_log (stream r0) [] r0" using assms(6,7) by (simp add: at_log_def)
  ultimately obtain ds where ds: "acted j E (stream r0) (?M \<union> set ms) ds got r" "at_log (stream r0) ds r"
    using inflow_acted [OF assms(1) _ _ assms(3)] by blast
  obtain sent where sent: "seen_by j sent got (fanout (core r))" "prefix sent (chunks E ds)"
      "\<not> fan_closed (fanout (core r)) \<longrightarrow> sent = chunks E ds" using ds(1) by (auto simp: acted_def handed_def)
  have cl: "fan_closed (fanout (core r)) \<longleftrightarrow> closed_now r" using ds(1) by (simp add: acted_def chan_inv_def core_inv_def)
  let ?seen = "got @ queued (sub_chan (store (fanout (core r)) ! j))"
  have "prefix ?seen sent" using sent(1) by (auto simp: seen_by_def stream_ok_def Let_def split: if_splits)
  then have pre: "prefix ?seen (chunks E ds)" using sent(2) by (rule prefix_order.trans)
  have all: "?seen = chunks E ds"
    if "\<not> closed_now r" "\<not> stream_lagged j (fanout (core r))" "\<not> rx_gone (sub_chan (store (fanout (core r)) ! j))"
    using that sent(1,3) cl by (auto simp: seen_by_def stream_ok_def stream_lagged_def Let_def split: if_splits)
  obtain n where "map fst ds = replicate n (stream_crypto (stream r0)) @ replicate (length ds - n) (stream_crypto (stream r))"
    using ds(1) by (auto simp: acted_def keyed_def)
  moreover have "\<forall>l < length ds. sequence_number (snd (ds ! l)) = expected (stream r0) + of_nat l"
    using ds(1) by (simp add: acted_def numbered_from_def)
  moreover have "\<forall>m \<in> snd ` set ds. m \<in> set ms \<or> inc_held (incoming (stream r0)) (sequence_number m) = Some m"
    using ds(1) by (auto simp: acted_def)
  ultimately show ?thesis using pre all ds(2) by (intro exI [of _ ds] exI [of _ n]) (auto simp: at_log_def)
qed

definition toy_watched :: reader_state where
  "toy_watched = toy_reader\<lparr>core := snd (core_subscribe (core toy_reader))\<rparr>"

lemma toy_watched_ok:
  "chan_inv toy_watched" "core_subscribe (core toy_reader) = (0, core toy_watched)" "\<not> closed_now toy_watched"
  "reader_parked toy_watched = None" "stream toy_watched = continuity_fresh"
proof -
  show "chan_inv toy_watched" using chan_inv_core_op [OF toy_chan_inv, of SubscribeCore] by (simp add: toy_watched_def)
qed (simp_all add: toy_watched_def toy_reader_def toy_channel_def channel_new_def core_new_def channel_state.defs
      core_subscribe_def subscribe_def fanout_new_def Let_def)

lemma toy_output_arrives:
  "deserialize (sha256 toy_conn_ext) (serialize (toy_output n p)) = Ok (toy_output n p)"
  if "0 \<le> sint n" and "length p \<le> MAX_PAYLOAD_SIZE"
proof -
  have sha: "sha256 toy_conn_ext = toy_digest"
    by (simp add: toy_conn_ext_def toy_handshake_ext_def toy_crypto_ext_def toy_wire_ext_def wire_ext.defs
        crypto_ext.defs handshake_ext.defs)
  have "wf_message (toy_output n p)"
    by (simp add: wf_message_def toy_output_def new_message_def toy_digest_def wire_constants)
  moreover have "validate toy_digest (toy_output n p) = Ok ()"
    using that(1) by (simp add: validate_def toy_output_def new_message_def)
  ultimately show ?thesis
    using deserialize_serialize_append [of "toy_output n p" toy_digest "[]"] that(2) by (simp add: sha)
qed

lemma toy_watched_step:
  "consumed 0 0 (snd (reader_step toy_conn_ext (Frame (Binary (serialize (toy_output 0 [4])))) toy_watched)) = [[4]]"
proof -
  let ?r = "mark_inbound toy_watched" and ?m = "toy_output 0 [4]"
  have stream: "stream ?r = continuity_fresh" by (simp add: mark_inbound_def toy_watched_ok(5))
  have held: "inc_held (incoming continuity_fresh) n = None" for n by simp
  have out: "\<forall>m \<in> set [?m]. is_output m" by simp
  obtain r' where run: "route_all toy_conn_ext [?m] ?r = (Done (Ok ()), r')"
    using route_all_ok [OF out, of ?r toy_conn_ext] stream held by auto
  then have rt: "route toy_conn_ext ?m ?r = (Done (Ok ()), r')" by (auto simp: bind_io_eq_Ok)
  have "inc_take 1 (incoming continuity_fresh) = (None, incoming continuity_fresh)"
    by (simp add: inc_take_def)
  then have arr: "arrive_all [?m] (expected (stream ?r), incoming (stream ?r)) = ([?m], 1, incoming continuity_fresh)"
    by (simp add: arrive_def stream released.simps)
  have "fanout (core r') = fanout_send [4] (fanout (core toy_watched))"
    using route_all_refines [OF run _ out _ arr] stream held by (simp add: output_chunk_def mark_inbound_def)
  moreover have "reader_step toy_conn_ext (Frame (Binary (serialize ?m))) toy_watched = (True, r')"
    using toy_watched_ok(3,4) rt toy_output_arrives [of 0 "[4]"]
    by (simp add: reader_step_def after_route_def MAX_PAYLOAD_SIZE_def)
  moreover have "fst (stream_recv 0 (fanout_send [4] (fanout (core toy_watched)))) = Got [4]"
    by (simp add: toy_watched_def toy_reader_def toy_channel_def channel_new_def core_new_def channel_state.defs
        core_subscribe_def subscribe_def fanout_new_def Let_def fanout_send_def deliver_to_def try_send_def
        new_channel_def stream_recv_def recv_def split_beta)
  ultimately show ?thesis by (simp add: consumed_def)
qed

theorem consumer_gets_agents_output_witness:
  "\<exists>r ds. inflow toy_conn_ext 0 0 toy_watched [toy_output 0 [4]] [[4]] r
     \<and> snd ` set ds \<subseteq> {toy_output 0 [4]} \<and> prefix [[4]] (chunks toy_conn_ext ds)"
proof -
  let ?ev = "Frame (Binary (serialize (toy_output 0 [4])))"
  let ?r1 = "snd (reader_step toy_conn_ext ?ev toy_watched)"
  let ?r = "?r1\<lparr>core := core_step (ReadStream 0) (core ?r1)\<rparr>"
  have "arrivals toy_conn_ext ?ev toy_watched = [toy_output 0 [4]]"
    using toy_watched_ok(3,4) toy_output_arrives [of 0 "[4]"]
    by (simp add: arrivals_def toy_output_def new_message_def MAX_PAYLOAD_SIZE_def)
  then have run: "inflow toy_conn_ext 0 0 toy_watched [toy_output 0 [4]] [[4]] ?r"
    using inflow.consume [OF inflow.frame [OF inflow.start], of toy_conn_ext 0 0 toy_watched ?ev 0] toy_watched_step
    by simp
  have held: "inc_held (incoming (stream toy_watched)) n = None" for n by (simp add: toy_watched_ok(5))
  obtain ds where ds: "\<forall>m \<in> snd ` set ds. m \<in> set [toy_output 0 [4]]
        \<or> inc_held (incoming (stream toy_watched)) (sequence_number m) = Some m"
      "prefix ([[4]] @ queued (sub_chan (store (fanout (core ?r)) ! 0))) (chunks toy_conn_ext ds)"
    using consumer_gets_agents_output [OF run toy_watched_ok(1) toy_no_panic toy_watched_ok(2-4) held] by blast
  from ds(2) have "prefix [[4]] (chunks toy_conn_ext ds)" by (rule append_prefixD)
  with ds(1) run held show ?thesis by (intro exI [of _ ?r] exI [of _ ds]) auto
qed

text \<open>
  A message is acknowledged before it is processed. If its reply has to wait for room and the session is closed meanwhile, the
  reader gives up: the number is still the one a resumed session expects and the message is not held, although the agent has
  its acknowledgement and will not send it again.
\<close>

theorem acknowledged_before_processed:
  assumes "route_stream_data E m r = (Waits (Some f), r1)" and "sequence_number m = expected (stream r)"
    and "reader_parked r = None" and "inc_inv (incoming (stream r))" and "inc_held (incoming (stream r)) (expected (stream r) + 1) = None"
    and "full r1"
  shows "deliver E m (send_ack E m True r) = (Waits (Some f), r1)
    \<and> (\<exists>r2. reader_resume E (close_core q r1) = (False, r2) \<and> expected (stream r2) = sequence_number m
         \<and> incoming (stream r2) = incoming (stream r))"
proof -
  let ?r = "send_ack E m True r"
  have r: "reader_parked ?r = None" "stream ?r = stream r"
    using assms(3) by (simp_all add: send_ack_def try_write_def split_beta split: result.split)
  obtain x s where dl: "deliver E m ?r = (x, s)" by (cases "deliver E m ?r")
  have same: "incoming (stream s) = incoming (stream r)" "expected (stream s) = expected (stream r)"
    using deliver_eq_inbound [OF dl [symmetric]] r(2) by simp_all
  have rt: "route_stream_data E m r = bind_io (x, s) (\<lambda>_ r1. let (next, r2) = advance_expected r1 in drain E next r2)"
    using assms(2) dl by (simp add: route_stream_data_def)
  have "x \<noteq> Done (Ok ())"
  proof
    assume "x = Done (Ok ())"
    let ?s = "with_inbound (expected (stream r) + 1) (incoming (stream r)) s"
    obtain b where "inc_take (expected (stream r) + 1) (incoming (stream r)) = (None, b)"
      using ib.take_result [OF assms(4), of "expected (stream r) + 1"] assms(5) by (metis prod.collapse)
    then have "fst (drain E (expected (stream r) + 1) ?s) = Done (Ok ())" by (subst drain.simps) simp
    moreover have "fst (drain E (expected (stream r) + 1) ?s) = Waits (Some f)"
      using arg_cong [OF rt [unfolded assms(1)], of fst] \<open>x = Done (Ok ())\<close> by (simp add: advance_update same)
    ultimately show False by simp
  qed
  then have "(x, s) = (Waits (Some f), r1)"
    using rt [unfolded assms(1)] by (cases x; cases "case x of Done y \<Rightarrow> y | _ \<Rightarrow> Panic") auto
  then have x: "x = Waits (Some f)" "s = r1" by simp_all
  have "payload_type m \<notin> {Output, StdErr, Undefined}"
    using deliver_output_parked(2) [OF r(1), of m E] dl x(1) by fastforce
  then obtain pt pl a where p: "reader_parked r1 = Some (Some f, pt, pl, a)"
    using deliver_quiet [OF r(1), of m E] dl x by (auto simp: calls_quiet_def)
  let ?c = "close_core q r1\<lparr>reader_parked := None\<rparr>"
  have "full ?c" "closed_now ?c" using assms(6) by (simp_all add: full_def) (simp add: close_core_def)
  then have "track_and_write f ?c
      = (Done (Err (SessionClosed [Txt ''session closed while waiting for acknowledgements''])), ?c)"
    by (simp add: track_full)
  moreover have "reader_parked (close_core q r1) = Some (Some f, pt, pl, a)" using p by (simp add: close_core_def)
  ultimately have "\<exists>r2. reader_resume E (close_core q r1) = (False, r2) \<and> stream r2 = stream r1"
    by (simp add: reader_resume_def retry_reply_def after_route_def) (simp add: close_core_def)
  then show ?thesis using same assms(2) dl x by auto
qed

end
