(* ===== verification/Handshake_Wire.thy ===== *)
theory Handshake_Wire
  imports Handshake
begin

text \<open>
  The handshake of \<^verbatim>\<open>src/handshake.rs\<close> as it is on the wire: what the crate reads from a request as an agent writes it, and
  what an agent finds in the answer. The agent's half is a specification, with the readers of the crate where it has them.
\<close>

section \<open>The agent's half\<close>

definition agent_action :: "requested_client_action \<Rightarrow> json" where
  "agent_action a = JObj
    [(''ActionType'', JStr (action_type_name (requested_type a))), (''ActionParameters'', action_parameters a)]"

definition agent_request :: "(string \<times> json) list \<Rightarrow> handshake_request \<Rightarrow> json" where
  "agent_request extra r = JObj
    ([(''AgentVersion'', JStr (req_agent_version r)),
      (''RequestedClientActions'', JArr (map agent_action (requested_client_actions r)))] @ extra)"

definition read_status :: "json \<Rightarrow> action_status option" where
  "read_status v = (case read_u32 v of
     Some n \<Rightarrow> (case deserialize_status n of Ok s \<Rightarrow> Some s | _ \<Rightarrow> None)
   | None \<Rightarrow> None)"

text \<open>What an agent finds about one action: the action, the status, the result, and whether there is an error.\<close>

definition agent_finding :: "json \<Rightarrow> (action_type \<times> action_status \<times> json option \<times> bool) option" where
  "agent_finding v =
    (case v of
       JObj fs \<Rightarrow>
         (case (member ''ActionType'' read_action_type None fs, member ''ActionStatus'' read_status None fs) of
            (Some t, Some s) \<Rightarrow> Some (t, s, member ''ActionResult'' Some None fs, ''Error'' \<in> fst ` set fs)
          | _ \<Rightarrow> None)
     | _ \<Rightarrow> None)"

definition agent_findings :: "json \<Rightarrow> (action_type \<times> action_status \<times> json option \<times> bool) list option" where
  "agent_findings v =
    (case v of
       JObj fs \<Rightarrow> member ''ProcessedClientActions'' (read_list agent_finding) None fs
     | _ \<Rightarrow> None)"

section \<open>Facts\<close>

lemma variant_of_type_name [simp]: "variant_of_name (action_type_name t) = Some t"
  by (cases t) (simp_all add: action_type_name_def variant_of_name_def)

lemma status_reads [simp]: "read_status (JInt (uint (serialize_status s))) = Some s"
  by (cases s) (simp_all add: read_status_def serialize_status_def deserialize_status_def read_u32.simps(1))

lemma agent_action_reads:
  "names_distinct (action_parameters a) \<Longrightarrow> read_requested_action (agent_action a) = Some a"
  by (simp add: agent_action_def read_requested_action_def action_from_parts_def read_value_distinct)

lemma agent_request_reads:
  assumes "\<forall>a \<in> set (requested_client_actions r). names_distinct (action_parameters a)"
    and "fst ` set extra \<inter> {''AgentVersion'', ''RequestedClientActions''} = {}"
  shows "read_request (agent_request extra r) = Some r"
proof -
  have "those (map read_requested_action (map agent_action (requested_client_actions r)))
      = Some (requested_client_actions r)"
    by (rule those_written) (simp add: agent_action_reads assms(1))
  then show ?thesis
    using assms(2) by (simp add: read_request_def agent_request_def request_from_parts_def)
qed

lemma agent_finding_processed:
  "agent_finding (processed_to_json E a)
     = Some (processed_type a, action_status a, action_result a, action_error a \<noteq> None)"
  by (cases "action_result a"; cases "action_error a")
    (simp_all add: agent_finding_def processed_to_json_def)

lemma agent_findings_response:
  "agent_findings (response_to_json E r) = Some (map
     (\<lambda>a. (processed_type a, action_status a, action_result a, action_error a \<noteq> None)) (processed_client_actions r))"
  by (simp add: agent_findings_def response_to_json_def those_eq_Some list_all2_conv_all_nth agent_finding_processed
      del: map_map)

text \<open>A key that is in place came with a result that carries its sealed form.\<close>

lemma handle_action_sealed:
  assumes "handle_action E n a h = (r, h')" and "crypto h' = Some c"
  shows "crypto h = Some c \<or> processed_type r = KmsEncryption \<and> action_result r = Some (print_kms_response E (cipher_text_blob c))"
  using assms
  by (auto simp: handle_action_def handle_session_type_def handle_kms_encryption_def success_def failure_def Let_def
      split: action_type.splits sum.splits option.splits result.splits if_splits)

lemma process_actions_sealed:
  assumes "process_actions E n as h = (rs, es, h')" and "crypto h' = Some c" and "crypto h \<noteq> Some c"
  shows "\<exists>r \<in> set rs. processed_type r = KmsEncryption \<and> action_result r = Some (print_kms_response E (cipher_text_blob c))"
  using assms
proof (induction as arbitrary: n h rs es)
  case (Cons a as)
  obtain r h1 where r: "handle_action E n a h = (r, h1)" by (cases "handle_action E n a h")
  obtain rs1 es1 h2 where p: "process_actions E (Suc n) as h1 = (rs1, es1, h2)" by (cases "process_actions E (Suc n) as h1")
  have rs: "rs = r # rs1" "h' = h2" using Cons.prems(1) r p by (simp_all add: Let_def)
  show ?case
  proof (cases "crypto h1 = Some c")
    case True
    then show ?thesis using handle_action_sealed [OF r True] Cons.prems(3) rs by simp
  next
    case False
    with Cons.IH [of "Suc n" h1 rs1 es1] p Cons.prems(2) rs show ?thesis by auto
  qed
qed simp

section \<open>Properties\<close>


text \<open>A library that knows two texts, the request of the example and the answer to it: no key without a client.\<close>

definition sample_answer :: handshake_response where
  "sample_answer = \<lparr>client_version = CLIENT_PROTOCOL_VERSION,
     processed_client_actions = [success SessionType None,
       failure KmsEncryption [Txt ''this session was created without a KMS client, so session encryption cannot be negotiated'']],
     resp_errors = [[Txt ''this session was created without a KMS client, so session encryption cannot be negotiated'']]\<rparr>"

definition toy_wire_env :: handshake_ext where
  "toy_wire_env = toy_handshake_ext
    \<lparr>json_parse := (\<lambda>bs. if bs = [] then Inr (agent_request [(''New'', JNull)] sample_request)
       else Inr (response_to_json toy_handshake_ext sample_answer)),
     json_print := (\<lambda>_. Inr ''{}'')\<rparr>"


end
