(* ===== verification/Float_Seconds.thy ===== *)
theory Float_Seconds
  imports Prelude
begin

text \<open>
  The doubles of Rust, as far as the bindings use them: a number of seconds that comes from Python is
  compared with bounds and turned into a \<^verbatim>\<open>Duration\<close>. A double is its 64 bits; its finite values are whole
  multiples of \<open>2\<^sup>-\<^sup>1\<^sup>0\<^sup>7\<^sup>4\<close>, so that comparisons and rounding are those of natural numbers.
\<close>

section \<open>Doubles\<close>

type_synonym f64 = "64 word"

definition f64_negative :: "f64 \<Rightarrow> bool" where
  "f64_negative w \<longleftrightarrow> 2 ^ 63 \<le> unat w"

definition f64_exponent :: "f64 \<Rightarrow> nat" where
  "f64_exponent w = unat w div 2 ^ 52 mod 2 ^ 11"

definition f64_fraction :: "f64 \<Rightarrow> nat" where
  "f64_fraction w = unat w mod 2 ^ 52"

definition f64_is_finite :: "f64 \<Rightarrow> bool" where
  "f64_is_finite w \<longleftrightarrow> f64_exponent w \<noteq> 2047"

text \<open>The magnitude of a finite double, in units of \<open>2\<^sup>-\<^sup>1\<^sup>0\<^sup>7\<^sup>4\<close>; numbers with the lowest exponent have no hidden bit.\<close>

definition F64_UNIT :: nat where "F64_UNIT = 2 ^ 1074"

definition f64_units :: "f64 \<Rightarrow> nat" where
  "f64_units w =
    (if f64_exponent w = 0 then f64_fraction w
     else (2 ^ 52 + f64_fraction w) * 2 ^ (f64_exponent w - 1))"

text \<open>\<^verbatim>\<open>w < 0.0\<close> for a finite double; the negative zero is not below zero.\<close>

definition f64_below_zero :: "f64 \<Rightarrow> bool" where
  "f64_below_zero w \<longleftrightarrow> f64_negative w \<and> f64_units w \<noteq> 0"

section \<open>Durations\<close>

text \<open>
  \<^verbatim>\<open>Duration::MAX.as_secs_f64()\<close>: around \<open>2\<^sup>6\<^sup>4\<close> doubles are 2048 apart and more, so that the number of seconds,
  one nanosecond less than \<open>2\<^sup>6\<^sup>4\<close>, becomes \<open>2\<^sup>6\<^sup>4\<close>.
\<close>

definition DURATION_MAX_UNITS :: nat where "DURATION_MAX_UNITS = 2 ^ 64 * F64_UNIT"

definition f64_above_duration_max :: "f64 \<Rightarrow> bool" where
  "f64_above_duration_max w \<longleftrightarrow> \<not> f64_negative w \<and> DURATION_MAX_UNITS < f64_units w"

definition round_half_even :: "nat \<Rightarrow> nat \<Rightarrow> nat" where
  "round_half_even n d =
    (let q = n div d; r = n mod d in if d < 2 * r \<or> (2 * r = d \<and> odd q) then q + 1 else q)"

text \<open>
  \<^verbatim>\<open>Duration::from_secs_f64\<close>: it panics if the number is not finite, is negative, or has seconds that do not
  fit a \<^verbatim>\<open>u64\<close>; else it rounds to whole nanoseconds, to the even one if two are equally near.
\<close>

definition from_secs_f64 :: "f64 \<Rightarrow> (duration, 'e) result" where
  "from_secs_f64 w =
    (if \<not> f64_is_finite w \<or> f64_below_zero w \<or> 2 ^ 64 * F64_UNIT \<le> f64_units w then Panic
     else Ok (round_half_even (f64_units w * 1000000000) F64_UNIT))"

section \<open>Lemmas\<close>

lemma round_half_even_near:
  assumes "0 < d"
  shows "2 * \<bar>int (round_half_even n d * d) - int n\<bar> \<le> int d"
proof -
  have split: "int n = int (n div d * d) + int (n mod d)" by (simp only: flip: of_nat_add) simp
  have "n mod d < d" using assms by simp
  then show ?thesis unfolding split by (auto simp: round_half_even_def Let_def algebra_simps)
qed

lemma round_half_even_le:
  assumes "0 < d" and "n + d \<le> m * d"
  shows "round_half_even n d \<le> m"
proof -
  have "n < m * d" using assms by simp
  then have "n div d < m" by (rule less_mult_imp_div_less)
  then show ?thesis by (auto simp: round_half_even_def Let_def)
qed

lemma f64_fields:
  "unat w = (if f64_negative w then 2 ^ 63 else 0) + f64_exponent w * 2 ^ 52 + f64_fraction w"
proof -
  let ?q = "unat w div 2 ^ 52"
  have "unat w < 2 ^ 64" using unsigned_less [of w] by simp
  then have q: "?q < 4096" by simp
  have n: "unat w = ?q * 2 ^ 52 + unat w mod 2 ^ 52" by simp
  show ?thesis
  proof (cases "2048 \<le> ?q")
    case True
    then have "?q mod 2048 = ?q - 2048" using q by (simp add: mod_if)
    moreover have "2 ^ 63 \<le> unat w" using True n by simp
    moreover have "unat w = 2 ^ 63 + (?q - 2048) * 2 ^ 52 + unat w mod 2 ^ 52"
      using True n by (simp only: diff_mult_distrib) simp
    ultimately show ?thesis by (simp add: f64_negative_def f64_exponent_def f64_fraction_def)
  next
    case False
    moreover have "unat w < 2 ^ 63" using False n by simp
    ultimately show ?thesis by (simp add: f64_negative_def f64_exponent_def f64_fraction_def)
  qed
qed

lemma f64_fraction_less: "f64_fraction w < 2 ^ 52"
  by (simp add: f64_fraction_def)

text \<open>Below \<open>2\<^sup>6\<^sup>4\<close> the largest double is \<open>2\<^sup>6\<^sup>4 - 2\<^sup>1\<^sup>1\<close>.\<close>

lemma f64_gap:
  assumes "f64_units w < DURATION_MAX_UNITS"
  shows "f64_units w + 2 ^ 11 * F64_UNIT \<le> DURATION_MAX_UNITS"
proof -
  have max: "DURATION_MAX_UNITS = 2 ^ 53 * 2 ^ 1085" "2 ^ 11 * F64_UNIT = 2 ^ 1085"
    by (simp_all add: DURATION_MAX_UNITS_def F64_UNIT_def)
  have frac: "2 ^ 52 + f64_fraction w + 1 \<le> 2 ^ 53" using f64_fraction_less [of w] by simp
  show ?thesis
  proof (cases "f64_exponent w = 0")
    case True
    have "f64_fraction w + 2 ^ 1085 \<le> 2 ^ 52 + (2::nat) ^ 1085"
      using f64_fraction_less [of w] by simp
    also have "\<dots> \<le> 2 ^ 53 * 2 ^ 1085" by simp
    finally show ?thesis using True unfolding max by (simp add: f64_units_def)
  next
    case False
    let ?e = "f64_exponent w - 1"
    have "?e \<le> 1085"
    proof (rule ccontr)
      assume "\<not> ?e \<le> 1085"
      then have "(2::nat) ^ 1086 \<le> 2 ^ ?e" by (intro power_increasing) auto
      then have "2 ^ 52 * 2 ^ 1086 \<le> (2 ^ 52 + f64_fraction w) * 2 ^ ?e" by (intro mult_mono) auto
      with assms False show False unfolding max by (simp add: f64_units_def)
    qed
    then have "(2::nat) ^ ?e \<le> 2 ^ 1085" by (intro power_increasing) auto
    have "(2 ^ 52 + f64_fraction w) * 2 ^ ?e + 2 ^ 1085 \<le> (2 ^ 52 + f64_fraction w) * 2 ^ 1085 + 2 ^ 1085"
      by (intro add_right_mono mult_le_mono2 \<open>(2::nat) ^ ?e \<le> 2 ^ 1085\<close>)
    also have "\<dots> = (2 ^ 52 + f64_fraction w + 1) * 2 ^ 1085" by (simp only: distrib_right mult_1)
    also have "\<dots> \<le> 2 ^ 53 * 2 ^ 1085" using frac mult_le_mono1 by blast
    finally show ?thesis using False unfolding max by (simp add: f64_units_def)
  qed
qed

lemma F64_UNIT_positive [simp]: "0 < F64_UNIT"
  by (simp add: F64_UNIT_def)

lemma duration_max_ns: "(DURATION_MAX + 1) * F64_UNIT = DURATION_MAX_UNITS * 1000000000"
  by (simp add: DURATION_MAX_def DURATION_MAX_UNITS_def)

text \<open>The bound of the comparison is the double nearest to the longest duration.\<close>

lemma duration_max_nearest:
  "\<bar>int (DURATION_MAX_UNITS * 1000000000) - int (DURATION_MAX * F64_UNIT)\<bar>
     \<le> \<bar>int (f64_units w * 1000000000) - int (DURATION_MAX * F64_UNIT)\<bar>"
proof -
  let ?u = "F64_UNIT" and ?M = "DURATION_MAX * F64_UNIT"
  have M: "?M + ?u = DURATION_MAX_UNITS * 1000000000" using duration_max_ns by (simp add: algebra_simps)
  show ?thesis
  proof (cases "f64_units w < DURATION_MAX_UNITS")
    case True
    from f64_gap [OF this] have "f64_units w * 1000000000 + 2 * ?u \<le> ?M + ?u" unfolding M by simp
    then show ?thesis unfolding M [symmetric] by linarith
  next
    case False
    then have "DURATION_MAX_UNITS * 1000000000 \<le> f64_units w * 1000000000" by simp
    then show ?thesis unfolding M [symmetric] by linarith
  qed
qed

text \<open>There is one double that is exactly \<open>2\<^sup>6\<^sup>4\<close>.\<close>

lemma f64_units_max:
  assumes "\<not> f64_negative w" and "f64_units w = DURATION_MAX_UNITS"
  shows "w = 0x43F0000000000000"
proof -
  let ?e = "f64_exponent w - 1" and ?m = "2 ^ 52 + f64_fraction w"
  have max: "DURATION_MAX_UNITS = 2 ^ 1138" by (simp add: DURATION_MAX_UNITS_def F64_UNIT_def)
  have m: "2 ^ 52 \<le> ?m" "?m < 2 ^ 53" using f64_fraction_less [of w] by auto
  have e0: "f64_exponent w \<noteq> 0"
  proof
    assume "f64_exponent w = 0"
    then have "f64_fraction w = 2 ^ 1138" using assms(2) max by (simp add: f64_units_def)
    with f64_fraction_less [of w] show False by simp
  qed
  then have prod: "?m * 2 ^ ?e = 2 ^ 1138" using assms(2) max by (simp add: f64_units_def)
  have "2 ^ (52 + ?e) \<le> ?m * 2 ^ ?e" "?m * 2 ^ ?e < 2 ^ (53 + ?e)"
    using m by (simp_all add: power_add del: power_numeral)
  then have "(2::nat) ^ (52 + ?e) \<le> 2 ^ 1138" "(2::nat) ^ 1138 < 2 ^ (53 + ?e)" unfolding prod .
  then have "52 + ?e \<le> 1138" "1138 < 53 + ?e"
    by (auto dest: power_le_imp_le_exp [rotated] power_less_imp_less_exp [rotated] simp del: power_numeral)
  then have e: "?e = 1086" by simp
  then have "?m * 2 ^ 1086 = 2 ^ 52 * 2 ^ 1086" using prod by (simp del: power_numeral flip: power_add)
  then have "f64_fraction w = 0" by (simp only: mult_cancel2) simp
  moreover have "f64_exponent w = 1087" using e e0 by simp
  ultimately have "unat w = 1087 * 2 ^ 52" using f64_fields [of w] assms(1) by simp
  then have "unat w = unat (0x43F0000000000000 :: f64)" by simp
  then show ?thesis by (simp only: word_unat_eq_iff)
qed

lemma f64_max_value:
  "\<not> f64_negative 0x43F0000000000000" "f64_units 0x43F0000000000000 = DURATION_MAX_UNITS"
  "f64_is_finite 0x43F0000000000000"
  by (simp_all add: f64_negative_def f64_units_def f64_exponent_def f64_fraction_def f64_is_finite_def
      DURATION_MAX_UNITS_def F64_UNIT_def)

lemma from_secs_f64_Ok:
  assumes "from_secs_f64 w = Ok d"
  shows "d \<le> DURATION_MAX" and "2 * \<bar>int (d * F64_UNIT) - int (f64_units w * 1000000000)\<bar> \<le> int F64_UNIT"
proof -
  have d: "d = round_half_even (f64_units w * 1000000000) F64_UNIT" and small: "f64_units w < DURATION_MAX_UNITS"
    using assms by (auto simp: from_secs_f64_def DURATION_MAX_UNITS_def split: if_splits)
  show "2 * \<bar>int (d * F64_UNIT) - int (f64_units w * 1000000000)\<bar> \<le> int F64_UNIT"
    unfolding d by (rule round_half_even_near) simp
  have "f64_units w * 1000000000 + 2 * F64_UNIT \<le> DURATION_MAX_UNITS * 1000000000"
    using f64_gap [OF small] by simp
  then have "f64_units w * 1000000000 + F64_UNIT \<le> DURATION_MAX * F64_UNIT"
    unfolding duration_max_ns [symmetric] by (simp add: algebra_simps)
  then show "d \<le> DURATION_MAX" unfolding d by (intro round_half_even_le) simp_all
qed

end
