(* ===== verification/Python.thy ===== *)
theory Python
  imports Float_Seconds Interactive Port_Forward
begin

text \<open>
  \<^verbatim>\<open>src/python\<close>: the bindings for Python. A method that is \<^verbatim>\<open>async\<close> in Python is a step that yields a value,
  raises, or has to be polled again; errors become Python exceptions. Parsing a socket address,
  listening on it, and the terminal are parameters.
\<close>

section \<open>Exceptions\<close>

datatype py_err =
    SsmError msg | SsmAwsError msg | SsmProtocolError msg | SsmTransportError msg | SsmClosedError msg
  | SsmCryptoError msg | SsmTimeoutError msg
  | PyValueError msg | PyRuntimeError msg | PyStopAsyncIteration

text \<open>The exceptions that \<^verbatim>\<open>except SsmError\<close> catches.\<close>

fun is_ssm_error :: "py_err \<Rightarrow> bool" where
  "is_ssm_error (PyValueError m) = False"
| "is_ssm_error (PyRuntimeError m) = False"
| "is_ssm_error PyStopAsyncIteration = False"
| "is_ssm_error _ = True"

fun to_py_err :: "error \<Rightarrow> py_err" where
  "to_py_err (Aws m _) = SsmAwsError m"
| "to_py_err (Protocol m) = SsmProtocolError m"
| "to_py_err (Transport m) = SsmTransportError m"
| "to_py_err (SessionClosed m) = SsmClosedError m"
| "to_py_err (Crypto m) = SsmCryptoError m"
| "to_py_err (Timeout d) = SsmTimeoutError [Txt ''operation timed out after '', Dur d]"
| "to_py_err (Config m) = PyValueError m"
| "to_py_err (Unsupported m) = PyRuntimeError m"
| "to_py_err other = SsmError (error_to_string other)"

definition map_err :: "('e \<Rightarrow> 'f) \<Rightarrow> ('a, 'e) result \<Rightarrow> ('a, 'f) result" where
  "map_err f r = (case r of Ok a \<Rightarrow> Ok a | Err e \<Rightarrow> Err (f e) | Panic \<Rightarrow> Panic)"

lemma map_err_simps [simp]:
  "map_err f (Ok a) = Ok a" "map_err f (Err e) = Err (f e)" "map_err f Panic = Panic"
  by (simp_all add: map_err_def)

lemma map_err_eq_iff [simp]:
  "map_err f r = Ok a \<longleftrightarrow> r = Ok a" "map_err f r = Panic \<longleftrightarrow> r = Panic"
  "map_err f r = Err x \<longleftrightarrow> (\<exists>e. r = Err e \<and> x = f e)"
  by (cases r; auto)+

text \<open>A future whose errors are mapped: what one poll of it gives.\<close>

definition future :: "'a io \<Rightarrow> ('a, py_err) result poll" where
  "future x = (case x of Done r \<Rightarrow> Ready (map_err to_py_err r) | Waits _ \<Rightarrow> Pending)"

lemma future_simps [simp]:
  "future (Done r) = Ready (map_err to_py_err r)" "future (Waits w) = Pending"
  by (simp_all add: future_def)

section \<open>Logging\<close>

datatype level_filter = OFF | ERROR | WARN | INFO | DEBUG | TRACE

definition parse_level :: "string \<Rightarrow> level_filter option" where
  "parse_level level =
    map_of [(''off'', OFF), (''error'', ERROR), (''warn'', WARN), (''info'', INFO), (''debug'', DEBUG),
      (''trace'', TRACE)] (map ascii_lower level)"

text \<open>
  The state is the process-wide subscriber, if there is one: the default directive of its filter and
  the value of \<^verbatim>\<open>RUST_LOG\<close> it was built with.
\<close>

definition configure_logging ::
    "string option \<Rightarrow> string \<Rightarrow> (level_filter \<times> string option) option
      \<Rightarrow> (unit, py_err) result \<times> (level_filter \<times> string option) option" where
  "configure_logging rust_log level subscriber =
    (case parse_level level of
       None \<Rightarrow> (Err (PyValueError [Txt ''unknown log level '', Quoted (map ascii_lower level),
         Txt ''; use off, error, warn, info, debug or trace'']), subscriber)
     | Some f \<Rightarrow> (Ok (), once_set (f, rust_log) subscriber))"

section \<open>Starting sessions\<close>

definition seconds :: "f64 \<Rightarrow> string \<Rightarrow> (duration, py_err) result" where
  "seconds w name =
    (if \<not> f64_is_finite w \<or> f64_below_zero w \<or> f64_above_duration_max w
     then Err (PyValueError [Str name, Txt '' must be a finite, non-negative number of seconds, got '', Foreign])
     else from_secs_f64 w)"

definition build_config ::
    "string \<Rightarrow> string option \<Rightarrow> (string \<times> string list) list option \<Rightarrow> string option \<Rightarrow> f64
      \<Rightarrow> (session_config, py_err) result" where
  "build_config target name given reason ready_timeout =
    (let ps = (case given of Some ps \<Rightarrow> ps | None \<Rightarrow> []);
         document = map_option (\<lambda>n. \<lparr>spec_name = n, spec_parameters = ps,
           spec_session_type = (if prefix ''AWS-StartPortForwardingSession'' n then session_type.Port
             else session_type.StandardStream)\<rparr>) name
     in bind_result (seconds ready_timeout ''ready_timeout'') (\<lambda>t.
       Ok ((config_new target)\<lparr>cfg_document := document, cfg_reason := reason, cfg_ready_timeout := t\<rparr>)))"

definition py_manager_new :: "sdk_loader \<Rightarrow> string option \<Rightarrow> (session_manager, py_err) result" where
  "py_manager_new load reg =
    map_err to_py_err (case reg of Some r \<Rightarrow> manager_for_region load r | None \<Rightarrow> manager_new load)"

definition started ::
    "(session, error) result \<times> api_call list \<Rightarrow> (session, py_err) result \<times> api_call list" where
  "started x = (map_err to_py_err (fst x), snd x)"

definition py_start_session ::
    "aws_ext \<Rightarrow> session_manager \<Rightarrow> string \<Rightarrow> string option \<Rightarrow> (string \<times> string list) list option \<Rightarrow> string option
      \<Rightarrow> f64 \<Rightarrow> api_call list \<Rightarrow> (session, py_err) result \<times> api_call list" where
  "py_start_session A m target name given reason ready_timeout calls =
    (case build_config target name given reason ready_timeout of
       Ok config \<Rightarrow> started (start_session A m config calls)
     | Err e \<Rightarrow> (Err e, calls)
     | Panic \<Rightarrow> (Panic, calls))"

definition py_start_port_forward ::
    "aws_ext \<Rightarrow> session_manager \<Rightarrow> string \<Rightarrow> u16 \<Rightarrow> string option \<Rightarrow> api_call list
      \<Rightarrow> (session, py_err) result \<times> api_call list" where
  "py_start_port_forward A m target port reason calls =
    started (start_session A m ((config_new target)\<lparr>
      cfg_document := Some (document_spec_new (PortForwardingSession port)), cfg_reason := reason\<rparr>) calls)"

definition py_start_remote_port_forward ::
    "aws_ext \<Rightarrow> session_manager \<Rightarrow> string \<Rightarrow> string \<Rightarrow> u16 \<Rightarrow> string option \<Rightarrow> api_call list
      \<Rightarrow> (session, py_err) result \<times> api_call list" where
  "py_start_remote_port_forward A m target hst port reason calls =
    started (start_session A m ((config_new target)\<lparr>
      cfg_document := Some (document_spec_new (PortForwardingToRemoteHost hst port)), cfg_reason := reason\<rparr>) calls)"

definition py_terminate_session ::
    "aws_ext \<Rightarrow> string \<Rightarrow> api_call list \<Rightarrow> (unit, py_err) result \<times> api_call list" where
  "py_terminate_session A sid calls =
    (case terminate_session A calls sid of (r, calls1) \<Rightarrow> (map_err to_py_err r, calls1))"

section \<open>A session\<close>

definition py_id :: "session \<Rightarrow> string" where "py_id s = sess_id s"
definition py_target :: "session \<Rightarrow> string" where "py_target s = cfg_target (sess_config s)"
definition py_agent_version :: "session \<Rightarrow> string option" where "py_agent_version s = sess_agent_version s"
definition py_banner :: "session \<Rightarrow> string option" where "py_banner s = sess_banner s"
definition py_exit_code :: "session \<Rightarrow> int option" where "py_exit_code s = sess_exit_code s"
definition py_is_encrypted :: "session \<Rightarrow> bool" where "py_is_encrypted s = sess_encrypted s"
definition py_is_ready :: "session \<Rightarrow> bool" where "py_is_ready s = sess_ready s"
definition py_is_closed :: "session \<Rightarrow> bool" where "py_is_closed s = sess_closed s"

definition py_close_reason :: "session \<Rightarrow> msg option" where
  "py_close_reason s = map_option reason_to_string (sess_close_reason s)"

definition show_bool :: "bool \<Rightarrow> fragment" where
  "show_bool b = Txt (if b then ''true'' else ''false'')"

definition py_repr :: "session \<Rightarrow> msg" where
  "py_repr s = [Txt ''Session(id='', Quoted (sess_id s), Txt '', target='', Quoted (cfg_target (sess_config s)),
     Txt '', ready='', show_bool (sess_ready s), Txt '', closed='', show_bool (sess_closed s), Txt '')'']"

definition py_wait_ready :: "bool \<Rightarrow> session \<Rightarrow> (unit, py_err) result poll" where
  "py_wait_ready expired s = future (wait_ready expired s)"

definition py_wait_closed :: "session \<Rightarrow> (unit, py_err) result poll" where
  "py_wait_closed s = (if sess_closed s then Ready (Ok ()) else Pending)"

definition py_send :: "bytes \<Rightarrow> session \<Rightarrow> (unit, py_err) result poll \<times> session" where
  "py_send data s = (case session_send data s of (x, s1) \<Rightarrow> (future x, s1))"

definition py_send_terminal_size ::
    "(json \<Rightarrow> string + string) \<Rightarrow> u16 \<Rightarrow> u16 \<Rightarrow> session \<Rightarrow> (unit, py_err) result poll \<times> session" where
  "py_send_terminal_size printer c r s = (case send_terminal_size printer c r s of (x, s1) \<Rightarrow> (future x, s1))"

definition py_output :: "session \<Rightarrow> nat \<times> session" where
  "py_output s = session_output s"

text \<open>
  \<^verbatim>\<open>__anext__\<close> on stream \<open>i\<close> of the session. Calls that overlap take turns by the stream's lock; a poll while
  another call holds it is one that finds nothing.
\<close>

definition py_anext :: "nat \<Rightarrow> session \<Rightarrow> (bytes, py_err) result poll \<times> session" where
  "py_anext i s =
    (case stream_recv i (fanout (sess_core s)) of
       (r, f) \<Rightarrow>
         (case r of
            Got chunk \<Rightarrow> Ready (Ok chunk)
          | Ended \<Rightarrow> Ready (Err PyStopAsyncIteration)
          | Waiting \<Rightarrow> Pending,
          s\<lparr>chan := (chan s)\<lparr>core := (sess_core s)\<lparr>fanout := f\<rparr>\<rparr>\<rparr>))"

definition py_terminate ::
    "api_call list \<Rightarrow> session \<Rightarrow> (unit, py_err) result \<times> api_call list \<times> session" where
  "py_terminate calls s = (case terminate calls s of (r, calls1, s1) \<Rightarrow> (map_err to_py_err r, calls1, s1))"

text \<open>\<^verbatim>\<open>__aenter__\<close> yields the session itself; \<^verbatim>\<open>__aexit__\<close> yields whether an exception is to be suppressed.\<close>

definition py_aenter :: "bool \<Rightarrow> session \<Rightarrow> (session, py_err) result poll" where
  "py_aenter expired s =
    (case future (wait_ready expired s) of
       Pending \<Rightarrow> Pending
     | Ready r \<Rightarrow> Ready (bind_result r (\<lambda>_. Ok s)))"

definition py_aexit :: "api_call list \<Rightarrow> session \<Rightarrow> (bool, py_err) result \<times> api_call list \<times> session" where
  "py_aexit calls s = (case terminate calls s of (_, calls1, s1) \<Rightarrow> (Ok False, calls1, s1))"

section \<open>A port forwarder\<close>

record py_port_forwarder =
  py_forwarder :: "port_forwarder option"
  py_local_addr :: "u32 \<times> u16"
  py_shutdown :: bool

definition py_bind ::
    "(string \<Rightarrow> (u32 \<times> u16) option) \<Rightarrow> (u32 \<times> u16 \<Rightarrow> error + unit) \<Rightarrow> (u32 \<times> u16 \<Rightarrow> error + (u32 \<times> u16))
      \<Rightarrow> string \<Rightarrow> nat \<Rightarrow> (py_port_forwarder, py_err) result" where
  "py_bind parse listen listener_addr addr max_connections =
    (case parse addr of
       None \<Rightarrow> Err (PyValueError [Quoted addr, Txt '' is not a valid address: '', Foreign])
     | Some a \<Rightarrow>
         bind_result (map_err to_py_err (pf_bind listen listener_addr
             (port_forward_config_default\<lparr>local_addr := a, pf_max_connections := max_connections\<rparr>)))
           (\<lambda>f. Ok \<lparr>py_forwarder = Some f, py_local_addr = bound_addr f, py_shutdown = False\<rparr>))"

definition py_port :: "py_port_forwarder \<Rightarrow> u16" where
  "py_port f = snd (py_local_addr f)"

text \<open>
  \<^verbatim>\<open>forward\<close> gives a future, with the forwarder it has taken; \<open>py_forward_poll\<close> is a poll of that future up to the
  accept loop, which runs as in theory Port\_Forward.
\<close>

definition py_forward :: "py_port_forwarder \<Rightarrow> (port_forwarder, py_err) result \<times> py_port_forwarder" where
  "py_forward f =
    (case py_forwarder f of
       None \<Rightarrow> (Err (PyRuntimeError [Txt ''this PortForwarder has already been used; bind a new one'']), f)
     | Some h \<Rightarrow> (Ok h, f\<lparr>py_forwarder := None\<rparr>))"

definition py_forward_poll ::
    "port_forwarder \<Rightarrow> py_port_forwarder \<Rightarrow> bool \<Rightarrow> session \<Rightarrow> (forwarder option, py_err) result poll" where
  "py_forward_poll h f expired s = future (forward_start (bound_config h) s (py_shutdown f) expired)"

definition py_stop :: "py_port_forwarder \<Rightarrow> py_port_forwarder" where
  "py_stop f = f\<lparr>py_shutdown := True\<rparr>"

section \<open>The interactive shell\<close>

definition py_shell_new :: "bool \<Rightarrow> string option \<Rightarrow> string option \<Rightarrow> interactive_config" where
  "py_shell_new banner_shown reg reason = \<lparr>show_banner = banner_shown, send_initial_size = True,
     shell_region = reg, shell_reason = reason\<rparr>"

text \<open>\<open>feature\<close> says whether the crate was built with its \<^verbatim>\<open>interactive\<close> feature.\<close>

definition py_shell_run ::
    "bool \<Rightarrow> aws_ext \<Rightarrow> sdk_loader \<Rightarrow> terminal_ext \<Rightarrow> interactive_config \<Rightarrow> string \<Rightarrow> terminal \<Rightarrow> api_call list
      \<Rightarrow> (shell, py_err) result \<times> api_call list" where
  "py_shell_run feature A load T config target t calls =
    (if feature then
       (case shell_run A load T config target t calls of (r, calls1) \<Rightarrow> (map_err to_py_err r, calls1))
     else (Err (PyRuntimeError [Txt ''this build was compiled without the `interactive` feature'']), calls))"

definition py_shell_result :: "shell \<Rightarrow> (int option, py_err) result poll" where
  "py_shell_result sh = (case sh_phase sh of drive_phase.Finished r \<Rightarrow> Ready (map_err to_py_err r) | _ \<Rightarrow> Pending)"

section \<open>The statement async with\<close>

text \<open>
  What Python makes of the two methods: the body runs if entering succeeds, leaving runs whatever the
  body does, and an exception of the body goes on unless leaving asks to suppress it.
\<close>

type_synonym py_body = "api_call list \<Rightarrow> session \<Rightarrow> (unit, py_err) result \<times> api_call list \<times> session"

definition async_with ::
    "bool \<Rightarrow> py_body \<Rightarrow> api_call list \<Rightarrow> session \<Rightarrow> (unit, py_err) result poll \<times> api_call list \<times> session" where
  "async_with expired body calls s =
    (case py_aenter expired s of
       Pending \<Rightarrow> (Pending, calls, s)
     | Ready (Err e) \<Rightarrow> (Ready (Err e), calls, s)
     | Ready Panic \<Rightarrow> (Ready Panic, calls, s)
     | Ready (Ok s1) \<Rightarrow>
         (case body calls s1 of
            (r, calls1, s2) \<Rightarrow>
              (case py_aexit calls1 s2 of
                 (Ok suppress, calls2, s3) \<Rightarrow> (Ready (if suppress then Ok () else r), calls2, s3)
               | (Err e, calls2, s3) \<Rightarrow> (Ready (Err e), calls2, s3)
               | (Panic, calls2, s3) \<Rightarrow> (Ready Panic, calls2, s3))))"

section \<open>Properties\<close>

lemma document_name_port:
  "d \<noteq> ShellSession \<Longrightarrow>
    (if prefix ''AWS-StartPortForwardingSession'' (document_name d) then session_type.Port else session_type.StandardStream)
      = document_session_type d"
  by (cases d) simp_all

text \<open>
  (C38) The Python surface mirrors the Rust one. For every document but the plain shell, naming it and giving
  its parameters makes the configuration that the builder makes for it, session type included; without a
  name it is the configuration of a plain shell, whatever parameters are given; and the two methods for
  port forwarding start what the builder starts for the two forwarding documents.
\<close>

theorem python_mirrors_builder:
  fixes target reason
  defines "b \<equiv> (case reason of None \<Rightarrow> builder_new target | Some r \<Rightarrow> with_reason r (builder_new target))"
  assumes "seconds w ''ready_timeout'' = Ok t" and "d \<noteq> ShellSession"
  shows "build_config target (Some (document_name d)) (Some (parameters d)) reason w
      = Ok (into_config (with_ready_timeout t (with_document d b)))
    \<and> build_config target None given reason w = Ok (into_config (with_ready_timeout t b))
    \<and> py_start_port_forward A m target port reason calls
      = started (builder_start_with A m (port_forward port b) calls)
    \<and> py_start_remote_port_forward A m target hst port reason calls
      = started (builder_start_with A m (with_document (PortForwardingToRemoteHost hst port) b) calls)"
  using assms(2) document_name_port [OF assms(3)]
  by (cases reason)
    (simp_all add: b_def build_config_def Let_def builder_defs py_start_port_forward_def
      py_start_remote_port_forward_def builder_start_with_def)

lemma seconds_30: "seconds 0x403E000000000000 ''ready_timeout'' = Ok (secs 30)"
  by (simp add: seconds_def from_secs_f64_def f64_is_finite_def f64_below_zero_def f64_above_duration_max_def
      f64_negative_def f64_units_def f64_exponent_def f64_fraction_def DURATION_MAX_UNITS_def F64_UNIT_def
      round_half_even_def)

theorem python_mirrors_builder_witness:
  "build_config ''i-1'' (Some ''AWS-StartPortForwardingSession'') (Some [(''portNumber'', [''3306''])]) None
     0x403E000000000000 = Ok (into_config (with_ready_timeout (secs 30) (port_forward 3306 (builder_new ''i-1''))))"
proof -
  have "decimal 3306 = ''3306''" by code_simp
  then have "parameters (PortForwardingSession 3306) = [(''portNumber'', [''3306''])]" by (simp add: params_def)
  moreover have "PortForwardingSession 3306 \<noteq> ShellSession" by simp
  ultimately show ?thesis
    using python_mirrors_builder [OF seconds_30, of "PortForwardingSession 3306" "''i-1''" None]
    by (simp add: port_forward_def)
qed

text \<open>
  A number of seconds from Python. A value that is not finite, is below zero or exceeds \<open>2\<^sup>6\<^sup>4\<close> raises an
  exception; any other becomes the duration in nanoseconds that is nearest to it, which is in the range of
  durations. The one value that is neither is \<open>2\<^sup>6\<^sup>4\<close> itself, for which the conversion panics.
\<close>

theorem seconds_total_but_for_one_value:
  "(seconds w name = Panic \<longleftrightarrow> w = 0x43F0000000000000)
   \<and> ((\<exists>e. seconds w name = Err e) \<longleftrightarrow> \<not> f64_is_finite w \<or> f64_below_zero w \<or> f64_above_duration_max w)
   \<and> (\<forall>d. seconds w name = Ok d \<longrightarrow> d \<le> DURATION_MAX
        \<and> 2 * \<bar>int (d * F64_UNIT) - int (f64_units w * 1000000000)\<bar> \<le> int F64_UNIT)"
proof (intro conjI allI impI)
  show "seconds w name = Panic \<longleftrightarrow> w = 0x43F0000000000000"
  proof
    assume "seconds w name = Panic"
    then have "\<not> f64_below_zero w" "\<not> f64_above_duration_max w" "DURATION_MAX_UNITS \<le> f64_units w"
      by (auto simp: seconds_def from_secs_f64_def DURATION_MAX_UNITS_def split: if_splits)
    moreover have "0 < DURATION_MAX_UNITS" by (simp add: DURATION_MAX_UNITS_def)
    ultimately have "\<not> f64_negative w" "f64_units w = DURATION_MAX_UNITS"
      by (auto simp: f64_below_zero_def f64_above_duration_max_def)
    then show "w = 0x43F0000000000000" by (rule f64_units_max)
  next
    assume "w = 0x43F0000000000000"
    then show "seconds w name = Panic"
      using f64_max_value
      by (simp add: seconds_def from_secs_f64_def f64_below_zero_def f64_above_duration_max_def
          DURATION_MAX_UNITS_def)
  qed
  show "(\<exists>e. seconds w name = Err e) \<longleftrightarrow> \<not> f64_is_finite w \<or> f64_below_zero w \<or> f64_above_duration_max w"
    by (auto simp: seconds_def from_secs_f64_def)
  fix d
  assume "seconds w name = Ok d"
  then have "from_secs_f64 w = (Ok d :: (duration, py_err) result)" by (simp add: seconds_def split: if_splits)
  from from_secs_f64_Ok [OF this]
  show "d \<le> DURATION_MAX" "2 * \<bar>int (d * F64_UNIT) - int (f64_units w * 1000000000)\<bar> \<le> int F64_UNIT" .
qed

theorem seconds_total_but_for_one_value_witness:
  "secs 30 \<le> DURATION_MAX \<and> 2 * \<bar>int (secs 30 * F64_UNIT) - int (f64_units 0x403E000000000000 * 1000000000)\<bar> \<le> int F64_UNIT"
  using seconds_total_but_for_one_value [of "0x403E000000000000" "''ready_timeout''"] seconds_30 by blast



text \<open>
  A forwarder forwards once. Whatever is called on it afterwards, only the first call to forward gets
  the listener; every later one raises. A session that was not started for forwarding is refused with
  an exception, and a stop before the session is ready ends the call without one.
\<close>

datatype py_forwarder_op = PyForward | PyStop

fun py_forwarder_step :: "py_forwarder_op \<Rightarrow> py_port_forwarder \<Rightarrow> py_port_forwarder" where
  "py_forwarder_step PyForward f = snd (py_forward f)"
| "py_forwarder_step PyStop f = py_stop f"

interpretation spent: machine py_forwarder_step "\<lambda>f. py_forwarder f = None"
proof
  fix f :: py_port_forwarder and op
  assume "py_forwarder f = None"
  then show "py_forwarder (py_forwarder_step op f) = None"
    by (cases op) (simp_all add: py_forward_def py_stop_def)
qed

theorem python_forwarder_is_one_shot:
  assumes "py_forward f = (Ok h, f1)"
  shows "py_forwarder f = Some h
    \<and> (\<exists>m. fst (py_forward (fold py_forwarder_step ops f1)) = Err (PyRuntimeError m))
    \<and> (config_session_type (sess_config s) \<noteq> session_type.Port \<longrightarrow>
        (\<exists>m. py_forward_poll h f1 expired s = Ready (Err (PyValueError m))))
    \<and> (config_session_type (sess_config s) = session_type.Port \<longrightarrow>
        py_forward_poll h (py_stop f1) expired s = Ready (Ok None))"
proof -
  have f: "py_forwarder f = Some h" "py_forwarder f1 = None"
    using assms by (auto simp: py_forward_def split: option.splits)
  from spent.run_inv [OF f(2)] have "py_forwarder (fold py_forwarder_step ops f1) = None" .
  then show ?thesis using f by (simp add: py_forward_def py_forward_poll_def forward_start_def py_stop_def)
qed

text \<open>
  Iterating over the output. On a session that has ended, the iterator yields what is still queued for it,
  chunk by chunk and in order, and then stops; it does not hang.
\<close>

fun py_anexts :: "nat \<Rightarrow> nat \<Rightarrow> session \<Rightarrow> (bytes, py_err) result poll list" where
  "py_anexts 0 i s = []"
| "py_anexts (Suc n) i s = fst (py_anext i s) # py_anexts n i (snd (py_anext i s))"

theorem async_for_drains:
  assumes "i < length (store (fanout (sess_core s)))"
    and "sub_chan (store (fanout (sess_core s)) ! i) = c" and "tx_gone c"
  shows "py_anexts (length (queued c) + 1) i s
    = map (\<lambda>chunk. Ready (Ok chunk)) (queued c) @ [Ready (Err PyStopAsyncIteration)]"
  using assms
proof (induction "queued c" arbitrary: c s)
  case Nil
  then show ?case by (simp add: py_anext_def stream_recv_def recv_def split_beta)
next
  case (Cons x xs)
  let ?f = "fanout (sess_core s)"
  have r: "recv c = (Got x, c\<lparr>queued := xs\<rparr>)" using Cons.hyps(2) [symmetric] by (simp add: recv_def)
  have n: "py_anext i s = (Ready (Ok x), s\<lparr>chan := (chan s)\<lparr>core := (sess_core s)\<lparr>fanout :=
      ?f\<lparr>store := (store ?f)[i := (store ?f ! i)\<lparr>sub_chan := c\<lparr>queued := xs\<rparr>\<rparr>]\<rparr>\<rparr>\<rparr>\<rparr>)"
    using Cons.prems r by (simp add: py_anext_def stream_recv_def)
  have "py_anexts (length (queued (c\<lparr>queued := xs\<rparr>)) + 1) i (snd (py_anext i s))
      = map (\<lambda>chunk. Ready (Ok chunk)) (queued (c\<lparr>queued := xs\<rparr>)) @ [Ready (Err PyStopAsyncIteration)]"
    by (rule Cons.hyps(1)) (use Cons.prems in \<open>simp_all add: n\<close>)
  then show ?case using Cons.hyps(2) [symmetric] by (simp add: n)
qed

section \<open>Departures from the documentation\<close>

text \<open>
  The module says to catch \<^verbatim>\<open>SsmError\<close> for everything. Invalid configurations and unsupported requests are
  raised as exceptions of Python's own, which that does not catch.
\<close>

theorem ssm_error_does_not_catch_all:
  "is_ssm_error (to_py_err e) \<longleftrightarrow> (\<forall>m. e \<noteq> Config m \<and> e \<noteq> Unsupported m)"
  by (cases e) auto

text \<open>
  The context manager is said to guarantee termination. When the session does not become ready in time, entering raises,
  Python does not call the other method, and the session stays open with nobody to terminate it.
\<close>

theorem failed_enter_leaves_session_open:
  assumes "\<not> sess_ready s" and "\<not> sess_closed s"
  shows "\<exists>m. async_with True body calls s = (Ready (Err (SsmTimeoutError m)), calls, s)"
  using assms by (simp add: async_with_def py_aenter_def wait_ready_def sess_ready_def)

text \<open>
  Any number of connections can be asked for when binding; a number that no semaphore can hold makes
  forwarding panic once the session is ready.
\<close>

theorem too_many_connections_panic:
  assumes "py_bind parse listen listener_addr addr n = Ok f" and "MAX_PERMITS < n"
    and "config_session_type (sess_config s) = session_type.Port" and "sess_ready s"
  shows "\<exists>h. py_forwarder f = Some h \<and> py_forward_poll h f expired s = Ready Panic"
  using assms
  by (auto simp: py_bind_def py_forward_poll_def forward_start_def wait_ready_def sess_ready_def
      pf_bind_def split: option.splits sum.splits)

end
