(* ===== verification/Metrics.thy ===== *)
theory Metrics
  imports Session Float_Seconds
begin

text \<open>
  \<^verbatim>\<open>src/metrics.rs\<close>: the process-wide recorder, and the places that count with it. A recorder is an object of the
  application: a state and two methods. Everything else of the development leaves the counting out,
  as it influences nothing; here it is put beside the operations it belongs to.
\<close>

section \<open>The recorder\<close>

record 'm metrics_recorder =
  rec_state :: 'm
  rec_counter :: "string \<Rightarrow> u64 \<Rightarrow> 'm \<Rightarrow> 'm"
  rec_histogram :: "string \<Rightarrow> f64 \<Rightarrow> 'm \<Rightarrow> 'm"

text \<open>The methods that an implementation does not override do nothing.\<close>

definition default_recorder :: "'m \<Rightarrow> 'm metrics_recorder" where
  "default_recorder m = \<lparr>rec_state = m, rec_counter = (\<lambda>_ _ x. x), rec_histogram = (\<lambda>_ _ x. x)\<rparr>"

text \<open>The static \<^verbatim>\<open>RECORDER\<close> is passed as an option; \<^verbatim>\<open>OnceLock::set\<close> hands a rejected value back.\<close>

definition register ::
    "'m metrics_recorder \<Rightarrow> 'm metrics_recorder option
      \<Rightarrow> (unit, 'm metrics_recorder) result \<times> 'm metrics_recorder option" where
  "register r slot = (case slot of None \<Rightarrow> (Ok (), Some r) | Some _ \<Rightarrow> (Err r, slot))"

definition counter :: "string \<Rightarrow> u64 \<Rightarrow> 'm metrics_recorder option \<Rightarrow> 'm metrics_recorder option" where
  "counter name v slot =
    (case slot of Some r \<Rightarrow> Some (r\<lparr>rec_state := rec_counter r name v (rec_state r)\<rparr>) | None \<Rightarrow> None)"

definition histogram :: "string \<Rightarrow> f64 \<Rightarrow> 'm metrics_recorder option \<Rightarrow> 'm metrics_recorder option" where
  "histogram name v slot =
    (case slot of Some r \<Rightarrow> Some (r\<lparr>rec_state := rec_histogram r name v (rec_state r)\<rparr>) | None \<Rightarrow> None)"

definition SESSIONS_STARTED :: string where "SESSIONS_STARTED = ''ssm_sessions_started_total''"
definition SESSIONS_ENDED :: string where "SESSIONS_ENDED = ''ssm_sessions_ended_total''"
definition MESSAGES_SENT :: string where "MESSAGES_SENT = ''ssm_messages_sent_total''"
definition MESSAGES_RECEIVED :: string where "MESSAGES_RECEIVED = ''ssm_messages_received_total''"
definition BYTES_SENT :: string where "BYTES_SENT = ''ssm_bytes_sent_total''"
definition BYTES_RECEIVED :: string where "BYTES_RECEIVED = ''ssm_bytes_received_total''"
definition RETRANSMISSIONS :: string where "RETRANSMISSIONS = ''ssm_retransmissions_total''"
definition ACKS_RECEIVED :: string where "ACKS_RECEIVED = ''ssm_acks_received_total''"
definition RTT_SECONDS :: string where "RTT_SECONDS = ''ssm_rtt_seconds''"
definition HANDSHAKE_SECONDS :: string where "HANDSHAKE_SECONDS = ''ssm_handshake_seconds''"

lemmas metric_names = SESSIONS_STARTED_def SESSIONS_ENDED_def MESSAGES_SENT_def MESSAGES_RECEIVED_def
  BYTES_SENT_def BYTES_RECEIVED_def RETRANSMISSIONS_def ACKS_RECEIVED_def RTT_SECONDS_def HANDSHAKE_SECONDS_def

section \<open>Where the library counts\<close>

text \<open>What is counted when a session is opened, when it is closed, ...\<close>

definition open_counts :: "(session, error) result \<Rightarrow> (string \<times> u64) list" where
  "open_counts r = (if is_ok r then [(SESSIONS_STARTED, 1)] else [])"

definition close_counts :: "session_core \<Rightarrow> (string \<times> u64) list" where
  "close_counts c = (if is_closed c then [] else [(SESSIONS_ENDED, 1)])"

text \<open>... when a numbered message has found room in the buffer, when a frame arrives, and when one is resent.\<close>

definition send_counts :: "bytes \<Rightarrow> 'z channel_state_scheme \<Rightarrow> (string \<times> u64) list" where
  "send_counts w s =
    (if fst (track (clock s) w (stream_sequence (stream s)) (outgoing (stream s)))
     then [(MESSAGES_SENT, 1), (BYTES_SENT, of_nat (length w))] else [])"

definition frame_counts :: "ws_event \<Rightarrow> reader_state \<Rightarrow> (string \<times> u64) list" where
  "frame_counts ev r =
    (if closed_now r then []
     else case ev of
       Frame (Binary data) \<Rightarrow> [(MESSAGES_RECEIVED, 1), (BYTES_RECEIVED, of_nat (length data))]
     | _ \<Rightarrow> [])"

definition retransmit_counts :: "'z channel_state_scheme \<Rightarrow> (string \<times> u64) list" where
  "retransmit_counts s =
    (if closed_now s then []
     else case fst (poll_retransmit (clock s) (outgoing (stream s))) of
       Resend sq w \<Rightarrow> [(RETRANSMISSIONS, 1)]
     | _ \<Rightarrow> [])"

definition record_counts ::
    "(string \<times> u64) list \<Rightarrow> 'm metrics_recorder option \<Rightarrow> 'm metrics_recorder option" where
  "record_counts xs slot = fold (\<lambda>(name, v). counter name v) xs slot"

section \<open>Properties\<close>

lemma record_counts_simps [simp]:
  "record_counts [] slot = slot"
  "record_counts ((n, v) # xs) slot = record_counts xs (counter n v slot)"
  by (simp_all add: record_counts_def)

lemma no_recorder [simp]: "record_counts xs None = None"
  by (induction xs) (auto simp: counter_def)

text \<open>
  The sessions of a process and its recorder: recorders are registered, sessions are opened, and
  their tasks and callers operate on their cores, in any order.
\<close>

record 'm metrics_world =
  mw_cores :: "session_core list"
  mw_slot :: "'m metrics_recorder option"

datatype 'm mw_op =
    MwRegister "'m metrics_recorder" | MwOpen conn_ext endpoint_ext instant session_opening | MwCore nat core_op

fun mw_step :: "'m mw_op \<Rightarrow> 'm metrics_world \<Rightarrow> 'm metrics_world" where
  "mw_step (MwRegister r) w = w\<lparr>mw_slot := snd (register r (mw_slot w))\<rparr>"
| "mw_step (MwOpen E N now p) w =
    (let r = session_open E N now p
     in w\<lparr>mw_slot := record_counts (open_counts r) (mw_slot w),
          mw_cores := mw_cores w @ (case r of Ok s \<Rightarrow> [sess_core s] | _ \<Rightarrow> [])\<rparr>)"
| "mw_step (MwCore i op) w =
    (if i < length (mw_cores w) then
       let c = mw_cores w ! i
       in w\<lparr>mw_slot := (case op of CloseCore _ \<Rightarrow> record_counts (close_counts c) (mw_slot w) | _ \<Rightarrow> mw_slot w),
            mw_cores := (mw_cores w)[i := core_step op c]\<rparr>
     else w)"

text \<open>A recorder that adds up, in the 64 bits of a counter.\<close>

definition tally :: "(string \<Rightarrow> u64) metrics_recorder" where
  "tally = \<lparr>rec_state = (\<lambda>_. 0), rec_counter = (\<lambda>n v m. m(n := m n + v)), rec_histogram = (\<lambda>_ _ m. m)\<rparr>"

definition closed_count :: "session_core list \<Rightarrow> nat" where
  "closed_count cs = length (filter is_closed cs)"

definition counted :: "(string \<Rightarrow> u64) metrics_world \<Rightarrow> bool" where
  "counted w \<longleftrightarrow> (\<exists>m. mw_slot w = Some (tally\<lparr>rec_state := m\<rparr>)
     \<and> m SESSIONS_STARTED = of_nat (length (mw_cores w)) \<and> m SESSIONS_ENDED = of_nat (closed_count (mw_cores w)))"

lemma counter_tally [simp]:
  "counter n v (Some (tally\<lparr>rec_state := m\<rparr>)) = Some (tally\<lparr>rec_state := m(n := m n + v)\<rparr>)"
  by (simp add: counter_def tally_def)

lemma closed_count_update:
  "i < length cs \<Longrightarrow> closed_count (cs[i := c]) + (if is_closed (cs ! i) then 1 else 0)
    = closed_count cs + (if is_closed c then 1 else 0)"
proof (induction cs arbitrary: i)
  case (Cons x cs)
  then show ?case by (cases i) (fastforce simp: closed_count_def)+
qed simp

lemma core_step_closed:
  "is_closed (core_step op c) \<longleftrightarrow> is_closed c \<or> (case op of CloseCore _ \<Rightarrow> True | _ \<Rightarrow> False)"
  by (cases op) (auto simp: core_ops split_beta split: option.splits)

lemma counted_core:
  assumes "counted w" and "i < length (mw_cores w)"
  shows "counted (mw_step (MwCore i op) w)"
proof -
  let ?c = "mw_cores w ! i"
  obtain m where m: "mw_slot w = Some (tally\<lparr>rec_state := m\<rparr>)"
      "m SESSIONS_STARTED = of_nat (length (mw_cores w))" "m SESSIONS_ENDED = of_nat (closed_count (mw_cores w))"
    using assms(1) by (auto simp: counted_def)
  note upd = closed_count_update [OF assms(2), of "core_step op ?c"]
  show ?thesis
  proof (cases "\<exists>r. op = CloseCore r \<and> \<not> is_closed ?c")
    case True
    then have "closed_count ((mw_cores w)[i := core_step op ?c]) = closed_count (mw_cores w) + 1"
      using upd core_step_closed [of op ?c] by auto
    then show ?thesis
      using True assms(2) m by (auto simp: counted_def close_counts_def Let_def metric_names)
  next
    case False
    then have "closed_count ((mw_cores w)[i := core_step op ?c]) = closed_count (mw_cores w)"
      using upd core_step_closed [of op ?c] by (auto split: core_op.splits)
    then show ?thesis
      using False assms(2) m by (auto simp: counted_def close_counts_def Let_def split: core_op.splits)
  qed
qed

lemma session_open_not_closed: "session_open E N now p = Ok s \<Longrightarrow> \<not> sess_closed s"
  by (auto simp: session_open_def connect_def Let_def channel_state.defs channel_new_def core_new_def)

interpretation counting: machine mw_step counted
proof
  fix w :: "(string \<Rightarrow> u64) metrics_world" and op
  assume w: "counted w"
  show "counted (mw_step op w)"
  proof (cases op)
    case (MwRegister r)
    then show ?thesis using w by (auto simp: counted_def register_def)
  next
    case (MwOpen E N now p)
    then show ?thesis
      using w session_open_not_closed [of E N now p]
      by (cases "session_open E N now p")
        (auto simp: counted_def open_counts_def closed_count_def Let_def metric_names add.commute)
  next
    case (MwCore i op)
    then show ?thesis using w counted_core [OF w, of i op] by (cases "i < length (mw_cores w)") auto
  qed
qed

text \<open>
  (C40) Sessions are counted right. With a recorder installed before the first session, the counter of started
  sessions is the number of sessions that were opened and the counter of ended ones the number of those
  that are closed, both as 64-bit numbers, so that their difference is the number of open
  sessions; a session is counted as ended once, however many tasks close it, and a recorder that is
  registered later receives nothing and is handed back.
\<close>

theorem sessions_are_counted_once:
  fixes ops
  defines "w \<equiv> fold mw_step ops \<lparr>mw_cores = [], mw_slot = Some tally\<rparr>"
  shows "(\<exists>m. mw_slot w = Some (tally\<lparr>rec_state := m\<rparr>) \<and> m SESSIONS_STARTED = of_nat (length (mw_cores w))
      \<and> m SESSIONS_ENDED = of_nat (closed_count (mw_cores w))
      \<and> m SESSIONS_STARTED - m SESSIONS_ENDED = of_nat (length (filter (\<lambda>c. \<not> is_closed c) (mw_cores w))))
    \<and> register r (mw_slot w) = (Err r, mw_slot w)"
proof -
  have "counted \<lparr>mw_cores = [], mw_slot = Some tally\<rparr>"
    by (auto simp: counted_def closed_count_def tally_def intro: exI [of _ "\<lambda>_. 0"])
  then have "counted w" unfolding w_def by (rule counting.run_inv)
  moreover have "length (mw_cores w) = closed_count (mw_cores w) + length (filter (\<lambda>c. \<not> is_closed c) (mw_cores w))"
    by (simp add: closed_count_def sum_length_filter_compl)
  ultimately show ?thesis by (auto simp: counted_def register_def)
qed

text \<open>Without a recorder nothing is recorded, whatever is counted.\<close>

lemma metrics_off_by_default:
  "\<forall>op \<in> set ops. \<forall>r. op \<noteq> MwRegister r \<Longrightarrow> mw_slot w = None \<Longrightarrow> mw_slot (fold mw_step ops w) = None"
proof (induction ops arbitrary: w)
  case (Cons op ops)
  have "mw_slot (mw_step op w) = None"
    using Cons.prems by (cases op) (auto simp: Let_def split: core_op.split)
  with Cons show ?case by simp
qed simp

end
