(* ===== verification/Spec2Isabelle.thy ===== *)
theory Spec2Isabelle
  imports Tunnel Interactive Pool Reconnect Shutdown Notify Inbound_Flow Handshake_Wire Python Metrics
begin

text \<open>
  A verification library for \<^verbatim>\<open>aws-ssm-bridge\<close>, a Rust client of the AWS Session Manager protocol.

  \<^bold>\<open>The program.\<close> A \<^verbatim>\<open>SessionManager\<close> asks the SSM service for a session and opens a WebSocket to the
  endpoint it names. Five tasks serve the connection: the reader decodes frames, puts them back in
  order, answers the handshake and hands output to a fan-out; the writer drains a queue of frames;
  the command task turns what the caller sends into numbered messages; the heartbeat looks for a
  silent peer; the retransmission task resends what was not acknowledged. Above a session there are
  a multiplexer that carries many streams, a port forwarder that puts local connections on such
  streams, a pool of sessions, and a supervisor that resumes or replaces a session that was lost.

  \<^bold>\<open>The theories\<close>, each with the file of \<^verbatim>\<open>src/src/\<close> that it models.
    \<^item> \<^verbatim>\<open>Prelude\<close>, \<^verbatim>\<open>Rust_Strings\<close>: results with panics, bytes, durations, big-endian numbers, the parts of
      Rust's strings in use. \<^verbatim>\<open>Json\<close>: JSON documents and what serde's derived readers accept. \<^verbatim>\<open>Mpsc\<close>: tokio's bounded channel as a state machine, as documented.
    \<^item> \<^verbatim>\<open>Errors\<close> (\<^verbatim>\<open>errors.rs\<close>), \<^verbatim>\<open>Binary_Protocol\<close> (\<^verbatim>\<open>binary_protocol.rs\<close>), \<^verbatim>\<open>Ack\<close> (\<^verbatim>\<open>ack.rs\<close>), \<^verbatim>\<open>Channels\<close> (\<^verbatim>\<open>channels.rs\<close>),
      \<^verbatim>\<open>Crypto\<close> (\<^verbatim>\<open>crypto.rs\<close>), \<^verbatim>\<open>Handshake\<close>, \<^verbatim>\<open>Handshake_Wire\<close> (\<^verbatim>\<open>handshake.rs\<close>): the building blocks. Shown: the codec round trips
      and never panics; the retransmission budget, Karn's rule and the bounds of the buffers; a
      subscriber loses nothing unless its lag flag says so; encryption round trips and is never
      silently dropped; the handshake is answered once, and its documents say to the agent what they mean.
    \<^item> \<^verbatim>\<open>Session_Core\<close> (the shared state in \<^verbatim>\<open>session.rs\<close> and the continuity record of \<^verbatim>\<open>connection.rs\<close>),
      \<^verbatim>\<open>Notify\<close> (the waiting protocol of \<^verbatim>\<open>closed\<close>, \<^verbatim>\<open>wait_sendable\<close>, \<^verbatim>\<open>ack_notified\<close>: no wake-up is lost),
      \<^verbatim>\<open>Shutdown\<close> (\<^verbatim>\<open>shutdown.rs\<close>, the same protocol through a locale).
    \<^item> \<^verbatim>\<open>Endpoint\<close> (dialling, endpoint policy, \<^verbatim>\<open>signing.rs\<close>), \<^verbatim>\<open>Outbound\<close>, \<^verbatim>\<open>Connection\<close>, \<^verbatim>\<open>In_Order\<close>, \<^verbatim>\<open>Tasks\<close>
      (\<^verbatim>\<open>connection.rs\<close>): the data channel. Each task is a definition of one iteration; \<^verbatim>\<open>Tasks\<close> interleaves all
      five and shows that no task ends while the session is open and that numbers are not reused;
      \<^verbatim>\<open>In_Order\<close> shows that output is delivered in order, once, and as soon as the gaps are filled; \<^verbatim>\<open>Inbound_Flow\<close> follows
      the agent's output from the frames over the reader, which may be parked in the middle of a message, to a consumer
      while all tasks run, and shows that the consumer reads the beginning of it, and misses nothing unless its lag flag says so;
      \<^verbatim>\<open>Outbound_Flow\<close> follows the callers' input through the queue and the command task while all tasks run and shows
      that what was numbered and what is still on its way is together what was accepted; \<^verbatim>\<open>Backpressure\<close> shows that a reader
      whose reply meets a full buffer waits for itself.
    \<^item> \<^verbatim>\<open>Documents\<close> (\<^verbatim>\<open>documents.rs\<close>), \<^verbatim>\<open>Session\<close> (the rest of \<^verbatim>\<open>session.rs\<close>), \<^verbatim>\<open>Builder\<close> (\<^verbatim>\<open>builder.rs\<close>): starting, resuming and
      ending sessions against a service whose answers are a parameter; no session that was started is
      left behind when its channel fails, and a resumed session continues the stream state it is given.
    \<^item> \<^verbatim>\<open>Mux_Frame\<close>, \<^verbatim>\<open>Mux\<close>, \<^verbatim>\<open>Mux_Streams\<close> (\<^verbatim>\<open>mux.rs\<close>): frames, the table of streams, the three tasks. Shown:
      reassembly does not depend on chunking; every stream gets its own bytes whole and in order,
      under every interleaving of callers and tasks; a slow stream is evicted alone; identifiers are
      odd and distinct.
    \<^item> \<^verbatim>\<open>Port_Forward\<close> (\<^verbatim>\<open>port_forward.rs\<close>) and \<^verbatim>\<open>Tunnel\<close>: the accept loop, its permits, the copies of each
      connection; \<^verbatim>\<open>Tunnel\<close> composes them with the multiplexer and follows the bytes from the socket to the frames
      and back.
    \<^item> \<^verbatim>\<open>Pool\<close> (\<^verbatim>\<open>pool.rs\<close>): limits hold although starts overlap, and nothing that was turned away is leaked.
    \<^item> \<^verbatim>\<open>Interactive\<close> (\<^verbatim>\<open>terminal.rs\<close>, \<^verbatim>\<open>interactive.rs\<close>): a shell on the local terminal passes input and output on verbatim
      and leaves the terminal as it found it.
    \<^item> \<^verbatim>\<open>Reconnect\<close> (\<^verbatim>\<open>reconnect.rs\<close>): the supervisor prefers a resume, ends within its limits, and
      stops when it is told to.
    \<^item> \<^verbatim>\<open>Metrics\<close> (\<^verbatim>\<open>metrics.rs\<close>): the process-wide recorder and the calls the library makes to it; in every history of
      sessions the open ones are those counted as started and not as ended.
    \<^item> \<^verbatim>\<open>Python\<close> (\<^verbatim>\<open>python/mod.rs\<close>, \<^verbatim>\<open>python/session.rs\<close>) with \<^verbatim>\<open>Float_Seconds\<close> (how Rust turns a double, kept as its
      64 bits, into a duration): the bindings start the same session as the builder would, a context manager
      terminates the session it entered, and the exceptions raised are those of the crate's errors.

  \<^bold>\<open>How the code is modelled.\<close> Structs are records, enums datatypes, errors values of a result type with
  a third constructor for panics. Sequence numbers, identifiers and lengths are words where they are
  in the code, so that wrap-around is visible; durations and clocks are numbers of nanoseconds. Shared
  state behind a lock or an \<^verbatim>\<open>Arc\<close> is a component of the state that every task's step takes and returns,
  objects with several owners live in a store. What an \<^verbatim>\<open>await\<close> can wait for is the value \<^verbatim>\<open>Waits\<close> or
  \<^verbatim>\<open>Pending\<close>, after which the step is taken again. Cryptography, the JSON parser and printer, base64, the URL parser, SigV4, the
  WebSocket, the SSM client, the clock, the random number generator and sockets are parameters,
  with what the code relies on as named hypotheses.

  \<^bold>\<open>Bounds and fuel.\<close> Only the reconnection loop takes fuel, as it may run for ever without a limit on
  attempts; with a limit, one unit more than the limit is shown to be enough. Its counter of attempts wraps at 32 bits
  and doubling a delay beyond the range of durations panics, as in the code; the theorems say how far the delays stay
  below that range. All other loops are total functions, with a measure where the recursion is not structural.
  Identifiers of streams are distinct for the first two to the thirty-first streams, after which the counter of the
  code wraps. Sequence numbers are 64-bit words; where a theorem needs that a signed number has not wrapped, it says so.

  \<^bold>\<open>Not modelled.\<close> Limits of the JSON parser that depend on whether a member is read or skipped (nesting,
  numbers out of range), and the positions it puts into its errors; the greatest depth of a tokio channel. Logging and the \<^verbatim>\<open>Debug\<close> renderings, which influence nothing; \<^verbatim>\<open>lib.rs\<close>, which only re-exports;
  the registration of the Python module and its type stubs; the examples and the command line, which
  hand calls to the library.
\<close>

end
